(* ===== verification/Prelude.thy ===== *)
theory Prelude
  imports Main "HOL-Library.Word" "HOL-Library.Multiset" "HOL-Library.State_Monad"
begin

text \<open>
  Shared vocabulary of the dotproxy development.

  \<^item> Go results: a call returns a value (\<open>Ret\<close>), returns a non-nil error
    (\<open>Fail\<close>), panics (\<open>Panic\<close>), or has not returned within the fuel it was
    given (\<open>Hang\<close>; only the unbounded recursion of the availability policy
    can produce it).
  \<^item> Go integers, \<open>time.Time\<close> and \<open>time.Duration\<close>: unbounded integers with the
    64-bit wrap-around (\<open>wrap64\<close>) written out where the code's arithmetic can
    overflow. Times are nanoseconds since the Unix epoch.
  \<^item> Stateful code is a program of HOL-Library's state monad. \<open>keeps\<close> states that
    a program preserves an invariant, and \<open>yields\<close> is the matching rule with a
    post-condition; their rules are collected so that invariant proofs follow
    the shape of the code.
\<close>

section \<open>Go values\<close>

type_synonym byte = "8 word"
type_synonym bytes = "byte list"
type_synonym time = int
type_synonym duration = int

datatype go_err =
    ErrClosed
  | ErrTimeout
  | ErrEnv string
  | Errorf string "go_err option"

datatype go_panic =
    IndexOutOfRange
  | NilDereference
  | DivideByZero
  | IntnNonPositive
  | PanicErr go_err

datatype 'a gores = Ret 'a | Fail go_err | Panic go_panic | Hang

definition returns :: "'a gores \<Rightarrow> bool" where
  "returns r \<longleftrightarrow> (case r of Ret _ \<Rightarrow> True | Fail _ \<Rightarrow> True | _ \<Rightarrow> False)"

lemma returns_simps [simp]:
  "returns (Ret x)" "returns (Fail e)" "\<not> returns (Panic p)" "\<not> returns Hang"
  by (simp_all add: returns_def)

section \<open>Sixty-four bit integers\<close>

definition wrap64 :: "int \<Rightarrow> int" where
  "wrap64 x = (x + 2 ^ 63) mod 2 ^ 64 - 2 ^ 63"

definition in64 :: "int \<Rightarrow> bool" where
  "in64 x \<longleftrightarrow> - (2 ^ 63) \<le> x \<and> x < 2 ^ 63"

lemma wrap64_id [simp]: "in64 x \<Longrightarrow> wrap64 x = x"
  by (simp add: wrap64_def in64_def)

lemma wrap64_in64 [simp]: "in64 (wrap64 x)"
  using pos_mod_bound [of "2 ^ 64 :: int" "x + 2 ^ 63"]
    pos_mod_sign [of "2 ^ 64 :: int" "x + 2 ^ 63"]
  by (auto simp: wrap64_def in64_def)

lemma wrap64_cong: "x mod 2 ^ 64 = y mod 2 ^ 64 \<Longrightarrow> wrap64 x = wrap64 y"
  unfolding wrap64_def by (metis mod_add_cong)

lemma wrap64_mod: "wrap64 x mod 2 ^ 64 = x mod 2 ^ 64"
  unfolding wrap64_def by (metis add_diff_cancel_right' mod_diff_left_eq)

lemma wrap64_add: "wrap64 (wrap64 x + y) = wrap64 (x + y)"
  by (rule wrap64_cong) (metis mod_add_left_eq wrap64_mod)

lemma wrap64_times: "wrap64 (wrap64 x * y) = wrap64 (x * y)"
  by (rule wrap64_cong) (metis wrap64_mod mod_mult_left_eq)

text \<open>
  \<open>time.Since(t)\<close> is \<open>time.Now().Sub(t)\<close>, which saturates at the ends of the
  duration range. \<open>Unix\<close> drops the sub-second part; \<open>time.Unix(s, 0)\<close> is the
  instant \<open>s\<close> seconds after the epoch. The zero \<open>time.Time\<close> is the first instant
  of the year 1.
\<close>

definition second :: duration where "second = 1000000000"
definition millisecond :: duration where "millisecond = 1000000"

definition zero_time :: time where
  "zero_time = - 62135596800 * second"

definition IsZero :: "time \<Rightarrow> bool" where
  "IsZero t \<longleftrightarrow> t = zero_time"

definition since :: "time \<Rightarrow> time \<Rightarrow> duration" where
  "since now t = max (- (2 ^ 63)) (min (2 ^ 63 - 1) (now - t))"

definition Unix :: "time \<Rightarrow> int" where
  "Unix t = t div second"

definition unix_time :: "int \<Rightarrow> time" where
  "unix_time s = s * second"

lemma second_pos [simp]: "0 < second"
  by (simp add: second_def)

lemma unix_time_le: "unix_time (Unix t) \<le> t"
  by (simp add: unix_time_def Unix_def second_def minus_mod_eq_div_mult [symmetric])

lemma unix_time_gt: "t < unix_time (Unix t) + second"
proof -
  have "t mod second < second" by simp
  moreover have "unix_time (Unix t) + t mod second = t"
    by (simp add: unix_time_def Unix_def)
  ultimately show ?thesis by linarith
qed

lemma since_mono: "now \<le> now' \<Longrightarrow> since now t \<le> since now' t"
  by (auto simp: since_def)

lemma since_gt: "- (2 ^ 63) \<le> d \<Longrightarrow> d < 2 ^ 63 - 1 \<Longrightarrow> d < since now t \<longleftrightarrow> d < now - t"
  by (auto simp: since_def)

section \<open>State-passing programs\<close>

named_theorems keeps_rules
named_theorems run_rules

abbreviation pass :: "'a \<Rightarrow> ('s, 'a) state" where
  "pass \<equiv> State_Monad.return"

definition update_st :: "('s \<Rightarrow> 's) \<Rightarrow> ('s, unit) state" where
  "update_st f = State (\<lambda>s. ((), f s))"

definition reads :: "('s \<Rightarrow> 'a) \<Rightarrow> ('s, 'a) state" where
  "reads f = State (\<lambda>s. (f s, s))"

lemma run_update_st [simp, run_rules]: "run_state (update_st f) s = ((), f s)"
  by (simp add: update_st_def)

lemma run_reads [simp, run_rules]: "run_state (reads f) s = (f s, s)"
  by (simp add: reads_def)

definition yields :: "('s \<Rightarrow> bool) \<Rightarrow> ('s, 'a) state \<Rightarrow> ('a \<Rightarrow> 's \<Rightarrow> bool) \<Rightarrow> bool" where
  "yields P m Q \<longleftrightarrow> (\<forall>s a s'. P s \<longrightarrow> run_state m s = (a, s') \<longrightarrow> Q a s')"

definition keeps :: "('s \<Rightarrow> bool) \<Rightarrow> ('s, 'a) state \<Rightarrow> bool" where
  "keeps I m \<longleftrightarrow> yields I m (\<lambda>_. I)"

lemma yieldsI: "(\<And>s a s'. P s \<Longrightarrow> run_state m s = (a, s') \<Longrightarrow> Q a s') \<Longrightarrow> yields P m Q"
  by (simp add: yields_def)

lemma yieldsD: "yields P m Q \<Longrightarrow> P s \<Longrightarrow> run_state m s = (a, s') \<Longrightarrow> Q a s'"
  by (simp add: yields_def)

lemma yields_bind:
  assumes "yields P m R" "\<And>a. yields (R a) (f a) Q"
  shows "yields P (State_Monad.bind m f) Q"
  using assms unfolding yields_def by (auto split: prod.splits)

lemma yields_weaken:
  "yields P m Q \<Longrightarrow> (\<And>s. P' s \<Longrightarrow> P s) \<Longrightarrow> (\<And>a s. Q a s \<Longrightarrow> Q' a s) \<Longrightarrow> yields P' m Q'"
  unfolding yields_def by blast

lemma yields_from:
  "(\<And>s. P s \<Longrightarrow> \<exists>P'. P' s \<and> yields P' m Q) \<Longrightarrow> yields P m Q"
  unfolding yields_def by blast

lemma yields_return: "(\<And>s. P s \<Longrightarrow> Q x s) \<Longrightarrow> yields P (State_Monad.return x) Q"
  by (simp add: yields_def)

lemma keepsI: "(\<And>s a s'. I s \<Longrightarrow> run_state m s = (a, s') \<Longrightarrow> I s') \<Longrightarrow> keeps I m"
  by (simp add: keeps_def yields_def)

lemma keepsD: "keeps I m \<Longrightarrow> I s \<Longrightarrow> run_state m s = (a, s') \<Longrightarrow> I s'"
  by (simp add: keeps_def yields_def)

lemma keeps_bind [keeps_rules]:
  "keeps I m \<Longrightarrow> (\<And>a. keeps I (f a)) \<Longrightarrow> keeps I (State_Monad.bind m f)"
  unfolding keeps_def by (rule yields_bind)

lemma keeps_return [keeps_rules]: "keeps I (State_Monad.return x)"
  by (simp add: keeps_def yields_def)

lemma keeps_reads [keeps_rules]: "keeps I (reads f)"
  by (simp add: keeps_def yields_def)

lemma keeps_update: "(\<And>s. I s \<Longrightarrow> I (f s)) \<Longrightarrow> keeps I (update_st f)"
  by (simp add: keeps_def yields_def)

lemma keeps_if [keeps_rules]:
  "(b \<Longrightarrow> keeps I m) \<Longrightarrow> (\<not> b \<Longrightarrow> keeps I n) \<Longrightarrow> keeps I (if b then m else n)"
  by simp

lemma keeps_option [keeps_rules]:
  "(x = None \<Longrightarrow> keeps I m) \<Longrightarrow> (\<And>y. x = Some y \<Longrightarrow> keeps I (f y)) \<Longrightarrow>
   keeps I (case x of None \<Rightarrow> m | Some y \<Rightarrow> f y)"
  by (cases x) auto

lemma keeps_prod [keeps_rules]:
  "(\<And>a b. x = (a, b) \<Longrightarrow> keeps I (f a b)) \<Longrightarrow> keeps I (case x of (a, b) \<Rightarrow> f a b)"
  by (cases x) auto

lemma keeps_sum [keeps_rules]:
  "(\<And>a. x = Inl a \<Longrightarrow> keeps I (f a)) \<Longrightarrow> (\<And>b. x = Inr b \<Longrightarrow> keeps I (g b)) \<Longrightarrow>
   keeps I (case x of Inl a \<Rightarrow> f a | Inr b \<Rightarrow> g b)"
  by (cases x) auto

lemma keeps_gores [keeps_rules]:
  "(\<And>v. x = Ret v \<Longrightarrow> keeps I (f v)) \<Longrightarrow> (\<And>er. x = Fail er \<Longrightarrow> keeps I (g er)) \<Longrightarrow>
   (\<And>p. x = Panic p \<Longrightarrow> keeps I (h p)) \<Longrightarrow> (x = Hang \<Longrightarrow> keeps I k) \<Longrightarrow>
   keeps I (case x of Ret v \<Rightarrow> f v | Fail er \<Rightarrow> g er | Panic p \<Rightarrow> h p | Hang \<Rightarrow> k)"
  by (cases x) auto

section \<open>Lists\<close>

definition remove_nth :: "nat \<Rightarrow> 'a list \<Rightarrow> 'a list" where
  "remove_nth i xs = take i xs @ drop (Suc i) xs"

lemma mset_remove_nth: "i < length xs \<Longrightarrow> add_mset (xs ! i) (mset (remove_nth i xs)) = mset xs"
  by (metis append_take_drop_id Cons_nth_drop_Suc mset.simps(2) mset_append
      remove_nth_def union_mset_add_mset_right)

lemma mset_replace_nth: "i < length xs \<Longrightarrow> mset (xs[i := x]) = add_mset x (mset (remove_nth i xs))"
  using mset_remove_nth [of i "xs[i := x]"] by (simp add: remove_nth_def)

lemma nth_map_swap:
  assumes "i < length xs" "j < length xs" "k < length xs"
  shows "xs[i := xs ! j, j := xs ! i] ! k = (if k = j then xs ! i else if k = i then xs ! j else xs ! k)"
  using assms by (simp add: nth_list_update)

end
