(* ===== verification/Priority_Queue.thy ===== *)
theory Priority_Queue
  imports Prelude
begin

text \<open>
  \<^verbatim>\<open>src/internal/data/priority.go\<close> and the part of Go's \<open>container/heap\<close> it is used
  with. A queue is the backing slice of items; an item records the slot it lies in.
  The theory proves that the heap operations keep the heap order and the recorded
  slots, that they only permute the stored entries, and that \<open>heap.Pop\<close> hands out an
  entry of highest priority. The contract is the locale \<open>max_bag\<close>, interpreted
  on the heap at the end.
\<close>

section \<open>The backing slice\<close>

record 'a Item =
  val :: 'a
  priority :: int
  index :: int

type_synonym 'a PriorityQueue = "'a Item list"

definition Len :: "'a PriorityQueue \<Rightarrow> nat" where
  "Len pq = length pq"

definition Less :: "'a PriorityQueue \<Rightarrow> nat \<Rightarrow> nat \<Rightarrow> bool" where
  "Less pq i j \<longleftrightarrow> priority (pq ! i) > priority (pq ! j)"

definition Swap :: "nat \<Rightarrow> nat \<Rightarrow> 'a PriorityQueue \<Rightarrow> 'a PriorityQueue" where
  "Swap i j pq = pq[i := (pq ! j)\<lparr>index := int i\<rparr>, j := (pq ! i)\<lparr>index := int j\<rparr>]"

definition pq_Push :: "'a Item \<Rightarrow> 'a PriorityQueue \<Rightarrow> 'a PriorityQueue" where
  "pq_Push x pq = pq @ [x\<lparr>index := int (length pq)\<rparr>]"

definition pq_Pop :: "'a PriorityQueue \<Rightarrow> ('a Item \<times> 'a PriorityQueue) gores" where
  "pq_Pop old =
     (let n = length old
      in if n = 0 then Panic IndexOutOfRange
         else Ret ((old ! (n - 1))\<lparr>index := - 1\<rparr>, take (n - 1) old))"

section \<open>container/heap\<close>

function up :: "'a PriorityQueue \<Rightarrow> nat \<Rightarrow> 'a PriorityQueue" where
  "up pq j =
     (let i = (j - 1) div 2
      in if i = j \<or> \<not> Less pq j i then pq else up (Swap i j pq) i)"
  by pat_completeness auto
termination
  by (relation "measure snd") auto

function down_loop :: "'a PriorityQueue \<Rightarrow> nat \<Rightarrow> nat \<Rightarrow> 'a PriorityQueue \<times> nat" where
  "down_loop pq i n =
     (let j1 = 2 * i + 1
      in if j1 \<ge> n then (pq, i)
         else let j2 = j1 + 1; j = (if j2 < n \<and> Less pq j2 j1 then j2 else j1)
              in if \<not> Less pq j i then (pq, i) else down_loop (Swap i j pq) j n)"
  by pat_completeness auto
termination
  by (relation "measure (\<lambda>(pq, i, n). n - i)") auto

declare up.simps [simp del] down_loop.simps [simp del]

lemma single_heap: "up [x] 0 = [x]" "down_loop [x] 0 0 = ([x], 0)" "down_loop [x] 0 (Suc 0) = ([x], 0)"
  by (subst up.simps, simp add: Less_def) (subst down_loop.simps, simp)+

definition down :: "'a PriorityQueue \<Rightarrow> nat \<Rightarrow> nat \<Rightarrow> 'a PriorityQueue \<times> bool" where
  "down pq i0 n = (case down_loop pq i0 n of (pq', i) \<Rightarrow> (pq', i > i0))"

fun heap_Init_loop :: "nat \<Rightarrow> 'a PriorityQueue \<Rightarrow> 'a PriorityQueue" where
  "heap_Init_loop 0 pq = pq"
| "heap_Init_loop (Suc i) pq = heap_Init_loop i (fst (down pq i (Len pq)))"

definition heap_Init :: "'a PriorityQueue \<Rightarrow> 'a PriorityQueue" where
  "heap_Init pq = heap_Init_loop (Len pq div 2) pq"

definition heap_Push :: "'a Item \<Rightarrow> 'a PriorityQueue \<Rightarrow> 'a PriorityQueue" where
  "heap_Push x pq = (let pq' = pq_Push x pq in up pq' (Len pq' - 1))"

definition heap_Pop :: "'a PriorityQueue \<Rightarrow> ('a Item \<times> 'a PriorityQueue) gores" where
  "heap_Pop pq =
     (if Len pq = 0 then Panic IndexOutOfRange
      else let n = Len pq - 1 in pq_Pop (fst (down (Swap 0 n pq) 0 n)))"

definition heap_Fix :: "nat \<Rightarrow> 'a PriorityQueue \<Rightarrow> 'a PriorityQueue" where
  "heap_Fix i pq = (case down pq i (Len pq) of (pq', moved) \<Rightarrow> if \<not> moved then up pq' i else pq')"

text \<open>
  \<open>update\<close> receives a pointer to an item of the queue and lets \<open>heap.Fix\<close> find it by
  the slot recorded in it. The item is given here by the slot it really lies in, so
  that using the recorded slot is only right while the two agree.
\<close>

definition pq_update :: "nat \<Rightarrow> 'a \<Rightarrow> int \<Rightarrow> 'a PriorityQueue \<Rightarrow> 'a PriorityQueue" where
  "pq_update k v p pq = heap_Fix (nat (index (pq ! k))) (pq[k := (pq ! k)\<lparr>val := v, priority := p\<rparr>])"

section \<open>Heap order on priority functions\<close>

text \<open>
  The order is stated on the function from slots to priorities, so that a swap is a
  pair of function updates. \<open>up_ok\<close> and \<open>down_ok\<close> are the loop invariants: the
  order may fail at slot \<open>j\<close> towards its parent, or at slot \<open>i\<close> towards its children.
\<close>

definition parent :: "nat \<Rightarrow> nat" where
  "parent k = (k - 1) div 2"

lemma parent_less [simp]: "0 < k \<Longrightarrow> parent k < k"
  by (simp add: parent_def)

lemma parent_0 [simp]: "parent 0 = 0"
  by (simp add: parent_def)

lemma parent_eq_self [simp]: "parent k = k \<longleftrightarrow> k = 0"
  by (metis parent_0 parent_less less_irrefl not_gr0)

lemma parent_children [simp]: "parent (Suc (2 * i)) = i" "parent (Suc (Suc (2 * i))) = i"
  by (simp_all add: parent_def)

lemma child_cases: "0 < k \<Longrightarrow> parent k = i \<Longrightarrow> k = 2 * i + 1 \<or> k = 2 * i + 2"
  by (simp add: parent_def) presburger

definition heap_ok :: "(nat \<Rightarrow> int) \<Rightarrow> nat \<Rightarrow> bool" where
  "heap_ok p n \<longleftrightarrow> (\<forall>k. 0 < k \<longrightarrow> k < n \<longrightarrow> p k \<le> p (parent k))"

definition up_ok :: "(nat \<Rightarrow> int) \<Rightarrow> nat \<Rightarrow> nat \<Rightarrow> bool" where
  "up_ok p j n \<longleftrightarrow>
     (\<forall>k. 0 < k \<longrightarrow> k < n \<longrightarrow> k \<noteq> j \<longrightarrow> p k \<le> p (parent k)) \<and>
     (\<forall>k. 0 < k \<longrightarrow> k < n \<longrightarrow> parent k = j \<longrightarrow> 0 < j \<longrightarrow> p k \<le> p (parent j))"

definition down_ok :: "(nat \<Rightarrow> int) \<Rightarrow> nat \<Rightarrow> nat \<Rightarrow> nat \<Rightarrow> bool" where
  "down_ok p m i n \<longleftrightarrow>
     (\<forall>k. 0 < k \<longrightarrow> k < n \<longrightarrow> m \<le> parent k \<longrightarrow> parent k \<noteq> i \<longrightarrow> p k \<le> p (parent k)) \<and>
     (\<forall>k. 0 < k \<longrightarrow> k < n \<longrightarrow> parent k = i \<longrightarrow> m < i \<longrightarrow> m \<le> parent i \<longrightarrow> p k \<le> p (parent i))"

definition heap_from :: "(nat \<Rightarrow> int) \<Rightarrow> nat \<Rightarrow> nat \<Rightarrow> bool" where
  "heap_from p m n \<longleftrightarrow> (\<forall>k. 0 < k \<longrightarrow> k < n \<longrightarrow> m \<le> parent k \<longrightarrow> p k \<le> p (parent k))"

lemma heap_from_0 [simp]: "heap_from p 0 n = heap_ok p n"
  by (simp add: heap_from_def heap_ok_def)

lemma heap_ok_root: "heap_ok p n \<Longrightarrow> k < n \<Longrightarrow> p k \<le> p 0"
proof (induction k rule: less_induct)
  case (less k)
  show ?case
  proof (cases "k = 0")
    case False
    then have "parent k < k" by simp
    with less have "p (parent k) \<le> p 0" by simp
    moreover from False less.prems have "p k \<le> p (parent k)" by (simp add: heap_ok_def)
    ultimately show ?thesis by simp
  qed simp
qed

lemma up_ok_stop:
  assumes "up_ok p j n" "j = 0 \<or> p j \<le> p (parent j)"
  shows "heap_ok p n"
  using assms unfolding up_ok_def heap_ok_def by (metis less_irrefl)

lemma up_ok_step:
  assumes ok: "up_ok p j n" and j: "j < n" "j \<noteq> 0" and gt: "p (parent j) < p j"
  shows "up_ok (p(parent j := p j, j := p (parent j))) (parent j) n"
proof -
  let ?i = "parent j"
  have ij: "?i < j" "0 < j" using j by auto
  have base: "\<And>k. 0 < k \<Longrightarrow> k < n \<Longrightarrow> k \<noteq> j \<Longrightarrow> p k \<le> p (parent k)"
    and grand: "\<And>k. 0 < k \<Longrightarrow> k < n \<Longrightarrow> parent k = j \<Longrightarrow> p k \<le> p ?i"
    using ok ij by (auto simp: up_ok_def)
  let ?q = "p(?i := p j, j := p ?i)"
  have one: "?q k \<le> ?q (parent k)" if k: "0 < k" "k < n" "k \<noteq> ?i" for k
  proof (cases "k = j")
    case True
    with ij gt show ?thesis by simp
  next
    case kj: False
    show ?thesis
    proof (cases "parent k = j")
      case True
      with k kj ij grand [of k] show ?thesis by simp
    next
      case False
      with k kj ij base [of k] gt show ?thesis by auto
    qed
  qed
  have two: "?q k \<le> ?q (parent ?i)" if k: "0 < k" "k < n" "parent k = ?i" "0 < ?i" for k
  proof -
    have pp: "parent ?i < ?i" using k by simp
    have up: "p ?i \<le> p (parent ?i)" using base [of ?i] k ij j by simp
    show ?thesis
    proof (cases "k = j")
      case True
      with pp ij up show ?thesis by simp
    next
      case False
      with base [of k] k up pp ij have "p k \<le> p (parent ?i)" by simp
      moreover have "k \<noteq> ?i" using k by auto
      moreover have "parent ?i \<noteq> j" using pp ij by linarith
      ultimately show ?thesis using False pp ij by (simp del: parent_less)
    qed
  qed
  show ?thesis using one two by (simp add: up_ok_def)
qed

lemma down_ok_init: "heap_from p (Suc i) n \<Longrightarrow> down_ok p i i n"
  by (auto simp: heap_from_def down_ok_def)

lemma down_ok_stop:
  assumes "down_ok p m i n"
    and "\<And>k. 0 < k \<Longrightarrow> k < n \<Longrightarrow> parent k = i \<Longrightarrow> p k \<le> p i"
  shows "heap_from p m n"
  using assms by (auto simp: down_ok_def heap_from_def)

lemma down_ok_step:
  assumes ok: "down_ok p m i n" and mi: "m \<le> i"
    and j: "0 < j" "j < n" "parent j = i" and gt: "p i < p j"
    and big: "\<And>k. 0 < k \<Longrightarrow> k < n \<Longrightarrow> parent k = i \<Longrightarrow> p k \<le> p j"
  shows "down_ok (p(i := p j, j := p i)) m j n"
proof -
  let ?q = "p(i := p j, j := p i)"
  have ij: "i < j" using j parent_less [of j] by simp
  have base: "\<And>k. 0 < k \<Longrightarrow> k < n \<Longrightarrow> m \<le> parent k \<Longrightarrow> parent k \<noteq> i \<Longrightarrow> p k \<le> p (parent k)"
    and above: "\<And>k. 0 < k \<Longrightarrow> k < n \<Longrightarrow> parent k = i \<Longrightarrow> m < i \<Longrightarrow> m \<le> parent i \<Longrightarrow> p k \<le> p (parent i)"
    using ok by (auto simp: down_ok_def)
  have one: "?q k \<le> ?q (parent k)" if k: "0 < k" "k < n" "m \<le> parent k" "parent k \<noteq> j" for k
  proof (cases "parent k = i")
    case True
    with k have "k \<noteq> i" using parent_less [of k] by auto
    with True k gt big [of k] ij show ?thesis by simp
  next
    case ki: False
    then have kj: "k \<noteq> j" using j by auto
    show ?thesis
    proof (cases "k = i")
      case True
      have "parent i < i" using True k by simp
      with k True have "p j \<le> p (parent i)" using above [of j] j by simp
      with True kj k \<open>parent i < i\<close> show ?thesis by simp
    next
      case False
      with kj ki k base [of k] show ?thesis by simp
    qed
  qed
  have two: "?q k \<le> ?q (parent j)" if k: "0 < k" "k < n" "parent k = j" "m \<le> parent j" for k
  proof -
    have "k > j" using k parent_less [of k] by simp
    with k ij base [of k] mi j show ?thesis by simp
  qed
  show ?thesis unfolding down_ok_def using one two by blast
qed

section \<open>What the heap operations do to the slice\<close>

definition prio :: "'a PriorityQueue \<Rightarrow> nat \<Rightarrow> int" where
  "prio pq k = priority (pq ! k)"

definition entry :: "'a Item \<Rightarrow> 'a \<times> int" where
  "entry x = (val x, priority x)"

definition entries :: "'a PriorityQueue \<Rightarrow> ('a \<times> int) multiset" where
  "entries pq = mset (map entry pq)"

definition slots_ok :: "'a PriorityQueue \<Rightarrow> bool" where
  "slots_ok pq \<longleftrightarrow> (\<forall>k < length pq. index (pq ! k) = int k)"

definition pq_inv :: "'a PriorityQueue \<Rightarrow> bool" where
  "pq_inv pq \<longleftrightarrow> heap_ok (prio pq) (length pq) \<and> slots_ok pq"

lemma Less_prio: "Less pq i j \<longleftrightarrow> prio pq j < prio pq i"
  by (simp add: Less_def prio_def)

lemma length_Swap [simp]: "length (Swap i j pq) = length pq"
  by (simp add: Swap_def)

lemma prio_Swap:
  "i < length pq \<Longrightarrow> j < length pq \<Longrightarrow>
   prio (Swap i j pq) = (prio pq)(i := prio pq j, j := prio pq i)"
  by (rule ext) (auto simp: prio_def Swap_def nth_list_update)

lemma entries_Swap:
  assumes "i < length pq" "j < length pq"
  shows "entries (Swap i j pq) = entries pq"
proof -
  have "map entry (Swap i j pq) = (map entry pq)[i := map entry pq ! j, j := map entry pq ! i]"
    using assms by (simp add: Swap_def map_update entry_def)
  then show ?thesis
    using mset_swap [of j "map entry pq" i] assms by (simp add: entries_def)
qed

lemma slots_ok_Swap:
  "i < length pq \<Longrightarrow> j < length pq \<Longrightarrow> slots_ok pq \<Longrightarrow> slots_ok (Swap i j pq)"
  by (auto simp: slots_ok_def Swap_def nth_list_update)

lemma up_unfold:
  "up pq j = (if j = 0 \<or> prio pq j \<le> prio pq (parent j) then pq else up (Swap (parent j) j pq) (parent j))"
  by (subst up.simps) (simp only: Let_def Less_prio parent_def [symmetric] parent_eq_self not_less)

lemma up_induct [consumes 1, case_names step]:
  assumes "j < length pq"
    and step: "\<And>pq j. j < length pq \<Longrightarrow>
      (j \<noteq> 0 \<Longrightarrow> prio pq (parent j) < prio pq j \<Longrightarrow> P (Swap (parent j) j pq) (parent j)) \<Longrightarrow> P pq j"
  shows "P pq j"
  using assms(1)
proof (induction j arbitrary: pq rule: less_induct)
  case (less j)
  show ?case
  proof (rule step [OF less.prems])
    assume "j \<noteq> 0"
    then have "parent j < j" by simp
    then show "P (Swap (parent j) j pq) (parent j)"
      using less.prems by (intro less.IH) auto
  qed
qed

lemma up_frame:
  assumes "j < length pq"
  shows "length (up pq j) = length pq \<and> entries (up pq j) = entries pq \<and>
         (slots_ok pq \<longrightarrow> slots_ok (up pq j))"
  using assms
proof (induction rule: up_induct)
  case (step pq j)
  have "j \<noteq> 0 \<Longrightarrow> parent j < length pq"
    using step.hyps parent_less [of j] by (simp del: parent_less)
  with step show ?case
    by (auto simp: up_unfold [of pq j] entries_Swap slots_ok_Swap)
qed

lemma up_heap:
  assumes "j < length pq" "up_ok (prio pq) j (length pq)"
  shows "heap_ok (prio (up pq j)) (length pq)"
  using assms
proof (induction rule: up_induct)
  case (step pq j)
  show ?case
  proof (cases "j = 0 \<or> prio pq j \<le> prio pq (parent j)")
    case True
    with up_ok_stop [OF step.prems this] show ?thesis by (simp add: up_unfold [of pq j])
  next
    case False
    then have "parent j < length pq"
      using step.hyps parent_less [of j] by (simp del: parent_less)
    then have "up_ok (prio (Swap (parent j) j pq)) (parent j) (length (Swap (parent j) j pq))"
      using False step.hyps up_ok_step [OF step.prems step.hyps]
      by (simp only: prio_Swap length_Swap) simp
    with False step.IH show ?thesis by (simp add: up_unfold [of pq j])
  qed
qed

lemma down_loop_unfold:
  "down_loop pq i n =
     (if n \<le> 2 * i + 1 then (pq, i)
      else let j = (if 2 * i + 2 < n \<and> prio pq (2 * i + 1) < prio pq (2 * i + 2) then 2 * i + 2 else 2 * i + 1)
           in if prio pq j \<le> prio pq i then (pq, i) else down_loop (Swap i j pq) j n)"
  by (subst down_loop.simps) (simp add: Let_def Less_prio not_less)

text \<open>
  One round of the loop of \<open>down\<close> either stops, with no child above slot \<open>i\<close>, or swaps
  slot \<open>i\<close> with its greatest child \<open>j\<close>.
\<close>

lemma down_loop_cases:
  obtains (stop) "down_loop pq i n = (pq, i)"
      "\<And>k. 0 < k \<Longrightarrow> k < n \<Longrightarrow> parent k = i \<Longrightarrow> prio pq k \<le> prio pq i"
  | (swap) j where "down_loop pq i n = down_loop (Swap i j pq) j n" "0 < j" "j < n" "parent j = i" "i < j"
      "prio pq i < prio pq j" "\<And>k. 0 < k \<Longrightarrow> k < n \<Longrightarrow> parent k = i \<Longrightarrow> prio pq k \<le> prio pq j"
proof -
  define j where
    "j = (if 2 * i + 2 < n \<and> prio pq (2 * i + 1) < prio pq (2 * i + 2) then 2 * i + 2 else 2 * i + 1)"
  have big: "prio pq k \<le> prio pq j" if "0 < k" "k < n" "parent k = i" for k
    using child_cases [OF that(1,3)] that(2) by (auto simp: j_def)
  have par: "parent j = i" "0 < j" "i < j" by (auto simp: j_def)
  show thesis
  proof (cases "n \<le> 2 * i + 1 \<or> prio pq j \<le> prio pq i")
    case True
    have "prio pq k \<le> prio pq i" if "0 < k" "k < n" "parent k = i" for k
      using True big [OF that] child_cases [OF that(1,3)] that(2) by auto
    with True show thesis
      by (intro stop) (auto simp: down_loop_unfold [of pq i n] Let_def j_def)
  next
    case False
    then have "j < n" by (auto simp: j_def)
    with False par big show thesis
      by (intro swap [of j]) (auto simp: down_loop_unfold [of pq i n] Let_def j_def)
  qed
qed

lemma down_loop_frame:
  assumes "n \<le> length pq" "down_loop pq i n = (pq', i')"
  shows "length pq' = length pq \<and> entries pq' = entries pq \<and> (slots_ok pq \<longrightarrow> slots_ok pq') \<and>
         (\<forall>k \<ge> n. pq' ! k = pq ! k) \<and> i \<le> i' \<and> (i' = i \<longrightarrow> pq' = pq)"
  using assms
proof (induction "n - i" arbitrary: pq i rule: less_induct)
  case less
  show ?case
  proof (cases rule: down_loop_cases [of pq i n])
    case stop
    with less.prems show ?thesis by simp
  next
    case (swap j)
    have "length pq' = length (Swap i j pq) \<and> entries pq' = entries (Swap i j pq) \<and>
        (slots_ok (Swap i j pq) \<longrightarrow> slots_ok pq') \<and> (\<forall>k \<ge> n. pq' ! k = Swap i j pq ! k) \<and> j \<le> i'"
      using less.hyps [of j "Swap i j pq"] less.prems swap(1,3,5) by auto
    moreover have "\<forall>k \<ge> n. Swap i j pq ! k = pq ! k"
      using swap(3,5) by (auto simp: Swap_def)
    ultimately show ?thesis
      using swap(3,5) less.prems(1) by (auto simp: entries_Swap slots_ok_Swap)
  qed
qed

lemma down_loop_heap:
  assumes "n \<le> length pq" "m \<le> i" "down_ok (prio pq) m i n" "down_loop pq i n = (pq', i')"
  shows "heap_from (prio pq') m n"
  using assms
proof (induction "n - i" arbitrary: pq i rule: less_induct)
  case less
  show ?case
  proof (cases rule: down_loop_cases [of pq i n])
    case stop
    with less.prems down_ok_stop [OF less.prems(3) stop(2)] show ?thesis by simp
  next
    case (swap j)
    have "down_ok (prio (Swap i j pq)) m j n"
      using down_ok_step [OF less.prems(3,2) swap(2,3,4,6,7)] swap(3,5) less.prems(1)
      by (simp only: prio_Swap)
    then show ?thesis
      using less.hyps [of j "Swap i j pq"] less.prems swap(1,3,5) by auto
  qed
qed

lemma down_frame:
  assumes "n \<le> length pq" "down pq i n = (pq', moved)"
  shows "length pq' = length pq" "entries pq' = entries pq" "slots_ok pq \<Longrightarrow> slots_ok pq'"
    "\<And>k. n \<le> k \<Longrightarrow> pq' ! k = pq ! k" "\<not> moved \<Longrightarrow> pq' = pq"
  using assms down_loop_frame [of n pq i] by (auto simp: down_def split: prod.splits)

lemma down_heap:
  "n \<le> length pq \<Longrightarrow> m \<le> i \<Longrightarrow> down_ok (prio pq) m i n \<Longrightarrow> down pq i n = (pq', moved) \<Longrightarrow>
   heap_from (prio pq') m n"
  using down_loop_heap [of n pq m i] by (auto simp: down_def split: prod.splits)

section \<open>The heap operations keep the queue invariant\<close>

lemma pq_inv_Nil [simp]: "pq_inv []"
  by (simp add: pq_inv_def heap_ok_def slots_ok_def)

lemma entries_simps [simp]:
  "entries [] = {#}" "entries (pq @ [x]) = add_mset (entry x) (entries pq)"
  by (simp_all add: entries_def)

lemma entries_empty_iff [simp]: "entries pq = {#} \<longleftrightarrow> pq = []"
  by (simp add: entries_def)

lemma size_entries [simp]: "size (entries pq) = length pq"
  by (simp add: entries_def)

lemma heap_Push_inv:
  assumes "pq_inv pq"
  shows "pq_inv (heap_Push x pq)" "entries (heap_Push x pq) = add_mset (entry x) (entries pq)"
proof -
  let ?q = "pq_Push x pq"
  have len: "length ?q = Suc (length pq)" by (simp add: pq_Push_def)
  have same: "prio ?q k = prio pq k" if "k < length pq" for k
    using that by (simp add: prio_def pq_Push_def nth_append)
  have "up_ok (prio ?q) (length pq) (Suc (length pq))"
  proof -
    have "prio ?q k \<le> prio ?q (parent k)" if "0 < k" "k < length pq" for k
      using assms that same [of k] same [of "parent k"] order.strict_trans [OF parent_less [OF that(1)] that(2)]
      by (simp add: pq_inv_def heap_ok_def)
    moreover have "parent k \<noteq> length pq" if "0 < k" "k < Suc (length pq)" for k
      using that parent_less [of k] by linarith
    ultimately show ?thesis by (auto simp: up_ok_def less_Suc_eq)
  qed
  moreover have "slots_ok ?q"
    using assms by (auto simp: pq_inv_def slots_ok_def pq_Push_def nth_append less_Suc_eq)
  moreover have "entries ?q = add_mset (entry x) (entries pq)"
    by (simp add: pq_Push_def entry_def)
  ultimately show "pq_inv (heap_Push x pq)"
    and "entries (heap_Push x pq) = add_mset (entry x) (entries pq)"
    using up_frame [of "length pq" ?q] up_heap [of "length pq" ?q] len
    by (auto simp: heap_Push_def Len_def pq_inv_def Let_def)
qed

lemma swap_root_down_ok:
  assumes "heap_ok p (Suc n)"
  shows "down_ok (p(0 := p n, n := p 0)) 0 0 n"
proof -
  have "parent k < n" if "0 < k" "k < n" for k
    using parent_less [OF that(1)] that(2) by linarith
  with assms show ?thesis by (auto simp: down_ok_def heap_ok_def)
qed

lemma heap_Pop_inv:
  assumes inv: "pq_inv pq" and ne: "pq \<noteq> []"
  obtains x pq' where "heap_Pop pq = Ret (x, pq')" "pq_inv pq'"
    "entries pq = add_mset (entry x) (entries pq')" "entry x = entry (pq ! 0)" "index x = - 1"
proof -
  define n where "n = length pq - 1"
  have len: "length pq = Suc n" using ne by (simp add: n_def)
  obtain pq1 moved where down: "down (Swap 0 n pq) 0 n = (pq1, moved)" by fastforce
  note frame = down_frame [OF _ down]
  have len1: "length pq1 = Suc n" using frame(1) len by simp
  define x where "x = pq1 ! n"
  have split: "pq1 = take n pq1 @ [x]"
    using len1 take_Suc_conv_app_nth [of n pq1] by (simp add: x_def)
  have root: "entry x = entry (pq ! 0)"
    using frame(4) [of n] len by (cases n) (auto simp: x_def Swap_def entry_def)
  have pop: "heap_Pop pq = Ret (x\<lparr>index := - 1\<rparr>, take n pq1)"
    using len len1 down by (auto simp: heap_Pop_def pq_Pop_def Len_def x_def Let_def)
  have "down_ok (prio (Swap 0 n pq)) 0 0 n"
    using inv len swap_root_down_ok [of "prio pq" n] by (simp add: pq_inv_def prio_Swap)
  then have "heap_ok (prio pq1) n"
    using down_heap [OF _ _ _ down, of 0] len by simp
  then have "heap_ok (prio (take n pq1)) n"
    by (auto simp: heap_ok_def prio_def order.strict_trans [OF parent_less])
  moreover have "slots_ok pq1"
    using frame(3) inv len by (simp add: slots_ok_Swap pq_inv_def)
  then have "slots_ok (take n pq1)" using len1 by (simp add: slots_ok_def)
  ultimately have "pq_inv (take n pq1)" using len1 by (simp add: pq_inv_def)
  moreover have "entries pq = add_mset (entry x) (entries (take n pq1))"
    using frame(2) len entries_Swap [of 0 pq n] arg_cong [OF split, of entries] by simp
  ultimately show thesis
    using that [OF pop] root by (simp add: entry_def)
qed

lemma heap_Pop_Nil [simp]: "heap_Pop [] = Panic IndexOutOfRange"
  by (simp add: heap_Pop_def Len_def)

lemma heap_root_max:
  assumes "pq_inv pq" "e \<in># entries pq"
  shows "snd e \<le> snd (entry (pq ! 0))"
proof -
  from assms(2) obtain k where "k < length pq" "e = entry (pq ! k)"
    by (auto simp: entries_def in_set_conv_nth)
  with assms(1) show ?thesis
    using heap_ok_root [of "prio pq" "length pq" k] by (simp add: pq_inv_def entry_def prio_def)
qed

lemma heap_Init_loop_inv:
  "heap_from (prio pq) i (length pq) \<Longrightarrow> slots_ok pq \<Longrightarrow>
   pq_inv (heap_Init_loop i pq) \<and> entries (heap_Init_loop i pq) = entries pq"
proof (induction i arbitrary: pq)
  case 0
  then show ?case by (simp add: pq_inv_def)
next
  case (Suc i)
  obtain pq' moved where down: "down pq i (length pq) = (pq', moved)" by fastforce
  have "heap_from (prio pq') i (length pq')"
    using down_heap [OF _ _ down_ok_init [OF Suc.prems(1)] down] down_frame(1) [OF _ down] by simp
  with Suc down_frame [OF _ down] down show ?case by (simp add: Len_def)
qed

lemma heap_Init_inv:
  assumes "slots_ok pq"
  shows "pq_inv (heap_Init pq)" "entries (heap_Init pq) = entries pq"
proof -
  have "\<not> length pq div 2 \<le> parent k" if "0 < k" "k < length pq" for k
    using that by (simp add: parent_def)
  then have "heap_from (prio pq) (length pq div 2) (length pq)"
    by (auto simp: heap_from_def)
  with assms heap_Init_loop_inv [of pq "length pq div 2"]
  show "pq_inv (heap_Init pq)" "entries (heap_Init pq) = entries pq"
    by (auto simp: heap_Init_def Len_def)
qed

lemma heap_ok_up_ok: "heap_ok p n \<Longrightarrow> j < n \<Longrightarrow> up_ok p j n"
  unfolding heap_ok_def up_ok_def by (metis order_trans)

lemma lowered_down_ok:
  assumes "heap_ok p n" "i < n" "x \<le> p i"
  shows "down_ok (p(i := x)) 0 i n"
  using assms unfolding heap_ok_def down_ok_def
  by (auto split: if_splits) (metis order_trans)+

lemma raised_up_ok:
  assumes "heap_ok p n" "i < n" "p i \<le> x"
  shows "up_ok (p(i := x)) i n"
  using assms unfolding heap_ok_def up_ok_def
  by (auto split: if_splits) (metis order_trans)+

lemma raised_down_stops:
  assumes "heap_ok p (length pq)" "prio pq = p(i := x)" "p i \<le> x"
  shows "down pq i (length pq) = (pq, False)"
proof (cases rule: down_loop_cases [of pq i "length pq"])
  case stop
  then show ?thesis by (simp add: down_def)
next
  case (swap j)
  have "p j \<le> p i" using assms(1) swap(2,3,4) by (auto simp: heap_ok_def)
  with swap(5,6) assms(2,3) show ?thesis by simp
qed

lemma heap_Fix_inv:
  assumes heap: "heap_ok p (length pq)" and upd: "prio pq = p(i := x)"
    and i: "i < length pq" and slots: "slots_ok pq"
  shows "pq_inv (heap_Fix i pq) \<and> entries (heap_Fix i pq) = entries pq"
proof (cases "x < p i")
  case True
  obtain pq' moved where down: "down pq i (length pq) = (pq', moved)" by fastforce
  have "down_ok (prio pq) 0 i (length pq)"
    using lowered_down_ok [OF heap i, of x] True upd by simp
  then have "heap_ok (prio pq') (length pq')"
    using down_heap [OF _ _ _ down, of 0] down_frame(1) [OF _ down] by simp
  moreover from this have "heap_ok (prio (up pq' i)) (length pq')"
    using up_heap [of i pq'] heap_ok_up_ok [of "prio pq'" "length pq'" i] i down_frame(1) [OF _ down]
    by simp
  ultimately show ?thesis
    using down_frame [OF _ down] up_frame [of i pq'] i slots
    by (auto simp: heap_Fix_def down Len_def pq_inv_def)
next
  case False
  with raised_up_ok [OF heap i, of x] raised_down_stops [OF heap upd] upd
    up_heap [OF i] up_frame [OF i] slots
  show ?thesis by (simp add: heap_Fix_def Len_def pq_inv_def)
qed

lemma pq_update_inv:
  assumes inv: "pq_inv pq" and k: "k < length pq"
  shows "pq_inv (pq_update k v p pq)"
    and "add_mset (entry (pq ! k)) (entries (pq_update k v p pq)) = add_mset (v, p) (entries pq)"
proof -
  let ?q = "pq[k := (pq ! k)\<lparr>val := v, priority := p\<rparr>]"
  have slot: "nat (index (pq ! k)) = k" using inv k by (simp add: pq_inv_def slots_ok_def)
  have upd: "prio ?q = (prio pq)(k := p)"
    using k by (auto simp: prio_def nth_list_update)
  have slots: "slots_ok ?q"
    using inv k by (auto simp: pq_inv_def slots_ok_def nth_list_update)
  have heap: "heap_ok (prio pq) (length ?q)" using inv by (simp add: pq_inv_def)
  note fixed = heap_Fix_inv [OF heap upd _ slots]
  show "pq_inv (pq_update k v p pq)"
    using fixed k by (simp add: pq_update_def slot)
  have "map entry ?q = (map entry pq)[k := (v, p)]"
    by (simp add: map_update entry_def)
  then have "entries ?q = add_mset (v, p) (entries pq - {#entry (pq ! k)#})"
    using k by (simp add: entries_def mset_update)
  moreover have "entry (pq ! k) \<in># entries pq" using k by (simp add: entries_def)
  ultimately show "add_mset (entry (pq ! k)) (entries (pq_update k v p pq)) = add_mset (v, p) (entries pq)"
    using fixed k by (simp add: pq_update_def slot add_mset_commute)
qed

section \<open>The contract of a priority queue\<close>

text \<open>
  What \<open>MRUQueue\<close> relies on: a bag of entries into which \<open>push\<close> adds one entry and
  from which \<open>pop\<close> takes one of highest rank.
\<close>

locale max_bag =
  fixes push :: "'x \<Rightarrow> 'q \<Rightarrow> 'q"
    and pop :: "'q \<Rightarrow> ('x \<times> 'q) gores"
    and bag :: "'q \<Rightarrow> 'e multiset"
    and inv :: "'q \<Rightarrow> bool"
    and elem :: "'x \<Rightarrow> 'e"
    and rank :: "'e \<Rightarrow> int"
  assumes inv_push: "inv q \<Longrightarrow> inv (push x q)"
    and bag_push: "inv q \<Longrightarrow> bag (push x q) = add_mset (elem x) (bag q)"
    and pop_empty: "inv q \<Longrightarrow> bag q = {#} \<Longrightarrow> pop q = Panic IndexOutOfRange"
    and pop_max: "inv q \<Longrightarrow> bag q \<noteq> {#} \<Longrightarrow>
      \<exists>x q'. pop q = Ret (x, q') \<and> inv q' \<and> bag q = add_mset (elem x) (bag q') \<and>
        (\<forall>e \<in># bag q. rank e \<le> rank (elem x))"
begin

lemma pop_Ret:
  assumes "inv q" "pop q = Ret (x, q')"
  shows "inv q'" "bag q = add_mset (elem x) (bag q')" "\<forall>e \<in># bag q. rank e \<le> rank (elem x)"
proof -
  have "bag q \<noteq> {#}" using pop_empty assms by force
  with pop_max [OF assms(1)] assms(2)
  show "inv q'" "bag q = add_mset (elem x) (bag q')" "\<forall>e \<in># bag q. rank e \<le> rank (elem x)"
    by auto
qed

lemma pop_descending:
  assumes "inv q" "pop q = Ret (x, q')" "pop q' = Ret (y, q'')"
  shows "rank (elem y) \<le> rank (elem x)"
  using pop_Ret [OF assms(1,2)] pop_Ret [OF _ assms(3)] by simp

lemma pop_push_top:
  assumes "inv q" "pop (push x q) = Ret (y, q')" "\<forall>e \<in># bag q. rank e < rank (elem x)"
  shows "elem y = elem x" "bag q' = bag q"
proof -
  note facts = pop_Ret [OF inv_push [OF assms(1)] assms(2)]
  have "elem y \<in># add_mset (elem x) (bag q)" using facts(2) by (simp add: bag_push assms(1))
  with facts(3) assms(3) show "elem y = elem x" by (auto simp: bag_push assms(1))
  with facts(2) show "bag q' = bag q" by (simp add: bag_push assms(1))
qed

end

interpretation heap: max_bag heap_Push heap_Pop entries pq_inv entry snd
proof
  fix q :: "'a PriorityQueue" and x
  assume "pq_inv q"
  then show "pq_inv (heap_Push x q)" "entries (heap_Push x q) = add_mset (entry x) (entries q)"
    by (rule heap_Push_inv)+
next
  fix q :: "'a PriorityQueue"
  assume "entries q = {#}"
  then show "heap_Pop q = Panic IndexOutOfRange" by simp
next
  fix q :: "'a PriorityQueue"
  assume inv: "pq_inv q" and "entries q \<noteq> {#}"
  then have "q \<noteq> []" by simp
  with inv show "\<exists>x q'. heap_Pop q = Ret (x, q') \<and> pq_inv q' \<and> entries q = add_mset (entry x) (entries q') \<and>
      (\<forall>e \<in># entries q. snd e \<le> snd (entry x))"
    by (rule heap_Pop_inv) (metis heap_root_max inv)
qed

section \<open>Properties\<close>

text \<open>Popping \<open>n\<close> times.\<close>

fun drain :: "nat \<Rightarrow> 'a PriorityQueue \<Rightarrow> ('a \<times> int) list" where
  "drain 0 pq = []"
| "drain (Suc n) pq = (case heap_Pop pq of Ret (x, pq') \<Rightarrow> entry x # drain n pq' | _ \<Rightarrow> [])"

lemma drain_bag:
  assumes "pq_inv pq"
  shows "mset (drain (length pq) pq) = entries pq \<and> sorted_wrt (\<lambda>a b. snd b \<le> snd a) (drain (length pq) pq)"
  using assms
proof (induction "length pq" arbitrary: pq)
  case (Suc n)
  then have "entries pq \<noteq> {#}" by (metis length_0_conv nat.distinct(1) size_empty size_entries)
  with heap.pop_max [OF Suc.prems] obtain x q where q: "heap_Pop pq = Ret (x, q)" "pq_inv q"
      "entries pq = add_mset (entry x) (entries q)" "\<forall>e \<in># entries pq. snd e \<le> snd (entry x)" by blast
  have len: "n = length q" using Suc.hyps(2) q(3) by (metis add_diff_cancel_left' plus_1_eq_Suc size_add_mset size_entries)
  have IH: "mset (drain n q) = entries q" "sorted_wrt (\<lambda>a b. snd b \<le> snd a) (drain n q)"
    using Suc.hyps(1) [OF len q(2)] len by auto
  have "set (drain n q) = set_mset (entries q)" using IH(1) by (metis set_mset_mset)
  with IH q show ?case unfolding Suc.hyps(2) [symmetric] by simp
qed simp

lemma heap_Push_all:
  "pq_inv pq \<Longrightarrow> pq_inv (fold heap_Push xs pq) \<and> entries (fold heap_Push xs pq) = image_mset entry (mset xs) + entries pq"
  by (induction xs arbitrary: pq) (simp_all add: heap.inv_push heap.bag_push)

text \<open>
  C16. The queue sorts: whatever items are pushed, in whatever order, popping as many gives
  back exactly these values with their priorities, each once, in descending order of
  priority. This is what \<open>heap.Interface\<close> is implemented for, and it involves every
  method of the queue.
\<close>

theorem priority_queue_sorts:
  "let pq = fold heap_Push xs (heap_Init []) in
    mset (drain (length xs) pq) = image_mset entry (mset xs) \<and>
    sorted_wrt (\<lambda>a b. snd b \<le> snd a) (drain (length xs) pq)"
proof -
  have "heap_Init [] = ([] :: 'a PriorityQueue)" by (simp add: heap_Init_def Len_def)
  moreover have inv: "pq_inv ([] :: 'a PriorityQueue)" by (simp add: pq_inv_def slots_ok_def heap_ok_def)
  moreover have "length (fold heap_Push xs []) = length xs"
    using arg_cong [OF conjunct2 [OF heap_Push_all [OF inv, of xs]], of size] by simp
  ultimately show ?thesis
    using drain_bag [OF conjunct1 [OF heap_Push_all [OF inv, of xs]]] heap_Push_all [OF inv, of xs] by simp
qed

text \<open>
  \<open>update\<close> gives the item at index \<open>k\<close> a new value and priority and nothing else: the
  other entries are the same, and the queue still pops in descending order.
\<close>

lemma update_reorders:
  assumes "pq_inv pq" "k < length pq"
  shows "add_mset (entry (pq ! k)) (mset (drain (length pq) (pq_update k v p pq))) = add_mset (v, p) (entries pq) \<and>
    sorted_wrt (\<lambda>a b. snd b \<le> snd a) (drain (length pq) (pq_update k v p pq))"
proof -
  note upd = pq_update_inv [OF assms, of v p]
  have "length (pq_update k v p pq) = length pq"
    using arg_cong [OF upd(2), of size] by simp
  with drain_bag [OF upd(1)] upd(2) show ?thesis by simp
qed

end
