(* ===== verification/MRU_Queue.thy ===== *)
theory MRU_Queue
  imports Priority_Queue
begin

text \<open>
  \<^verbatim>\<open>src/internal/data/mru.go\<close>: the most-recently-used queue that holds idle upstream
  connections. Each method runs under the queue's mutex, so it is one atomic
  operation on the record \<open>MRUQueue\<close>; the current time is an argument. The contract
  \<open>recency_cache\<close> is what the connection pool builds on.
\<close>

section \<open>The queue and its methods\<close>

record 'a MRUQueue =
  store :: "'a PriorityQueue"
  capacity :: int

definition NewMRUQueue :: "int \<Rightarrow> 'a MRUQueue" where
  "NewMRUQueue cap = \<lparr>store = heap_Init [], capacity = cap\<rparr>"

definition MRUQueue_Push :: "time \<Rightarrow> 'a \<Rightarrow> 'a MRUQueue \<Rightarrow> bool \<times> 'a MRUQueue" where
  "MRUQueue_Push now v m =
     (if capacity m > 0 \<and> int (Len (store m)) = capacity m then (False, m)
      else (True, m\<lparr>store := heap_Push \<lparr>val = v, priority = Unix now, index = 0\<rparr> (store m)\<rparr>))"

definition MRUQueue_Pop :: "'a MRUQueue \<Rightarrow> ('a option \<times> time \<times> bool) gores \<times> 'a MRUQueue" where
  "MRUQueue_Pop m =
     (if Len (store m) = 0 then (Ret (None, unix_time 0, False), m)
      else case heap_Pop (store m) of
        Ret (item, st) \<Rightarrow> (Ret (Some (val item), unix_time (priority item), True), m\<lparr>store := st\<rparr>)
      | Fail er \<Rightarrow> (Fail er, m)
      | Panic p \<Rightarrow> (Panic p, m)
      | Hang \<Rightarrow> (Hang, m))"

definition MRUQueue_Size :: "'a MRUQueue \<Rightarrow> nat" where
  "MRUQueue_Size m = Len (store m)"

definition MRUQueue_Empty :: "'a MRUQueue \<Rightarrow> bool" where
  "MRUQueue_Empty m \<longleftrightarrow> Len (store m) = 0"

section \<open>Invariant\<close>

definition cached :: "'a MRUQueue \<Rightarrow> ('a \<times> int) multiset" where
  "cached m = entries (store m)"

definition mru_inv :: "'a MRUQueue \<Rightarrow> bool" where
  "mru_inv m \<longleftrightarrow> pq_inv (store m) \<and> (0 < capacity m \<longrightarrow> int (length (store m)) \<le> capacity m)"

lemma MRUQueue_Size_cached: "MRUQueue_Size m = size (cached m)"
  by (simp add: MRUQueue_Size_def Len_def cached_def)

lemma MRUQueue_Empty_cached: "MRUQueue_Empty m \<longleftrightarrow> cached m = {#}"
  by (simp add: MRUQueue_Empty_def Len_def cached_def)

section \<open>The contract of the cache\<close>

locale recency_cache =
  fixes push :: "time \<Rightarrow> 'a \<Rightarrow> 'q \<Rightarrow> bool \<times> 'q"
    and pop :: "'q \<Rightarrow> ('a option \<times> time \<times> bool) gores \<times> 'q"
    and bag :: "'q \<Rightarrow> ('a \<times> int) multiset"
    and cap :: "'q \<Rightarrow> int"
    and inv :: "'q \<Rightarrow> bool"
  assumes push_full: "inv q \<Longrightarrow> 0 < cap q \<Longrightarrow> int (size (bag q)) = cap q \<Longrightarrow> push t v q = (False, q)"
    and push_room: "inv q \<Longrightarrow> \<not> (0 < cap q \<and> int (size (bag q)) = cap q) \<Longrightarrow>
      \<exists>q'. push t v q = (True, q') \<and> bag q' = add_mset (v, Unix t) (bag q) \<and> cap q' = cap q \<and> inv q'"
    and pop_none: "inv q \<Longrightarrow> bag q = {#} \<Longrightarrow> pop q = (Ret (None, unix_time 0, False), q)"
    and pop_some: "inv q \<Longrightarrow> bag q \<noteq> {#} \<Longrightarrow>
      \<exists>v s q'. pop q = (Ret (Some v, unix_time s, True), q') \<and> bag q = add_mset (v, s) (bag q') \<and>
        cap q' = cap q \<and> inv q' \<and> (\<forall>e \<in># bag q. snd e \<le> s)"
    and bounded: "inv q \<Longrightarrow> 0 < cap q \<Longrightarrow> int (size (bag q)) \<le> cap q"
begin

lemma push_cases:
  assumes "inv q"
  obtains (full) "push t v q = (False, q)" "0 < cap q" "int (size (bag q)) = cap q"
  | (room) q' where "push t v q = (True, q')" "bag q' = add_mset (v, Unix t) (bag q)" "cap q' = cap q" "inv q'"
  using push_full [OF assms] push_room [OF assms] by blast

lemma pop_cases:
  assumes "inv q"
  obtains (none) "pop q = (Ret (None, unix_time 0, False), q)" "bag q = {#}"
  | (some) v s q' where "pop q = (Ret (Some v, unix_time s, True), q')" "bag q = add_mset (v, s) (bag q')"
      "cap q' = cap q" "inv q'" "\<forall>e \<in># bag q. snd e \<le> s"
  using pop_none [OF assms] pop_some [OF assms] by blast

lemma inv_push: "inv q \<Longrightarrow> inv (snd (push t v q))"
  by (rule push_cases [of q t v]) auto

lemma inv_pop: "inv q \<Longrightarrow> inv (snd (pop q))"
  by (rule pop_cases [of q]) auto

lemma cap_push: "inv q \<Longrightarrow> cap (snd (push t v q)) = cap q"
  by (rule push_cases [of q t v]) auto

lemma cap_pop: "inv q \<Longrightarrow> cap (snd (pop q)) = cap q"
  by (rule pop_cases [of q]) auto

lemma push_grows: "inv q \<Longrightarrow> fst (push t v q) \<Longrightarrow> size (bag (snd (push t v q))) = Suc (size (bag q))"
  by (rule push_cases [of q t v]) auto

lemma newest_first:
  assumes "inv q" "fst (push t v q)" "\<forall>e \<in># bag q. snd e < Unix t"
  shows "\<exists>q'. pop (snd (push t v q)) = (Ret (Some v, unix_time (Unix t), True), q') \<and> bag q' = bag q"
proof -
  obtain q1 where q1: "push t v q = (True, q1)"
    "bag q1 = add_mset (v, Unix t) (bag q)" "inv q1"
    by (rule push_cases [OF assms(1), of t v]) (use assms(2) in auto)
  obtain w s q' where pop: "pop q1 = (Ret (Some w, unix_time s, True), q')"
      "bag q1 = add_mset (w, s) (bag q')" "\<forall>e \<in># bag q1. snd e \<le> s"
    by (rule pop_cases [OF q1(3)]) (use q1 in auto)
  have "(w, s) \<in># add_mset (v, Unix t) (bag q)" using pop(2) q1(2) by simp
  moreover have "Unix t \<le> s" using pop(3) q1(2) by simp
  ultimately have "(w, s) = (v, Unix t)" using assms(3) by fastforce
  with pop q1 show ?thesis by simp
qed

end

section \<open>The queue meets the contract\<close>

lemma mru_inv_New: "mru_inv (NewMRUQueue cap)" "cached (NewMRUQueue cap) = {#}"
  by (auto simp: mru_inv_def NewMRUQueue_def heap_Init_def Len_def cached_def)

interpretation mru: recency_cache MRUQueue_Push MRUQueue_Pop cached capacity mru_inv
proof
  fix q :: "'a MRUQueue" and t v
  assume "0 < capacity q" "int (size (cached q)) = capacity q"
  then show "MRUQueue_Push t v q = (False, q)"
    by (simp add: MRUQueue_Push_def Len_def cached_def)
next
  fix q :: "'a MRUQueue" and t v
  assume inv: "mru_inv q" and room: "\<not> (0 < capacity q \<and> int (size (cached q)) = capacity q)"
  let ?st = "heap_Push \<lparr>val = v, priority = Unix t, index = 0\<rparr> (store q)"
  have "pq_inv ?st" "entries ?st = add_mset (v, Unix t) (entries (store q))"
    using inv by (simp_all add: mru_inv_def heap.inv_push heap.bag_push entry_def)
  moreover from this have "length ?st = Suc (length (store q))"
    by (metis size_add_mset size_entries)
  ultimately show "\<exists>q'. MRUQueue_Push t v q = (True, q') \<and> cached q' = add_mset (v, Unix t) (cached q) \<and>
      capacity q' = capacity q \<and> mru_inv q'"
    using inv room by (auto simp: MRUQueue_Push_def Len_def cached_def mru_inv_def)
next
  fix q :: "'a MRUQueue"
  assume "cached q = {#}"
  then show "MRUQueue_Pop q = (Ret (None, unix_time 0, False), q)"
    by (simp add: MRUQueue_Pop_def Len_def cached_def)
next
  fix q :: "'a MRUQueue"
  assume inv: "mru_inv q" and ne: "cached q \<noteq> {#}"
  then obtain x st where pop: "heap_Pop (store q) = Ret (x, st)" "pq_inv st"
      "entries (store q) = add_mset (entry x) (entries st)" "\<forall>e \<in># entries (store q). snd e \<le> priority x"
    using heap.pop_max [of "store q"] by (auto simp: mru_inv_def cached_def entry_def)
  from pop(3) have "length (store q) = Suc (length st)"
    by (metis size_add_mset size_entries)
  with inv ne pop show "\<exists>v s q'. MRUQueue_Pop q = (Ret (Some v, unix_time s, True), q') \<and>
      cached q = add_mset (v, s) (cached q') \<and> capacity q' = capacity q \<and> mru_inv q' \<and>
      (\<forall>e \<in># cached q. snd e \<le> s)"
    by (auto simp: MRUQueue_Pop_def Len_def cached_def mru_inv_def entry_def)
next
  fix q :: "'a MRUQueue"
  assume "mru_inv q" "0 < capacity q"
  then show "int (size (cached q)) \<le> capacity q"
    by (simp add: mru_inv_def cached_def)
qed

section \<open>Histories of a queue\<close>

datatype 'a mru_op = OpPush time 'a | OpPop

fun mru_apply :: "'a mru_op \<Rightarrow> 'a MRUQueue \<Rightarrow> 'a MRUQueue" where
  "mru_apply (OpPush t v) m = snd (MRUQueue_Push t v m)"
| "mru_apply OpPop m = snd (MRUQueue_Pop m)"

definition mru_run :: "'a mru_op list \<Rightarrow> 'a MRUQueue \<Rightarrow> 'a MRUQueue" where
  "mru_run ops m = fold mru_apply ops m"

lemma mru_run_keeps:
  "mru_inv m \<Longrightarrow> mru_inv (mru_run ops m) \<and> capacity (mru_run ops m) = capacity m"
  unfolding mru_run_def
proof (induction ops arbitrary: m)
  case (Cons op ops)
  have "mru_inv (mru_apply op m)" "capacity (mru_apply op m) = capacity m"
    using Cons.prems by (cases op; simp add: mru.inv_push mru.inv_pop mru.cap_push mru.cap_pop)+
  with Cons.IH show ?case by simp
qed simp

section \<open>The specification of the queue\<close>

text \<open>
  What a user of the queue sees: a bag of values with the second of their insertion. An
  insertion is refused exactly at a positive capacity; a removal takes any of the
  entries of the latest second.
\<close>

datatype 'a mru_ret = RPush bool | RPop "('a option \<times> time \<times> bool) gores"

inductive bag_step :: "int \<Rightarrow> ('a \<times> int) multiset \<Rightarrow> 'a mru_op \<Rightarrow> 'a mru_ret \<Rightarrow> ('a \<times> int) multiset \<Rightarrow> bool" for cap where
  push: "cap \<le> 0 \<or> int (size B) < cap \<Longrightarrow> bag_step cap B (OpPush t v) (RPush True) (add_mset (v, Unix t) B)"
| refuse: "0 < cap \<Longrightarrow> int (size B) = cap \<Longrightarrow> bag_step cap B (OpPush t v) (RPush False) B"
| pop_none: "bag_step cap {#} OpPop (RPop (Ret (None, unix_time 0, False))) {#}"
| pop_some: "\<forall>e \<in># B. snd e \<le> s \<Longrightarrow> bag_step cap (add_mset (v, s) B) OpPop (RPop (Ret (Some v, unix_time s, True))) B"

inductive bag_runs ::
    "int \<Rightarrow> ('a \<times> int) multiset \<Rightarrow> 'a mru_op list \<Rightarrow> 'a mru_ret list \<Rightarrow> ('a \<times> int) multiset \<Rightarrow> bool" for cap where
  stop: "bag_runs cap B [] [] B"
| more: "bag_step cap B op r B' \<Longrightarrow> bag_runs cap B' ops rs B'' \<Longrightarrow> bag_runs cap B (op # ops) (r # rs) B''"

fun mru_exec :: "'a mru_op \<Rightarrow> 'a MRUQueue \<Rightarrow> 'a mru_ret \<times> 'a MRUQueue" where
  "mru_exec (OpPush t v) m = map_prod RPush id (MRUQueue_Push t v m)"
| "mru_exec OpPop m = map_prod RPop id (MRUQueue_Pop m)"

fun mru_trace :: "'a mru_op list \<Rightarrow> 'a MRUQueue \<Rightarrow> 'a mru_ret list \<times> 'a MRUQueue" where
  "mru_trace [] m = ([], m)"
| "mru_trace (op # ops) m = (let (r, m') = mru_exec op m; (rs, m'') = mru_trace ops m' in (r # rs, m''))"

lemma mru_exec_simulates:
  assumes "mru_inv m" "mru_exec op m = (r, m')"
  shows "bag_step (capacity m) (cached m) op r (cached m') \<and> mru_inv m' \<and> capacity m' = capacity m"
proof (cases op)
  case (OpPush t v)
  from assms(1) show ?thesis
  proof (cases rule: mru.push_cases [where t = t and v = v])
    case full
    with OpPush assms show ?thesis by (auto intro: bag_step.refuse)
  next
    case (room m1)
    have "\<not> (0 < capacity m \<and> int (size (cached m)) = capacity m)"
      using mru.push_full [OF assms(1), of t v] room(1) by auto
    then have "capacity m \<le> 0 \<or> int (size (cached m)) < capacity m" using mru.bounded [OF assms(1)] by linarith
    with OpPush assms(2) room show ?thesis by (auto intro: bag_step.push)
  qed
next
  case OpPop
  from assms(1) show ?thesis
  proof (cases rule: mru.pop_cases)
    case none
    with OpPop assms show ?thesis by (auto intro: bag_step.pop_none)
  next
    case (some v s m1)
    with OpPop assms(2) show ?thesis by (auto intro: bag_step.pop_some)
  qed
qed

lemma mru_trace_simulates:
  "mru_inv m \<Longrightarrow> mru_trace ops m = (rs, m') \<Longrightarrow> bag_runs (capacity m) (cached m) ops rs (cached m')"
proof (induction ops arbitrary: m rs)
  case (Cons op ops)
  obtain r m1 where exec: "mru_exec op m = (r, m1)" by (rule prod.exhaust)
  obtain rs' m2 where rest: "mru_trace ops m1 = (rs', m2)" by (rule prod.exhaust)
  note step = mru_exec_simulates [OF Cons.prems(1) exec]
  have "rs = r # rs'" "m2 = m'" using Cons.prems(2) exec rest by simp_all
  with step Cons.IH [of m1 rs'] rest show ?case by (auto intro: bag_runs.more)
qed (auto intro: bag_runs.stop)

section \<open>Properties\<close>

text \<open>
  C15. The queue implements its specification: every history of pushes and pops on a new
  queue, with everything it returns, is one of the bag's, and the heap array holds the
  bag's contents at the end.
\<close>

theorem mru_refines_bag:
  "bag_runs cap {#} ops (fst (mru_trace ops (NewMRUQueue cap))) (cached (snd (mru_trace ops (NewMRUQueue cap))))"
  using mru_trace_simulates [OF mru_inv_New(1), of ops cap "fst (mru_trace ops (NewMRUQueue cap))"]
  by (simp add: mru_inv_New(2)) (simp add: NewMRUQueue_def)

text \<open>
  However pushes and pops interleave on a queue made with a positive capacity, it
  never holds more than that many items (and \<open>Size\<close> reports at most the capacity).
\<close>

lemma mru_capacity_respected:
  assumes "0 < cap"
  shows "int (MRUQueue_Size (mru_run ops (NewMRUQueue cap))) \<le> cap"
proof -
  have "mru_inv (mru_run ops (NewMRUQueue cap))" "capacity (mru_run ops (NewMRUQueue cap)) = cap"
    using mru_run_keeps [OF mru_inv_New(1), of ops cap] by (simp_all add: NewMRUQueue_def)
  with mru.bounded assms show ?thesis by (force simp: MRUQueue_Size_cached)
qed

text \<open>
  On a queue reached by any history of pushes and pops, \<open>Pop\<close> returns an item of
  the most recent second: no item left behind was pushed in a later second. The
  timestamp it reports is the start of that second, the item is removed, and nothing
  else changes. \<open>Pop\<close> reports failure exactly on an empty queue.
\<close>

lemma mru_pop_most_recent:
  "let m = mru_run ops (NewMRUQueue cap) in
    (MRUQueue_Empty m \<and> MRUQueue_Pop m = (Ret (None, unix_time 0, False), m)) \<or>
    (\<exists>v s m'. MRUQueue_Pop m = (Ret (Some v, unix_time s, True), m') \<and> cached m = add_mset (v, s) (cached m') \<and>
       (\<nexists>e. e \<in># cached m' \<and> s < snd e) \<and> MRUQueue_Size m = Suc (MRUQueue_Size m'))"
proof -
  define m where "m = mru_run ops (NewMRUQueue cap)"
  have "mru_inv m" unfolding m_def using mru_run_keeps [OF mru_inv_New(1)] by blast
  then have "(MRUQueue_Empty m \<and> MRUQueue_Pop m = (Ret (None, unix_time 0, False), m)) \<or>
    (\<exists>v s m'. MRUQueue_Pop m = (Ret (Some v, unix_time s, True), m') \<and> cached m = add_mset (v, s) (cached m') \<and>
       (\<nexists>e. e \<in># cached m' \<and> s < snd e) \<and> MRUQueue_Size m = Suc (MRUQueue_Size m'))"
  proof (cases rule: mru.pop_cases)
    case none
    then show ?thesis by (simp add: MRUQueue_Empty_cached)
  next
    case (some v s m')
    then show ?thesis
      by (intro disjI2 exI [of _ v] exI [of _ s] exI [of _ m'])
        (auto simp: MRUQueue_Size_cached not_less)
  qed
  then show ?thesis by (simp add: m_def)
qed

text \<open>
  Recency is only as fine as the clock the queue uses: timestamps are whole
  seconds, and of two items pushed in the same second into an empty queue it is the
  first one, not the most recently used, that \<open>Pop\<close> returns.
\<close>

lemma mru_same_second_pops_oldest:
  assumes "Unix t1 = Unix t2" "cap \<le> 0 \<or> 2 \<le> cap"
  shows "\<exists>m. MRUQueue_Pop (mru_run [OpPush t1 a, OpPush t2 b] (NewMRUQueue cap))
           = (Ret (Some a, unix_time (Unix t1), True), m) \<and> cached m = {#(b, Unix t2)#}"
  using assms
  by (auto simp: mru_run_def NewMRUQueue_def heap_Init_def Len_def MRUQueue_Push_def heap_Push_def pq_Push_def
      up.simps Less_def MRUQueue_Pop_def heap_Pop_def down_def down_loop.simps Swap_def pq_Pop_def cached_def
      entries_def entry_def Let_def)

end
