(* ===== verification/Log_Level.thy ===== *)
theory Log_Level
  imports Prelude
begin

text \<open>
  \<^verbatim>\<open>src/internal/log\<close>: log levels, their parser, the logger interface and the
  console logger. The method
  \<open>Level.String\<close> is generated by \<open>stringer\<close> at build time and is not part of the
  sources, so it is the parameter \<open>str\<close>; \<open>level_stringer\<close> states what the tool
  generates for \<open>-linecomment\<close>: the text of each constant's line comment.
\<close>

section \<open>strings.ToLower\<close>

text \<open>
  Go strings are UTF-8 bytes. Lower-casing maps the ASCII capitals, and exactly two
  further code points have an ASCII lower case: U+0130 (bytes C4 B0, to \<open>i\<close>) and
  U+212A (bytes E2 84 AA, to \<open>k\<close>). Every other code point has a lower case outside
  ASCII, which no name compared in the sources contains; such bytes are kept.
\<close>

definition lower_char :: "char \<Rightarrow> char" where
  "lower_char c = (if 65 \<le> (of_char c :: nat) \<and> (of_char c :: nat) \<le> 90 then char_of ((of_char c :: nat) + 32) else c)"

fun ToLower :: "string \<Rightarrow> string" where
  "ToLower [] = []"
| "ToLower (c # cs) =
     (if take 2 (c # cs) = [CHR 0xC4, CHR 0xB0] then CHR ''i'' # ToLower (drop 1 cs)
      else if take 3 (c # cs) = [CHR 0xE2, CHR 0x84, CHR 0xAA] then CHR ''k'' # ToLower (drop 2 cs)
      else lower_char c # ToLower cs)"

declare ToLower.simps(2) [simp del]

section \<open>Levels\<close>

datatype Level = Debug | Info | Warn | Error

fun level_num :: "Level \<Rightarrow> int" where
  "level_num Debug = 0"
| "level_num Info = 1"
| "level_num Warn = 2"
| "level_num Error = 3"

instantiation Level :: linorder
begin

definition less_eq_Level :: "Level \<Rightarrow> Level \<Rightarrow> bool" where
  "less_eq_Level l m \<longleftrightarrow> level_num l \<le> level_num m"

definition less_Level :: "Level \<Rightarrow> Level \<Rightarrow> bool" where
  "less_Level l m \<longleftrightarrow> level_num l < level_num m"

instance
proof
  fix l m :: Level
  show "l \<le> m \<Longrightarrow> m \<le> l \<Longrightarrow> l = m"
    by (cases l; cases m) (simp_all add: less_eq_Level_def)
qed (auto simp: less_eq_Level_def less_Level_def)

end

definition Enables :: "Level \<Rightarrow> Level \<Rightarrow> bool" where
  "Enables l other \<longleftrightarrow> l \<le> other"

fun ParseLevel_loop :: "(Level \<Rightarrow> string) \<Rightarrow> string \<Rightarrow> Level list \<Rightarrow> Level \<times> bool" where
  "ParseLevel_loop str s [] = (Error, False)"
| "ParseLevel_loop str s (known # rest) =
     (if ToLower s = ToLower (str known) then (known, True) else ParseLevel_loop str s rest)"

definition ParseLevel :: "(Level \<Rightarrow> string) \<Rightarrow> string \<Rightarrow> Level \<times> bool" where
  "ParseLevel str s = ParseLevel_loop str s [Debug, Info, Warn, Error]"

definition level_stringer :: "(Level \<Rightarrow> string) \<Rightarrow> bool" where
  "level_stringer str \<longleftrightarrow>
     str Debug = ''DEBUG'' \<and> str Info = ''INFO'' \<and> str Warn = ''WARN'' \<and> str Error = ''ERROR''"

section \<open>Console logger\<close>

text \<open>
  \<open>stamp\<close> is the formatted current time and \<open>msg\<close> the message after
  \<open>fmt.Sprintf\<close>; the result is what is printed.
\<close>

record ConsoleLogger =
  cl_level :: Level

definition NewConsoleLogger :: "Level \<Rightarrow> ConsoleLogger" where
  "NewConsoleLogger l = \<lparr>cl_level = l\<rparr>"

definition ConsoleLogger_log ::
    "(Level \<Rightarrow> string) \<Rightarrow> ConsoleLogger \<Rightarrow> Level \<Rightarrow> string \<Rightarrow> string \<Rightarrow> string" where
  "ConsoleLogger_log str l level stamp msg =
     (if Enables (cl_level l) level
      then stamp @ '' '' @ str level @ [CHR 0x09] @ msg @ [CHR 0x0A] else [])"

definition ConsoleLogger_Debug where "ConsoleLogger_Debug str l = ConsoleLogger_log str l Debug"
definition ConsoleLogger_Info where "ConsoleLogger_Info str l = ConsoleLogger_log str l Info"
definition ConsoleLogger_Warn where "ConsoleLogger_Warn str l = ConsoleLogger_log str l Warn"
definition ConsoleLogger_Error where "ConsoleLogger_Error str l = ConsoleLogger_log str l Error"

definition ConsoleLogger_Level :: "ConsoleLogger \<Rightarrow> Level" where
  "ConsoleLogger_Level l = cl_level l"

text \<open>The interface \<open>Logger\<close>: a table of methods, and the console logger's table.\<close>

record Logger =
  lg_Debug :: "string \<Rightarrow> string \<Rightarrow> string"
  lg_Info :: "string \<Rightarrow> string \<Rightarrow> string"
  lg_Warn :: "string \<Rightarrow> string \<Rightarrow> string"
  lg_Error :: "string \<Rightarrow> string \<Rightarrow> string"
  lg_Level :: Level

definition as_Logger :: "(Level \<Rightarrow> string) \<Rightarrow> ConsoleLogger \<Rightarrow> Logger" where
  "as_Logger str l = \<lparr>lg_Debug = ConsoleLogger_Debug str l, lg_Info = ConsoleLogger_Info str l,
     lg_Warn = ConsoleLogger_Warn str l, lg_Error = ConsoleLogger_Error str l, lg_Level = ConsoleLogger_Level l\<rparr>"

text \<open>The method a call site names.\<close>

fun Logger_call :: "Logger \<Rightarrow> Level \<Rightarrow> string \<Rightarrow> string \<Rightarrow> string" where
  "Logger_call lg Debug = lg_Debug lg"
| "Logger_call lg Info = lg_Info lg"
| "Logger_call lg Warn = lg_Warn lg"
| "Logger_call lg Error = lg_Error lg"

section \<open>Properties\<close>

lemma ToLower_level_names:
  "ToLower ''DEBUG'' = ''debug''" "ToLower ''INFO'' = ''info''"
  "ToLower ''WARN'' = ''warn''" "ToLower ''ERROR'' = ''error''"
  by code_simp+

text \<open>
  \<open>ParseLevel\<close> recognises a level exactly when the input equals its name up to
  case, whatever the case of the input; any other input gives \<open>Error\<close> and \<open>false\<close>.
  In particular every level is the parse of its own name.
\<close>

lemma ParseLevel_case_insensitive:
  assumes "level_stringer str"
  shows "(ParseLevel str s = (l, True) \<longleftrightarrow> ToLower s = ToLower (str l)) \<and>
         (ParseLevel str s = (Error, False) \<longleftrightarrow> ToLower s \<notin> {''debug'', ''info'', ''warn'', ''error''}) \<and>
         ParseLevel str (str l) = (l, True)"
  using assms
  by (cases l) (auto simp: ParseLevel_def level_stringer_def ToLower_level_names)

definition log_line :: "(Level \<Rightarrow> string) \<Rightarrow> Level \<Rightarrow> string \<Rightarrow> string \<Rightarrow> string" where
  "log_line str level stamp msg = stamp @ '' '' @ str level @ [CHR 0x09] @ msg @ [CHR 0x0A]"

lemma Logger_call_console:
  "Logger_call (as_Logger str l) level stamp msg = (if cl_level l \<le> level then log_line str level stamp msg else [])"
  by (cases level) (simp_all add: as_Logger_def ConsoleLogger_log_def Enables_def log_line_def ConsoleLogger_Debug_def
      ConsoleLogger_Info_def ConsoleLogger_Warn_def ConsoleLogger_Error_def)

end
