(* ===== verification/Metrics_Hook.thy ===== *)
theory Metrics_Hook
  imports Complex_Main Prelude
begin

text \<open>
  \<^verbatim>\<open>src/internal/metrics/hook.go\<close>: the metrics hooks. A hook object is one of two
  implementations, the no-op or the asynchronous statsd one. Every statsd method body
  runs in a goroutine of its own; \<open>lifecycle_calls\<close>, \<open>io_calls\<close> and \<open>proxy_calls\<close>
  give the calls such a body makes on the statsd client, in order. The client itself
  (package \<open>aperture\<close>) is outside the sources: a hook is identified by the
  configuration its client was created with, and whether \<open>aperture.NewClient\<close>
  succeeds is the parameter \<open>newClient\<close>.
\<close>

section \<open>Addresses\<close>

datatype addr = UDPAddr string nat | TCPAddr string nat | OtherAddr string

fun ipFromAddr :: "addr option \<Rightarrow> string" where
  "ipFromAddr (Some (UDPAddr ip port)) = ip"
| "ipFromAddr (Some (TCPAddr ip port)) = ip"
| "ipFromAddr _ = ''null''"

fun transportFromAddr :: "addr option \<Rightarrow> string" where
  "transportFromAddr (Some (UDPAddr ip port)) = ''udp''"
| "transportFromAddr (Some (TCPAddr ip port)) = ''tcp''"
| "transportFromAddr _ = ''null''"

section \<open>The statsd client\<close>

datatype float64 = NaN | PosInf | NegInf | Fin rat

fun flt :: "float64 \<Rightarrow> float64 \<Rightarrow> bool" where
  "flt NaN y = False"
| "flt x NaN = False"
| "flt PosInf y = False"
| "flt x PosInf = True"
| "flt NegInf y = (y \<noteq> NegInf)"
| "flt x NegInf = False"
| "flt (Fin a) (Fin b) = (a < b)"

type_synonym tags = "string \<rightharpoonup> string"

record statsd_config =
  Address :: string
  Prefix :: string
  SampleRate :: float64
  TransportProbeInterval :: duration
  DefaultTags :: tags

datatype statsd_call =
    Count string int tags
  | Timing string duration tags
  | Gauge string int tags
  | Size string int tags

definition statsdClientFactory ::
    "(statsd_config \<Rightarrow> go_err option) \<Rightarrow> string \<Rightarrow> float64 \<Rightarrow> string \<Rightarrow> go_err + statsd_config" where
  "statsdClientFactory newClient a rate version =
     (let cfg = \<lparr>Address = a, Prefix = ''dotproxy'', SampleRate = rate,
                 TransportProbeInterval = 10 * second, DefaultTags = [''version'' \<mapsto> version]\<rparr>
      in case newClient cfg of Some er \<Rightarrow> Inl er | None \<Rightarrow> Inr cfg)"

section \<open>Hook objects\<close>

datatype lifecycle_hook = NoopLifecycle | StatsdLifecycle statsd_config string
datatype io_hook = NoopIO | StatsdIO statsd_config string
datatype proxy_hook = NoopProxy | StatsdProxy statsd_config

definition NewAsyncStatsdConnectionLifecycleHook ::
    "(statsd_config \<Rightarrow> go_err option) \<Rightarrow> string \<Rightarrow> string \<Rightarrow> float64 \<Rightarrow> string \<Rightarrow> go_err + lifecycle_hook" where
  "NewAsyncStatsdConnectionLifecycleHook newClient source a rate version =
     (case statsdClientFactory newClient a rate version of
        Inl er \<Rightarrow> Inl er | Inr client \<Rightarrow> Inr (StatsdLifecycle client source))"

definition NewAsyncStatsdConnectionIOHook ::
    "(statsd_config \<Rightarrow> go_err option) \<Rightarrow> string \<Rightarrow> string \<Rightarrow> float64 \<Rightarrow> string \<Rightarrow> go_err + io_hook" where
  "NewAsyncStatsdConnectionIOHook newClient source a rate version =
     (case statsdClientFactory newClient a rate version of
        Inl er \<Rightarrow> Inl er | Inr client \<Rightarrow> Inr (StatsdIO client source))"

definition NewAsyncStatsdProxyHook ::
    "(statsd_config \<Rightarrow> go_err option) \<Rightarrow> string \<Rightarrow> float64 \<Rightarrow> string \<Rightarrow> go_err + proxy_hook" where
  "NewAsyncStatsdProxyHook newClient a rate version =
     (case statsdClientFactory newClient a rate version of
        Inl er \<Rightarrow> Inl er | Inr client \<Rightarrow> Inr (StatsdProxy client))"

section \<open>Emissions\<close>

datatype lifecycle_ev = CxOpen duration "addr option" | CxClose "addr option" | CxError

datatype io_ev =
    IORead duration "addr option" | IOReadError "addr option"
  | IOWrite duration "addr option" | IOWriteError "addr option"
  | IORetry "addr option"

datatype proxy_ev =
    RequestSize int "addr option" | ResponseSize int "addr option"
  | RTT duration "addr option" "addr option" | UpstreamLatency duration "addr option" "addr option"
  | Process "addr option" "addr option" | ProxyError

definition addr_tags :: "addr option \<Rightarrow> tags" where
  "addr_tags a = [''addr'' \<mapsto> ipFromAddr a, ''transport'' \<mapsto> transportFromAddr a]"

definition metric :: "string \<Rightarrow> string \<Rightarrow> string \<Rightarrow> string" where
  "metric kind source suffix = kind @ ''.'' @ source @ ''.'' @ suffix"

fun lifecycle_calls :: "lifecycle_hook \<Rightarrow> lifecycle_ev \<Rightarrow> statsd_call list" where
  "lifecycle_calls NoopLifecycle ev = []"
| "lifecycle_calls (StatsdLifecycle c source) (CxOpen latency a) =
     Count (metric ''event'' source ''cx_open'') 1 (addr_tags a) #
     (if latency > 0 then [Timing (metric ''latency'' source ''cx_open'') latency (addr_tags a)] else [])"
| "lifecycle_calls (StatsdLifecycle c source) (CxClose a) =
     [Count (metric ''event'' source ''cx_close'') 1 (addr_tags a)]"
| "lifecycle_calls (StatsdLifecycle c source) CxError =
     [Count (metric ''event'' source ''cx_error'') 1 Map.empty]"

fun io_calls :: "io_hook \<Rightarrow> io_ev \<Rightarrow> statsd_call list" where
  "io_calls NoopIO ev = []"
| "io_calls (StatsdIO c source) (IORead latency a) =
     [Count (metric ''event'' source ''cx_read'') 1 (addr_tags a),
      Timing (metric ''latency'' source ''cx_read'') latency (addr_tags a)]"
| "io_calls (StatsdIO c source) (IOReadError a) =
     [Count (metric ''event'' source ''cx_read_error'') 1 (addr_tags a)]"
| "io_calls (StatsdIO c source) (IOWrite latency a) =
     [Count (metric ''event'' source ''cx_write'') 1 (addr_tags a),
      Timing (metric ''latency'' source ''cx_write'') latency (addr_tags a)]"
| "io_calls (StatsdIO c source) (IOWriteError a) =
     [Count (metric ''event'' source ''cx_write_error'') 1 (addr_tags a)]"
| "io_calls (StatsdIO c source) (IORetry a) =
     [Count (metric ''event'' source ''cx_io_retry'') 1 (addr_tags a)]"

text \<open>
  The body of \<open>EmitProcess\<close> reads the sequence number (\<open>seq\<close>, an atomic load) for the
  gauge and increments it afterwards in a second atomic operation.
\<close>

fun proxy_calls :: "proxy_hook \<Rightarrow> int \<Rightarrow> proxy_ev \<Rightarrow> statsd_call list" where
  "proxy_calls NoopProxy seq ev = []"
| "proxy_calls (StatsdProxy c) seq (RequestSize n client) =
     [Size ''size.proxy.request'' n [''addr'' \<mapsto> ipFromAddr client]]"
| "proxy_calls (StatsdProxy c) seq (ResponseSize n upstream) =
     [Size ''size.proxy.response'' n [''addr'' \<mapsto> ipFromAddr upstream]]"
| "proxy_calls (StatsdProxy c) seq (RTT latency client upstream) =
     [Timing ''latency.proxy.tx_rtt'' latency
        [''client'' \<mapsto> ipFromAddr client, ''upstream'' \<mapsto> ipFromAddr upstream,
         ''transport'' \<mapsto> transportFromAddr client]]"
| "proxy_calls (StatsdProxy c) seq (UpstreamLatency latency client upstream) =
     [Timing ''latency.proxy.tx_upstream'' latency
        [''client'' \<mapsto> ipFromAddr client, ''upstream'' \<mapsto> ipFromAddr upstream]]"
| "proxy_calls (StatsdProxy c) seq (Process client upstream) =
     (let t = [''client'' \<mapsto> ipFromAddr client, ''upstream'' \<mapsto> ipFromAddr upstream]
      in [Count ''event.proxy.process'' 1 t, Gauge ''gauge.proxy.sequence_id'' seq t])"
| "proxy_calls (StatsdProxy c) seq ProxyError = [Count ''event.proxy.error'' 1 Map.empty]"

section \<open>Concurrent sequence numbers\<close>

text \<open>
  The goroutines of \<open>EmitProcess\<close> share the sequence number. A goroutine is first
  pending, then (count, load and gauge done) waits to increment, then is gone. The two
  atomic operations of different goroutines interleave freely.
\<close>

record seq_state =
  sequenceID :: int
  pending :: "(addr option \<times> addr option) list"
  incrementing :: nat
  sent :: "statsd_call list"

definition seq_init :: seq_state where
  "seq_init = \<lparr>sequenceID = 0, pending = [], incrementing = 0, sent = []\<rparr>"

inductive seq_step :: "proxy_hook \<Rightarrow> seq_state \<Rightarrow> seq_state \<Rightarrow> bool" for h where
  spawn: "seq_step h s (s\<lparr>pending := pending s @ [(client, upstream)]\<rparr>)"
| load: "i < length (pending s) \<Longrightarrow> pending s ! i = (client, upstream) \<Longrightarrow>
    seq_step h s (s\<lparr>pending := remove_nth i (pending s), incrementing := Suc (incrementing s),
      sent := sent s @ proxy_calls h (sequenceID s) (Process client upstream)\<rparr>)"
| add: "incrementing s = Suc n \<Longrightarrow>
    seq_step h s (s\<lparr>incrementing := n, sequenceID := wrap64 (sequenceID s + 1)\<rparr>)"

inductive seq_reach :: "proxy_hook \<Rightarrow> seq_state \<Rightarrow> bool" for h where
  start: "seq_reach h seq_init"
| step: "seq_reach h s \<Longrightarrow> seq_step h s t \<Longrightarrow> seq_reach h t"

fun gauges :: "statsd_call list \<Rightarrow> int list" where
  "gauges [] = []"
| "gauges (Gauge _ n _ # cs) = n # gauges cs"
| "gauges (_ # cs) = gauges cs"

lemma gauges_append [simp]: "gauges (xs @ ys) = gauges xs @ gauges ys"
  by (induction xs rule: gauges.induct) auto

lemma gauges_Process [simp]: "gauges (proxy_calls (StatsdProxy c) n (Process a b)) = [n]"
  by (simp add: Let_def)

definition seq_inv :: "seq_state \<Rightarrow> bool" where
  "seq_inv s \<longleftrightarrow> incrementing s \<le> length (gauges (sent s)) \<and>
     sequenceID s = wrap64 (int (length (gauges (sent s)) - incrementing s))"

lemma seq_reach_inv: "seq_reach (StatsdProxy c) s \<Longrightarrow> seq_inv s"
proof (induction rule: seq_reach.induct)
  case start
  show ?case by (simp add: seq_inv_def seq_init_def in64_def)
next
  case (step s t)
  from step(2,3) show ?case
  proof (cases rule: seq_step.cases)
    case (add n)
    with step(3) have "sequenceID t = wrap64 (int (length (gauges (sent s)) - Suc n) + 1)"
      by (simp add: seq_inv_def wrap64_add)
    moreover have "int (length (gauges (sent s)) - Suc n) + 1 = int (length (gauges (sent s)) - n)"
      using add step(3) by (simp add: seq_inv_def of_nat_diff)
    ultimately show ?thesis using add step(3) by (simp add: seq_inv_def)
  qed (auto simp: seq_inv_def simp del: proxy_calls.simps)
qed

text \<open>A run in which two requests finish at the same time.\<close>

definition seq_race :: seq_state where
  "seq_race =
     (let t = [''client'' \<mapsto> ''null'', ''upstream'' \<mapsto> ''null''];
          calls = [Count ''event.proxy.process'' 1 t, Gauge ''gauge.proxy.sequence_id'' 0 t]
      in \<lparr>sequenceID = 2, pending = [], incrementing = 0, sent = calls @ calls\<rparr>)"

lemma seq_race_reachable: "seq_reach (StatsdProxy c) seq_race"
proof -
  let ?h = "StatsdProxy c"
  let ?p = "proxy_calls ?h 0 (Process None None)"
  let ?s = "\<lambda>n ps k sn. \<lparr>sequenceID = n, pending = ps, incrementing = k, sent = sn\<rparr>"
  have "seq_reach ?h (?s 0 [] 0 [])" using seq_reach.start by (simp add: seq_init_def)
  then have "seq_reach ?h (?s 0 [(None, None)] 0 [])"
    by (rule seq_reach.step) (use seq_step.spawn [of ?h "?s 0 [] 0 []" None None] in simp)
  then have "seq_reach ?h (?s 0 [(None, None), (None, None)] 0 [])"
    by (rule seq_reach.step) (use seq_step.spawn [of ?h "?s 0 [(None, None)] 0 []" None None] in simp)
  then have "seq_reach ?h (?s 0 [(None, None)] 1 ?p)"
    by (rule seq_reach.step)
      (use seq_step.load [of 0 "?s 0 [(None, None), (None, None)] 0 []" None None ?h] in \<open>simp add: remove_nth_def\<close>)
  then have "seq_reach ?h (?s 0 [] 2 (?p @ ?p))"
    by (rule seq_reach.step)
      (use seq_step.load [of 0 "?s 0 [(None, None)] 1 ?p" None None ?h]
        in \<open>simp add: remove_nth_def numeral_2_eq_2\<close>)
  then have "seq_reach ?h (?s 1 [] 1 (?p @ ?p))"
    by (rule seq_reach.step) (use seq_step.add [of "?s 0 [] 2 (?p @ ?p)" 1 ?h] in \<open>simp add: in64_def\<close>)
  then have "seq_reach ?h (?s 2 [] 0 (?p @ ?p))"
    by (rule seq_reach.step) (use seq_step.add [of "?s 1 [] 1 (?p @ ?p)" 0 ?h] in \<open>simp add: in64_def\<close>)
  then show ?thesis by (simp add: seq_race_def Let_def)
qed

definition example_statsd :: statsd_config where
  "example_statsd = \<lparr>Address = ''udp://127.0.0.1:8125'', Prefix = ''dotproxy'', SampleRate = Fin 1,
     TransportProbeInterval = 10 * second, DefaultTags = [''version'' \<mapsto> ''head'']\<rparr>"

lemma sequence_numbers_can_repeat:
  "\<exists>s. seq_reach (StatsdProxy c) s \<and> gauges (sent s) = [0, 0] \<and> sequenceID s = 2"
  using seq_race_reachable by (rule exI [where x = seq_race, OF conjI]) (simp add: seq_race_def Let_def)

section \<open>Properties\<close>

text \<open>
  C36. Whenever no increment is outstanding, the sequence number is the number of
  process gauges sent so far (as a 64-bit integer), however the goroutines interleaved.
  The numbers reported are not unique: the load and the increment are separate atomic
  operations, and a run of two requests exists in which both report sequence number 0
  although the counter ends at 2.
\<close>

theorem sequence_counts_processes:
  "(seq_reach (StatsdProxy c) s \<and> incrementing s = 0 \<longrightarrow> sequenceID s = wrap64 (int (length (gauges (sent s))))) \<and>
   (\<exists>s. seq_reach (StatsdProxy c) s \<and> gauges (sent s) = [0, 0] \<and> sequenceID s = 2)"
  using seq_reach_inv [of c s] sequence_numbers_can_repeat by (simp add: seq_inv_def)

theorem sequence_counts_processes_witness:
  "seq_reach (StatsdProxy example_statsd) seq_race \<and> incrementing seq_race = 0 \<and>
   sequenceID seq_race = wrap64 (int (length (gauges (sent seq_race))))"
  using sequence_counts_processes [of example_statsd seq_race] seq_race_reachable [of example_statsd]
  by (simp add: seq_race_def Let_def)

fun counts :: "statsd_call list \<Rightarrow> (string \<times> int) list" where
  "counts [] = []"
| "counts (Count name n _ # cs) = (name, n) # counts cs"
| "counts (_ # cs) = counts cs"

fun timings :: "statsd_call list \<Rightarrow> (string \<times> duration) list" where
  "timings [] = []"
| "timings (Timing name d _ # cs) = (name, d) # timings cs"
| "timings (_ # cs) = timings cs"


end
