(* ===== verification/World.thy ===== *)
theory World
  imports Log_Level Metrics_Hook
begin

text \<open>
  The machine the program runs on: sockets with their deadlines, the clock, the random
  number generator, and the trace of observable effects (bytes moved, sockets closed,
  calls on the metrics hooks and on the logger).

  Everything the outside world decides is an answer of the environment record \<open>env\<close>,
  indexed by the number of interactions so far, so a statement about every \<open>env\<close> is a
  statement about every behaviour of the network, the clock and the generator.
  \<open>env_ok\<close> collects what the documentation of Go's \<open>net\<close>, \<open>io\<close>, \<open>time\<close> and
  \<open>math/rand\<close> packages promises.
\<close>

section \<open>Sockets and traces\<close>

type_synonym cid = nat

record sock =
  s_local :: addr
  s_remote :: addr
  s_open :: bool
  s_rdeadline :: "time option"
  s_wdeadline :: "time option"

datatype event =
    EvLifecycle lifecycle_hook lifecycle_ev
  | EvIO io_hook io_ev
  | EvProxy proxy_hook proxy_ev
  | EvLog Level string
  | EvSentry string
  | EvSentryConf string string
  | EvRead cid bytes
  | EvWrote cid bytes
  | EvRecvFrom cid "addr option" bytes
  | EvSentTo cid addr bytes
  | EvClose cid

record world =
  w_tick :: nat
  w_socks :: "sock list"
  w_trace :: "event list"

section \<open>The environment\<close>

record env =
  e_now :: "nat \<Rightarrow> time"
  e_elapsed :: "nat \<Rightarrow> duration"
  e_intn :: "nat \<Rightarrow> nat \<Rightarrow> nat"
  e_dial :: "nat \<Rightarrow> string \<Rightarrow> go_err + addr \<times> addr"
  e_handshake :: "nat \<Rightarrow> cid \<Rightarrow> string \<Rightarrow> go_err option"
  e_setdeadline :: "nat \<Rightarrow> cid \<Rightarrow> go_err option"
  e_read :: "nat \<Rightarrow> cid \<Rightarrow> nat \<Rightarrow> bytes \<times> go_err option"
  e_write :: "nat \<Rightarrow> cid \<Rightarrow> bytes \<Rightarrow> nat \<times> go_err option"
  e_readfrom :: "nat \<Rightarrow> cid \<Rightarrow> nat \<Rightarrow> bytes \<times> addr option \<times> go_err option"
  e_writeto :: "nat \<Rightarrow> cid \<Rightarrow> bytes \<Rightarrow> addr \<Rightarrow> nat \<times> go_err option"
  e_close :: "nat \<Rightarrow> cid \<Rightarrow> go_err option"
  e_listen :: "nat \<Rightarrow> string \<Rightarrow> go_err + addr"
  e_accept :: "nat \<Rightarrow> cid \<Rightarrow> go_err + addr \<times> addr"

definition env_ok :: "env \<Rightarrow> bool" where
  "env_ok e \<longleftrightarrow>
     mono (e_now e) \<and> (\<forall>i. 0 < e_now e i) \<and>
     (\<forall>i n. 0 < n \<longrightarrow> e_intn e i n < n) \<and>
     (\<forall>i c n. length (fst (e_read e i c n)) \<le> n) \<and>
     (\<forall>i c n. length (fst (e_readfrom e i c n)) \<le> n) \<and>
     (\<forall>i c b. fst (e_write e i c b) \<le> length b \<and>
        (fst (e_write e i c b) < length b \<longrightarrow> snd (e_write e i c b) \<noteq> None)) \<and>
     (\<forall>i c b a. fst (e_writeto e i c b a) \<le> length b)"

text \<open>
  A concrete environment that satisfies the contract: a calm network on which every
  operation succeeds and one millisecond passes between interactions. Witnesses vary
  single answers of it.
\<close>

definition calm_env :: env where
  "calm_env = \<lparr>e_now = (\<lambda>i. int (Suc i) * millisecond), e_elapsed = (\<lambda>i. millisecond), e_intn = (\<lambda>i n. i mod n),
     e_dial = (\<lambda>i a. Inr (TCPAddr ''10.0.0.2'' 40000, TCPAddr ''1.1.1.1'' 853)),
     e_handshake = (\<lambda>i c sn. None), e_setdeadline = (\<lambda>i c. None),
     e_read = (\<lambda>i c n. (replicate n 1, None)), e_write = (\<lambda>i c b. (length b, None)),
     e_readfrom = (\<lambda>i c n. (replicate (min n 12) 7, Some (UDPAddr ''10.0.0.9'' 5353), None)),
     e_writeto = (\<lambda>i c b a. (length b, None)), e_close = (\<lambda>i c. None),
     e_listen = (\<lambda>i a. Inr (TCPAddr ''127.0.0.1'' 53)),
     e_accept = (\<lambda>i c. Inr (TCPAddr ''127.0.0.1'' 53, TCPAddr ''10.0.0.9'' 40001))\<rparr>"

lemma calm_env_ok: "env_ok calm_env"
  by (auto simp: env_ok_def calm_env_def mono_def millisecond_def)

lemma calm_env_sels [simp]:
  "e_now calm_env i = int (Suc i) * millisecond" "e_elapsed calm_env i = millisecond"
  "e_dial calm_env i a = Inr (TCPAddr ''10.0.0.2'' 40000, TCPAddr ''1.1.1.1'' 853)"
  "e_handshake calm_env i c sn = None" "e_setdeadline calm_env i c = None"
  "e_close calm_env i c = None" "e_intn calm_env i n = i mod n"
  "e_read calm_env i c n = (replicate n 1, None)" "e_write calm_env i c b = (length b, None)"
  "e_readfrom calm_env i c n = (replicate (min n 12) 7, Some (UDPAddr ''10.0.0.9'' 5353), None)"
  "e_writeto calm_env i c b to = (length b, None)"
  "e_accept calm_env i c = Inr (TCPAddr ''127.0.0.1'' 53, TCPAddr ''10.0.0.9'' 40001)"
  "e_listen calm_env i l = Inr (TCPAddr ''127.0.0.1'' 53)"
  by (simp_all add: calm_env_def)

section \<open>Primitive operations\<close>

definition stamp :: "('z world_scheme, nat) state" where
  "stamp = State (\<lambda>s. (w_tick s, s\<lparr>w_tick := Suc (w_tick s)\<rparr>))"

definition emit :: "event \<Rightarrow> ('z world_scheme, unit) state" where
  "emit ev = update_st (\<lambda>s. s\<lparr>w_trace := w_trace s @ [ev]\<rparr>)"

definition time_now :: "env \<Rightarrow> ('z world_scheme, time) state" where
  "time_now e = do { i \<leftarrow> stamp; pass (e_now e i) }"

definition elapsed :: "env \<Rightarrow> ('z world_scheme, duration) state" where
  "elapsed e = do { i \<leftarrow> stamp; pass (e_elapsed e i) }"

definition get_sock :: "'z world_scheme \<Rightarrow> cid \<Rightarrow> sock option" where
  "get_sock s c = (if c < length (w_socks s) then Some (w_socks s ! c) else None)"

definition sock_remote :: "cid \<Rightarrow> ('z world_scheme, addr option) state" where
  "sock_remote c = reads (\<lambda>s. map_option s_remote (get_sock s c))"

definition new_sock :: "addr \<Rightarrow> addr \<Rightarrow> ('z world_scheme, cid) state" where
  "new_sock l r = State (\<lambda>s. (length (w_socks s), s\<lparr>w_socks := w_socks s @
     [\<lparr>s_local = l, s_remote = r, s_open = True, s_rdeadline = None, s_wdeadline = None\<rparr>]\<rparr>))"

definition modify_sock :: "cid \<Rightarrow> (sock \<Rightarrow> sock) \<Rightarrow> ('z world_scheme, unit) state" where
  "modify_sock c f = update_st (\<lambda>s. s\<lparr>w_socks := (w_socks s)[c := f (w_socks s ! c)]\<rparr>)"

definition expired :: "time option \<Rightarrow> time \<Rightarrow> bool" where
  "expired d now \<longleftrightarrow> (case d of None \<Rightarrow> False | Some t \<Rightarrow> t \<le> now)"

text \<open>
  \<open>io_ready\<close> is the check every socket operation begins with: a closed socket
  refuses the operation, and so does one whose deadline has passed.
\<close>

definition io_ready :: "sock option \<Rightarrow> (sock \<Rightarrow> time option) \<Rightarrow> time \<Rightarrow> go_err option" where
  "io_ready k d now = (case k of None \<Rightarrow> Some ErrClosed
     | Some sk \<Rightarrow> if \<not> s_open sk then Some ErrClosed else if expired (d sk) now then Some ErrTimeout else None)"

definition sock_dial :: "env \<Rightarrow> string \<Rightarrow> ('z world_scheme, go_err + cid) state" where
  "sock_dial e a = do {
     i \<leftarrow> stamp;
     case e_dial e i a of
       Inl er \<Rightarrow> pass (Inl er)
     | Inr (l, r) \<Rightarrow> do { c \<leftarrow> new_sock l r; pass (Inr c) }
   }"

definition sock_set_deadline ::
    "env \<Rightarrow> cid \<Rightarrow> (sock \<Rightarrow> sock) \<Rightarrow> ('z world_scheme, go_err option) state" where
  "sock_set_deadline e c f = do {
     i \<leftarrow> stamp;
     k \<leftarrow> reads (\<lambda>s. get_sock s c);
     case (case k of None \<Rightarrow> Some ErrClosed
           | Some sk \<Rightarrow> if s_open sk then e_setdeadline e i c else Some ErrClosed) of
       Some er \<Rightarrow> pass (Some er)
     | None \<Rightarrow> do { modify_sock c f; pass None }
   }"

definition SetDeadline :: "env \<Rightarrow> cid \<Rightarrow> time \<Rightarrow> ('z world_scheme, go_err option) state" where
  "SetDeadline e c t = sock_set_deadline e c (\<lambda>k. k\<lparr>s_rdeadline := Some t, s_wdeadline := Some t\<rparr>)"

definition SetReadDeadline :: "env \<Rightarrow> cid \<Rightarrow> time \<Rightarrow> ('z world_scheme, go_err option) state" where
  "SetReadDeadline e c t = sock_set_deadline e c (\<lambda>k. k\<lparr>s_rdeadline := Some t\<rparr>)"

definition SetWriteDeadline :: "env \<Rightarrow> cid \<Rightarrow> time \<Rightarrow> ('z world_scheme, go_err option) state" where
  "SetWriteDeadline e c t = sock_set_deadline e c (\<lambda>k. k\<lparr>s_wdeadline := Some t\<rparr>)"

definition sock_read :: "env \<Rightarrow> cid \<Rightarrow> nat \<Rightarrow> ('z world_scheme, bytes \<times> go_err option) state" where
  "sock_read e c n = do {
     i \<leftarrow> stamp;
     k \<leftarrow> reads (\<lambda>s. get_sock s c);
     case io_ready k s_rdeadline (e_now e i) of
       Some er \<Rightarrow> pass ([], Some er)
     | None \<Rightarrow> do { emit (EvRead c (fst (e_read e i c n))); pass (e_read e i c n) }
   }"

definition sock_write :: "env \<Rightarrow> cid \<Rightarrow> bytes \<Rightarrow> ('z world_scheme, nat \<times> go_err option) state" where
  "sock_write e c b = do {
     i \<leftarrow> stamp;
     k \<leftarrow> reads (\<lambda>s. get_sock s c);
     case io_ready k s_wdeadline (e_now e i) of
       Some er \<Rightarrow> pass (0, Some er)
     | None \<Rightarrow> do { emit (EvWrote c (take (fst (e_write e i c b)) b)); pass (e_write e i c b) }
   }"

definition sock_readfrom ::
    "env \<Rightarrow> cid \<Rightarrow> nat \<Rightarrow> ('z world_scheme, bytes \<times> addr option \<times> go_err option) state" where
  "sock_readfrom e c n = do {
     i \<leftarrow> stamp;
     k \<leftarrow> reads (\<lambda>s. get_sock s c);
     case io_ready k s_rdeadline (e_now e i) of
       Some er \<Rightarrow> pass ([], None, Some er)
     | None \<Rightarrow> do {
         let (b, a, er) = e_readfrom e i c n;
         emit (EvRecvFrom c a b);
         pass (b, a, er) }
   }"

definition sock_writeto ::
    "env \<Rightarrow> cid \<Rightarrow> bytes \<Rightarrow> addr \<Rightarrow> ('z world_scheme, nat \<times> go_err option) state" where
  "sock_writeto e c b a = do {
     i \<leftarrow> stamp;
     k \<leftarrow> reads (\<lambda>s. get_sock s c);
     case io_ready k s_wdeadline (e_now e i) of
       Some er \<Rightarrow> pass (0, Some er)
     | None \<Rightarrow> do { emit (EvSentTo c a (take (fst (e_writeto e i c b a)) b)); pass (e_writeto e i c b a) }
   }"

definition sock_close :: "env \<Rightarrow> cid \<Rightarrow> ('z world_scheme, go_err option) state" where
  "sock_close e c = do {
     i \<leftarrow> stamp;
     k \<leftarrow> reads (\<lambda>s. get_sock s c);
     emit (EvClose c);
     case k of
       None \<Rightarrow> pass (Some ErrClosed)
     | Some sk \<Rightarrow> if \<not> s_open sk then pass (Some ErrClosed)
         else do { modify_sock c (\<lambda>k. k\<lparr>s_open := False\<rparr>); pass (e_close e i c) }
   }"

definition tls_handshake :: "env \<Rightarrow> cid \<Rightarrow> string \<Rightarrow> ('z world_scheme, go_err option) state" where
  "tls_handshake e c serverName = do {
     i \<leftarrow> stamp;
     k \<leftarrow> reads (\<lambda>s. get_sock s c);
     case io_ready k s_rdeadline (e_now e i) of
       Some er \<Rightarrow> pass (Some er)
     | None \<Rightarrow> pass (e_handshake e i c serverName)
   }"

section \<open>Effects of the primitives on the sockets\<close>

lemma run_stamp [simp]: "run_state stamp s = (w_tick s, s\<lparr>w_tick := Suc (w_tick s)\<rparr>)"
  by (simp add: stamp_def)

lemma run_emit [simp]: "run_state (emit ev) s = ((), s\<lparr>w_trace := w_trace s @ [ev]\<rparr>)"
  by (simp add: emit_def)

lemma run_time_now [simp]:
  "run_state (time_now e) s = (e_now e (w_tick s), s\<lparr>w_tick := Suc (w_tick s)\<rparr>)"
  by (simp add: time_now_def)

lemma run_elapsed [simp]:
  "run_state (elapsed e) s = (e_elapsed e (w_tick s), s\<lparr>w_tick := Suc (w_tick s)\<rparr>)"
  by (simp add: elapsed_def)

lemma run_sock_remote [simp]:
  "run_state (sock_remote c) s = (map_option s_remote (get_sock s c), s)"
  by (simp add: sock_remote_def)

lemma run_new_sock [simp]:
  "run_state (new_sock l r) s = (length (w_socks s), s\<lparr>w_socks := w_socks s @
     [\<lparr>s_local = l, s_remote = r, s_open = True, s_rdeadline = None, s_wdeadline = None\<rparr>]\<rparr>)"
  by (simp add: new_sock_def)

lemma run_modify_sock [simp]:
  "run_state (modify_sock c f) s = ((), s\<lparr>w_socks := (w_socks s)[c := f (w_socks s ! c)]\<rparr>)"
  by (simp add: modify_sock_def)

definition open_ids :: "sock list \<Rightarrow> cid set" where
  "open_ids ks = {c. c < length ks \<and> s_open (ks ! c)}"

abbreviation open_set :: "'z world_scheme \<Rightarrow> cid set" where
  "open_set s \<equiv> open_ids (w_socks s)"

lemma finite_open_ids [simp]: "finite (open_ids ks)"
  by (simp add: open_ids_def)

lemma open_ids_new [simp]:
  "open_ids (ks @ [k]) = (if s_open k then insert (length ks) (open_ids ks) else open_ids ks)"
  by (auto simp: open_ids_def nth_append less_Suc_eq split: if_splits)

lemma fresh_not_open [simp]: "length ks \<notin> open_ids ks"
  by (simp add: open_ids_def)

lemma open_ids_close: "open_ids (ks[c := k\<lparr>s_open := False\<rparr>]) = open_ids ks - {c}"
proof (cases "c < length ks")
  case True
  then show ?thesis by (auto simp: open_ids_def nth_list_update split: if_splits)
next
  case False
  then show ?thesis by (auto simp: open_ids_def list_update_beyond)
qed

lemma open_ids_same: "s_open k = s_open (ks ! c) \<Longrightarrow> open_ids (ks[c := k]) = open_ids ks"
  by (cases "c < length ks") (auto simp: open_ids_def list_update_beyond nth_list_update split: if_splits)

lemma not_open_get_sock: "get_sock s c = None \<or> (\<exists>k. get_sock s c = Some k \<and> \<not> s_open k) \<Longrightarrow> c \<notin> open_set s"
  by (auto simp: get_sock_def open_ids_def)

lemma sock_close_effect:
  assumes "run_state (sock_close e c) s = (r, s')"
  shows "\<exists>n ks. s' = s\<lparr>w_tick := n, w_socks := ks, w_trace := w_trace s @ [EvClose c]\<rparr> \<and>
           open_ids ks = open_set s - {c} \<and> length ks = length (w_socks s)"
proof (cases "get_sock s c")
  case None
  with assms not_open_get_sock [of s c] show ?thesis
    by (intro exI [of _ "Suc (w_tick s)"] exI [of _ "w_socks s"])
        (auto simp: sock_close_def get_sock_def split: if_splits)
next
  case (Some k)
  show ?thesis
  proof (cases "s_open k")
    case True
    with Some assms show ?thesis
      by (intro exI [of _ "Suc (w_tick s)"] exI [of _ "(w_socks s)[c := k\<lparr>s_open := False\<rparr>]"])
        (auto simp: sock_close_def get_sock_def open_ids_close split: if_splits)
  next
    case False
    with Some assms not_open_get_sock [of s c] show ?thesis
      by (intro exI [of _ "Suc (w_tick s)"] exI [of _ "w_socks s"])
        (auto simp: sock_close_def get_sock_def split: if_splits)
  qed
qed

text \<open>
  Reads, writes and deadlines never open or close a socket: \<open>quiet s s'\<close> says that
  a program moved the clock, the deadlines and the trace only.
\<close>

definition quiet :: "'z world_scheme \<Rightarrow> 'z world_scheme \<Rightarrow> bool" where
  "quiet s s' \<longleftrightarrow> (\<exists>n ks tr. s' = s\<lparr>w_tick := n, w_socks := ks, w_trace := w_trace s @ tr\<rparr> \<and>
     open_ids ks = open_set s \<and> length ks = length (w_socks s) \<and> (\<forall>c. EvClose c \<notin> set tr))"

definition hushed :: "('z world_scheme, 'a) state \<Rightarrow> bool" where
  "hushed m \<longleftrightarrow> (\<forall>s r s'. run_state m s = (r, s') \<longrightarrow> quiet s s')"

named_theorems hushed_rules

lemma quiet_upd:
  "open_ids ks = open_set s \<Longrightarrow> length ks = length (w_socks s) \<Longrightarrow> (\<And>c. EvClose c \<notin> set tr) \<Longrightarrow>
   quiet s (s\<lparr>w_tick := n, w_socks := ks, w_trace := w_trace s @ tr\<rparr>)"
  unfolding quiet_def by blast

lemma quiet_refl [simp]: "quiet s s"
  using quiet_upd [of "w_socks s" s "[]" "w_tick s"] by simp

lemma quiet_tick [simp]: "quiet s (s\<lparr>w_tick := n\<rparr>)"
  using quiet_upd [of "w_socks s" s "[]" n] by simp

lemma quiet_trace: "(\<And>c. ev \<noteq> EvClose c) \<Longrightarrow> quiet s (s\<lparr>w_trace := w_trace s @ [ev]\<rparr>)"
  using quiet_upd [of "w_socks s" s "[ev]" "w_tick s"] by fastforce

lemma quiet_socks:
  "s_open k = s_open (w_socks s ! c) \<Longrightarrow> quiet s (s\<lparr>w_socks := (w_socks s)[c := k]\<rparr>)"
  using quiet_upd [of "(w_socks s)[c := k]" s "[]" "w_tick s"] by (simp add: open_ids_same)

lemma quiet_trans:
  assumes "quiet s t" "quiet t u"
  shows "quiet s u"
proof -
  obtain n ks tr where t: "t = s\<lparr>w_tick := n, w_socks := ks, w_trace := w_trace s @ tr\<rparr>"
    "open_ids ks = open_set s" "length ks = length (w_socks s)" "\<forall>c. EvClose c \<notin> set tr"
    using assms(1) by (auto simp: quiet_def)
  obtain n' ks' tr' where u: "u = t\<lparr>w_tick := n', w_socks := ks', w_trace := w_trace t @ tr'\<rparr>"
    "open_ids ks' = open_set t" "length ks' = length (w_socks t)" "\<forall>c. EvClose c \<notin> set tr'"
    using assms(2) by (auto simp: quiet_def)
  show ?thesis
    unfolding quiet_def using t u
    by (intro exI [of _ n'] exI [of _ ks'] exI [of _ "tr @ tr'"]) simp
qed

lemma hushedD: "hushed m \<Longrightarrow> run_state m s = (r, s') \<Longrightarrow> quiet s s'"
  by (simp add: hushed_def)

lemma hushed_bind [hushed_rules]:
  "hushed m \<Longrightarrow> (\<And>a. hushed (f a)) \<Longrightarrow> hushed (State_Monad.bind m f)"
  unfolding hushed_def by (auto split: prod.splits) (metis quiet_trans)

lemma hushed_return [hushed_rules]: "hushed (State_Monad.return x)"
  by (simp add: hushed_def)

lemma hushed_reads [hushed_rules]: "hushed (reads f)"
  by (simp add: hushed_def)

lemma hushed_if [hushed_rules]:
  "(b \<Longrightarrow> hushed m) \<Longrightarrow> (\<not> b \<Longrightarrow> hushed n) \<Longrightarrow> hushed (if b then m else n)"
  by simp

lemma hushed_option [hushed_rules]:
  "hushed m \<Longrightarrow> (\<And>y. hushed (f y)) \<Longrightarrow> hushed (case x of None \<Rightarrow> m | Some y \<Rightarrow> f y)"
  by (cases x) auto

lemma hushed_prod [hushed_rules]:
  "(\<And>a b. hushed (f a b)) \<Longrightarrow> hushed (case x of (a, b) \<Rightarrow> f a b)"
  by (cases x) auto

lemma hushed_stamp [hushed_rules]: "hushed stamp"
  by (auto simp: hushed_def)

lemma hushed_emit [hushed_rules]: "(\<And>c. ev \<noteq> EvClose c) \<Longrightarrow> hushed (emit ev)"
  by (auto simp: hushed_def quiet_trace)

lemma hushed_time_now [hushed_rules]: "hushed (time_now e)"
  unfolding time_now_def by (intro hushed_rules)

lemma hushed_elapsed [hushed_rules]: "hushed (elapsed e)"
  unfolding elapsed_def by (intro hushed_rules)

lemma hushed_sock_remote [hushed_rules]: "hushed (sock_remote c)"
  unfolding sock_remote_def by (intro hushed_rules)

lemma hushed_modify_sock:
  "(\<And>k. s_open (f k) = s_open k) \<Longrightarrow> hushed (modify_sock c f)"
  by (auto simp: hushed_def intro: quiet_socks)

lemma hushed_set_deadline:
  "(\<And>k. s_open (f k) = s_open k) \<Longrightarrow> hushed (sock_set_deadline e c f)"
  unfolding sock_set_deadline_def by (intro hushed_rules hushed_modify_sock)

lemma hushed_deadlines [hushed_rules]:
  "hushed (SetDeadline e c t)" "hushed (SetReadDeadline e c t)" "hushed (SetWriteDeadline e c t)"
  unfolding SetDeadline_def SetReadDeadline_def SetWriteDeadline_def
  by (rule hushed_set_deadline; simp)+

lemma hushed_io [hushed_rules]:
  "hushed (sock_read e c n)" "hushed (sock_write e c b)" "hushed (sock_readfrom e c n)"
  "hushed (sock_writeto e c b a)" "hushed (tls_handshake e c sn)"
  unfolding sock_read_def sock_write_def sock_readfrom_def sock_writeto_def tls_handshake_def
  by (intro hushed_rules; simp)+

end
