(* ===== verification/Net_Conn.thy ===== *)
theory Net_Conn
  imports World
begin

text \<open>
  \<^verbatim>\<open>src/internal/network/conn.go\<close>: the two connection wrappers. A \<open>TCPConn\<close> sets a
  fresh deadline before each read and write when it has a timeout. A \<open>UDPConn\<close> wraps
  the listener's shared packet socket for one request and remembers whom the request
  came from. \<open>NetConn\<close> is the interface \<open>net.Conn\<close> with its two implementations.
\<close>

section \<open>TCP connections\<close>

record TCPConn =
  tc_sock :: cid
  tc_readTimeout :: duration
  tc_writeTimeout :: duration

definition NewTCPConn :: "cid \<Rightarrow> duration \<Rightarrow> duration \<Rightarrow> TCPConn" where
  "NewTCPConn c rt wt = \<lparr>tc_sock = c, tc_readTimeout = rt, tc_writeTimeout = wt\<rparr>"

definition TCPConn_Read :: "env \<Rightarrow> TCPConn \<Rightarrow> nat \<Rightarrow> ('z world_scheme, bytes \<times> go_err option) state" where
  "TCPConn_Read e c n = do {
     er \<leftarrow> (if tc_readTimeout c > 0
           then do { now \<leftarrow> time_now e; SetReadDeadline e (tc_sock c) (now + tc_readTimeout c) }
           else pass None);
     case er of
       Some er \<Rightarrow> pass ([], Some er)
     | None \<Rightarrow> sock_read e (tc_sock c) n
   }"

definition TCPConn_Write :: "env \<Rightarrow> TCPConn \<Rightarrow> bytes \<Rightarrow> ('z world_scheme, nat \<times> go_err option) state" where
  "TCPConn_Write e c b = do {
     er \<leftarrow> (if tc_writeTimeout c > 0
           then do { now \<leftarrow> time_now e; SetWriteDeadline e (tc_sock c) (now + tc_writeTimeout c) }
           else pass None);
     case er of
       Some er \<Rightarrow> pass (0, Some er)
     | None \<Rightarrow> sock_write e (tc_sock c) b
   }"

text \<open>The methods promoted from the embedded connection.\<close>

definition TCPConn_RemoteAddr :: "TCPConn \<Rightarrow> ('z world_scheme, addr option) state" where
  "TCPConn_RemoteAddr c = sock_remote (tc_sock c)"

definition TCPConn_Close :: "env \<Rightarrow> TCPConn \<Rightarrow> ('z world_scheme, go_err option) state" where
  "TCPConn_Close e c = sock_close e (tc_sock c)"

section \<open>UDP connections\<close>

record UDPConn =
  uc_conn :: cid
  uc_readTimeout :: duration
  uc_writeTimeout :: duration
  uc_remote :: "addr option"

definition NewUDPConn :: "cid \<Rightarrow> duration \<Rightarrow> duration \<Rightarrow> UDPConn" where
  "NewUDPConn c rt wt = \<lparr>uc_conn = c, uc_readTimeout = rt, uc_writeTimeout = wt, uc_remote = None\<rparr>"

definition UDPConn_Read ::
    "env \<Rightarrow> UDPConn \<Rightarrow> nat \<Rightarrow> ('z world_scheme, (bytes \<times> go_err option) \<times> UDPConn) state" where
  "UDPConn_Read e c n =
     (if uc_remote c \<noteq> None
      then pass (([], Some (Errorf ''conn: already associated with a transaction'' None)), c)
      else do {
        er \<leftarrow> (if uc_readTimeout c > 0
              then do { now \<leftarrow> time_now e; SetReadDeadline e (uc_conn c) (now + uc_readTimeout c) }
              else pass None);
        case er of
          Some er \<Rightarrow> pass (([], Some er), c)
        | None \<Rightarrow> do {
            r \<leftarrow> sock_readfrom e (uc_conn c) n;
            pass (case r of (b, a, er) \<Rightarrow> ((b, er), c\<lparr>uc_remote := a\<rparr>)) }
      })"

definition UDPConn_Write :: "env \<Rightarrow> UDPConn \<Rightarrow> bytes \<Rightarrow> ('z world_scheme, nat \<times> go_err option) state" where
  "UDPConn_Write e c b =
     (case uc_remote c of
        None \<Rightarrow> pass (0, Some (Errorf ''conn: no remote associated with this connection'' None))
      | Some remote \<Rightarrow> do {
          er \<leftarrow> (if uc_writeTimeout c > 0
                then do { now \<leftarrow> time_now e; SetWriteDeadline e (uc_conn c) (now + uc_writeTimeout c) }
                else pass None);
          case er of
            Some er \<Rightarrow> pass (0, Some er)
          | None \<Rightarrow> sock_writeto e (uc_conn c) b remote
        })"

definition UDPConn_Close :: "env \<Rightarrow> UDPConn \<Rightarrow> ('z world_scheme, go_err option) state" where
  "UDPConn_Close e c = sock_close e (uc_conn c)"

definition UDPConn_LocalAddr :: "UDPConn \<Rightarrow> ('z world_scheme, addr option) state" where
  "UDPConn_LocalAddr c = reads (\<lambda>s. map_option s_local (get_sock s (uc_conn c)))"

definition UDPConn_RemoteAddr :: "UDPConn \<Rightarrow> addr option" where
  "UDPConn_RemoteAddr c = uc_remote c"

definition UDPConn_SetDeadline :: "env \<Rightarrow> UDPConn \<Rightarrow> time \<Rightarrow> ('z world_scheme, go_err option) state" where
  "UDPConn_SetDeadline e c t = SetDeadline e (uc_conn c) t"

definition UDPConn_SetReadDeadline :: "env \<Rightarrow> UDPConn \<Rightarrow> time \<Rightarrow> ('z world_scheme, go_err option) state" where
  "UDPConn_SetReadDeadline e c t = SetReadDeadline e (uc_conn c) t"

definition UDPConn_SetWriteDeadline :: "env \<Rightarrow> UDPConn \<Rightarrow> time \<Rightarrow> ('z world_scheme, go_err option) state" where
  "UDPConn_SetWriteDeadline e c t = SetWriteDeadline e (uc_conn c) t"

section \<open>The interface\<close>

datatype NetConn = NetTCP TCPConn | NetUDP UDPConn

fun conn_Read :: "env \<Rightarrow> NetConn \<Rightarrow> nat \<Rightarrow> ('z world_scheme, (bytes \<times> go_err option) \<times> NetConn) state" where
  "conn_Read e (NetTCP c) n = do { r \<leftarrow> TCPConn_Read e c n; pass (r, NetTCP c) }"
| "conn_Read e (NetUDP c) n = do { r \<leftarrow> UDPConn_Read e c n; pass (case r of (x, c') \<Rightarrow> (x, NetUDP c')) }"

fun conn_Write :: "env \<Rightarrow> NetConn \<Rightarrow> bytes \<Rightarrow> ('z world_scheme, nat \<times> go_err option) state" where
  "conn_Write e (NetTCP c) b = TCPConn_Write e c b"
| "conn_Write e (NetUDP c) b = UDPConn_Write e c b"

fun conn_RemoteAddr :: "NetConn \<Rightarrow> ('z world_scheme, addr option) state" where
  "conn_RemoteAddr (NetTCP c) = TCPConn_RemoteAddr c"
| "conn_RemoteAddr (NetUDP c) = pass (UDPConn_RemoteAddr c)"

section \<open>Reads and writes open and close nothing\<close>

lemma hushed_TCPConn [hushed_rules]:
  "hushed (TCPConn_Read e c n)" "hushed (TCPConn_Write e c b)" "hushed (TCPConn_RemoteAddr c)"
  unfolding TCPConn_Read_def TCPConn_Write_def TCPConn_RemoteAddr_def by (intro hushed_rules)+

lemma hushed_UDPConn [hushed_rules]:
  "hushed (UDPConn_Read e u n)" "hushed (UDPConn_Write e u b)"
  unfolding UDPConn_Read_def UDPConn_Write_def by (intro hushed_rules)+

lemma hushed_conn [hushed_rules]:
  "hushed (conn_Read e nc n)" "hushed (conn_Write e nc b)" "hushed (conn_RemoteAddr nc)"
  by (cases nc; simp; intro hushed_rules)+

section \<open>Deadlines of TCP reads\<close>

lemma run_SetReadDeadline:
  assumes "get_sock s c = Some k" "s_open k" "e_setdeadline e (w_tick s) c = None"
  shows "run_state (SetReadDeadline e c t) s =
    (None, s\<lparr>w_tick := Suc (w_tick s), w_socks := (w_socks s)[c := k\<lparr>s_rdeadline := Some t\<rparr>]\<rparr>)"
  using assms by (auto simp: SetReadDeadline_def sock_set_deadline_def get_sock_def split: if_splits)

lemma TCPConn_Read_timeout:
  assumes "get_sock s (tc_sock c) = Some k" "s_open k" "e_setdeadline e (Suc (w_tick s)) (tc_sock c) = None"
    and "0 < tc_readTimeout c" "e_now e (Suc (Suc (w_tick s))) < e_now e (w_tick s) + tc_readTimeout c"
  shows "fst (run_state (TCPConn_Read e c n) s) = e_read e (Suc (Suc (w_tick s))) (tc_sock c) n"
proof -
  let ?s = "s\<lparr>w_tick := Suc (w_tick s)\<rparr>"
  have c: "tc_sock c < length (w_socks s)" "get_sock ?s (tc_sock c) = Some k"
    using assms(1) by (auto simp: get_sock_def split: if_splits)
  show ?thesis
    using assms c run_SetReadDeadline [OF c(2) assms(2), of e "e_now e (w_tick s) + tc_readTimeout c"]
    by (simp add: TCPConn_Read_def sock_read_def get_sock_def io_ready_def expired_def)
qed

lemma TCPConn_Read_no_timeout:
  assumes "get_sock s (tc_sock c) = Some k" "s_open k" "tc_readTimeout c \<le> 0"
    and "s_rdeadline k = Some t" "t \<le> e_now e (w_tick s)"
  shows "fst (run_state (TCPConn_Read e c n) s) = ([], Some ErrTimeout)"
  using assms
  by (auto simp: TCPConn_Read_def sock_read_def get_sock_def io_ready_def expired_def split: if_splits)

section \<open>Properties\<close>

lemma UDPConn_Read_new:
  assumes "run_state (UDPConn_Read e (NewUDPConn c rt wt) n) s = ((x, u), s')"
  shows "uc_conn u = c \<and> uc_writeTimeout u = wt \<and>
    (\<forall>a. uc_remote u = Some a \<longrightarrow> (\<exists>b. last (w_trace s') = EvRecvFrom c (Some a) b \<and> fst x = b))"
  using assms
  by (auto simp: UDPConn_Read_def NewUDPConn_def sock_readfrom_def split: prod.splits option.splits if_splits)

lemma sock_writeto_trace:
  assumes "run_state (sock_writeto e c b a) s = (r, s')"
  shows "\<exists>evs. w_trace s' = w_trace s @ evs \<and> set evs \<subseteq> {EvSentTo c a (take (fst r) b)}"
  using assms by (auto simp: sock_writeto_def split: option.splits)

lemma set_deadline_trace:
  "run_state (sock_set_deadline e c f) s = (r, s') \<Longrightarrow> w_trace s' = w_trace s"
  by (auto simp: sock_set_deadline_def split: option.splits)

lemma UDPConn_Write_trace:
  assumes "uc_remote u = Some a" "run_state (UDPConn_Write e u b) s = (r, s')"
  shows "\<exists>evs. w_trace s' = w_trace s @ evs \<and> set evs \<subseteq> {EvSentTo (uc_conn u) a (take (fst r) b)}"
proof -
  let ?m = "if uc_writeTimeout u > 0
     then do { now \<leftarrow> time_now e; SetWriteDeadline e (uc_conn u) (now + uc_writeTimeout u) } else pass None"
  obtain er s1 where m: "run_state ?m s = (er, s1)" by (rule prod.exhaust)
  then have tr: "w_trace s1 = w_trace s"
    by (auto simp: SetWriteDeadline_def split: if_splits dest: set_deadline_trace)
  have "run_state (case er of Some er \<Rightarrow> pass (0, Some er) | None \<Rightarrow> sock_writeto e (uc_conn u) b a) s1 = (r, s')"
    using assms m by (simp add: UDPConn_Write_def del: run_time_now)
  then show ?thesis
    using sock_writeto_trace [of e "uc_conn u" b a s1 r s'] tr by (auto split: option.splits)
qed


definition udp_listener :: world where
  "udp_listener = \<lparr>w_tick = 0, w_socks =
     [\<lparr>s_local = UDPAddr ''127.0.0.1'' 53, s_remote = UDPAddr ''0.0.0.0'' 0, s_open = True,
       s_rdeadline = None, s_wdeadline = None\<rparr>], w_trace = []\<rparr>"


end
