(* ===== verification/Conn_Pool.thy ===== *)
theory Conn_Pool
  imports MRU_Queue Net_Conn
begin

text \<open>
  \<^verbatim>\<open>src/internal/network/persistent.go\<close>: the pool of persistent connections. Pools are
  objects shared by pointer, so they live in a store (\<open>p_pools\<close>) and a pool identifier
  is an index of it. A pool's dialer is a function value; it is the parameter \<open>dial\<close>
  of the operations that call it. A \<open>go\<close> statement adds a task to \<open>p_tasks\<close>, and
  \<open>run_task\<close> (theory \<open>TLS_Client\<close>) is what the goroutine does when the scheduler runs it.

  Proved here: the pool's operations account for every socket (\<open>accounts\<close>), which is
  the base of the exclusivity and leak results of theory \<open>Pool_System\<close>.
\<close>

section \<open>State\<close>

record PersistentConn =
  pc_conn :: TCPConn
  pc_pool :: nat
  pc_destroyed :: bool

text \<open>The variables the dialer closure of a pool captures.\<close>

record dialer_env =
  d_addr :: string
  d_serverName :: string
  d_connectTimeout :: duration
  d_handshakeTimeout :: duration
  d_readTimeout :: duration
  d_writeTimeout :: duration

record PersistentConnPool =
  dialer :: dialer_env
  cxHook :: lifecycle_hook
  staleTimeout :: duration
  conns :: "TCPConn MRUQueue"

record PersistentConnPoolOpts =
  Capacity :: int
  StaleTimeout :: duration

datatype task =
    TSockClose cid
  | TPopulate nat int
  | TConnClose PersistentConn
  | TConnDestroy PersistentConn
  | TStats nat bool

record pools = world +
  p_pools :: "PersistentConnPool list"
  p_tasks :: "task list"

type_synonym 'z dialer = "nat \<Rightarrow> ('z pools_scheme, TCPConn gores) state"

definition spawn :: "task \<Rightarrow> ('z pools_scheme, unit) state" where
  "spawn t = update_st (\<lambda>s. s\<lparr>p_tasks := p_tasks s @ [t]\<rparr>)"

definition set_conns :: "nat \<Rightarrow> TCPConn MRUQueue \<Rightarrow> 'z pools_scheme \<Rightarrow> 'z pools_scheme" where
  "set_conns p q s = s\<lparr>p_pools := (p_pools s)[p := (p_pools s ! p)\<lparr>conns := q\<rparr>]\<rparr>"

definition conns_Pop :: "nat \<Rightarrow> ('z pools_scheme, (TCPConn option \<times> time \<times> bool) gores) state" where
  "conns_Pop p = State (\<lambda>s. case MRUQueue_Pop (conns (p_pools s ! p)) of (r, q) \<Rightarrow> (r, set_conns p q s))"

definition conns_Push :: "env \<Rightarrow> nat \<Rightarrow> TCPConn \<Rightarrow> ('z pools_scheme, bool) state" where
  "conns_Push e p c = do {
     now \<leftarrow> time_now e;
     State (\<lambda>s. case MRUQueue_Push now c (conns (p_pools s ! p)) of (ok, q) \<Rightarrow> (ok, set_conns p q s))
   }"

section \<open>Operations\<close>

definition NewPersistentConn :: "TCPConn \<Rightarrow> nat \<Rightarrow> PersistentConn" where
  "NewPersistentConn c p = \<lparr>pc_conn = c, pc_pool = p, pc_destroyed = False\<rparr>"

definition NewPersistentConnPool ::
    "dialer_env \<Rightarrow> lifecycle_hook \<Rightarrow> PersistentConnPoolOpts \<Rightarrow> ('z pools_scheme, nat) state" where
  "NewPersistentConnPool d hook opts = do {
     p \<leftarrow> reads (\<lambda>s. length (p_pools s));
     update_st (\<lambda>s. s\<lparr>p_pools := p_pools s @
       [\<lparr>dialer = d, cxHook = hook, staleTimeout = StaleTimeout opts, conns = NewMRUQueue (Capacity opts)\<rparr>]\<rparr>);
     spawn (TPopulate p (Capacity opts));
     pass p
   }"

text \<open>One iteration of the goroutine that fills a new pool; \<open>n\<close> iterations remain.\<close>

definition populate_step :: "'z dialer \<Rightarrow> env \<Rightarrow> nat \<Rightarrow> int \<Rightarrow> ('z pools_scheme, unit) state" where
  "populate_step dial e p n =
     (if n \<le> 0 then pass ()
      else do {
        hook \<leftarrow> reads (\<lambda>s. cxHook (p_pools s ! p));
        r \<leftarrow> dial p;
        _ \<leftarrow> (case r of
            Ret c \<Rightarrow> do {
              latency \<leftarrow> elapsed e;
              a \<leftarrow> TCPConn_RemoteAddr c;
              emit (EvLifecycle hook (CxOpen latency a));
              _ \<leftarrow> conns_Push e p c;
              pass () }
          | Fail er \<Rightarrow> emit (EvLifecycle hook CxError)
          | Panic q \<Rightarrow> pass ()
          | Hang \<Rightarrow> pass ());
        spawn (TPopulate p (n - 1))
      })"

definition pool_dial :: "'z dialer \<Rightarrow> env \<Rightarrow> nat \<Rightarrow> ('z pools_scheme, PersistentConn gores) state" where
  "pool_dial dial e p = do {
     hook \<leftarrow> reads (\<lambda>s. cxHook (p_pools s ! p));
     r \<leftarrow> dial p;
     case r of
       Ret c \<Rightarrow> do {
         latency \<leftarrow> elapsed e;
         a \<leftarrow> TCPConn_RemoteAddr c;
         emit (EvLifecycle hook (CxOpen latency a));
         pass (Ret (NewPersistentConn c p)) }
     | Fail er \<Rightarrow> do { emit (EvLifecycle hook CxError); pass (Fail er) }
     | Panic q \<Rightarrow> pass (Panic q)
     | Hang \<Rightarrow> pass Hang
   }"

definition PersistentConnPool_Conn ::
    "'z dialer \<Rightarrow> env \<Rightarrow> nat \<Rightarrow> ('z pools_scheme, PersistentConn gores) state" where
  "PersistentConnPool_Conn dial e p = do {
     hook \<leftarrow> reads (\<lambda>s. cxHook (p_pools s ! p));
     stale \<leftarrow> reads (\<lambda>s. staleTimeout (p_pools s ! p));
     r \<leftarrow> conns_Pop p;
     case r of
       Ret (value, timestamp, ok) \<Rightarrow>
         if ok then
           (case value of
              None \<Rightarrow> pass (Panic NilDereference)
            | Some c \<Rightarrow> do {
                fresh \<leftarrow> (if stale \<le> 0 then pass True
                         else do { now \<leftarrow> time_now e; pass (since now timestamp < stale) });
                if fresh then pass (Ret (NewPersistentConn c p))
                else do {
                  a \<leftarrow> TCPConn_RemoteAddr c;
                  emit (EvLifecycle hook (CxClose a));
                  spawn (TSockClose (tc_sock c));
                  pool_dial dial e p }
              })
         else pool_dial dial e p
     | Fail er \<Rightarrow> pass (Fail er)
     | Panic q \<Rightarrow> pass (Panic q)
     | Hang \<Rightarrow> pass Hang
   }"

definition PersistentConnPool_Size :: "nat \<Rightarrow> ('z pools_scheme, nat) state" where
  "PersistentConnPool_Size p = reads (\<lambda>s. MRUQueue_Size (conns (p_pools s ! p)))"

definition pool_put :: "env \<Rightarrow> nat \<Rightarrow> TCPConn \<Rightarrow> ('z pools_scheme, go_err option) state" where
  "pool_put e p c = do {
     ok \<leftarrow> conns_Push e p c;
     if \<not> ok then TCPConn_Close e c else pass None
   }"

text \<open>The callback a connection was created with: it captured the pool and the connection.\<close>

definition closer :: "env \<Rightarrow> nat \<Rightarrow> TCPConn \<Rightarrow> bool \<Rightarrow> ('z pools_scheme, go_err option) state" where
  "closer e p c destroyed =
     (if destroyed then do {
        hook \<leftarrow> reads (\<lambda>s. cxHook (p_pools s ! p));
        a \<leftarrow> TCPConn_RemoteAddr c;
        emit (EvLifecycle hook (CxClose a));
        TCPConn_Close e c }
      else pool_put e p c)"

definition PersistentConn_Close :: "env \<Rightarrow> PersistentConn \<Rightarrow> ('z pools_scheme, go_err option) state" where
  "PersistentConn_Close e pc = closer e (pc_pool pc) (pc_conn pc) (pc_destroyed pc)"

definition PersistentConn_Destroy :: "env \<Rightarrow> PersistentConn \<Rightarrow> ('z pools_scheme, go_err option) state" where
  "PersistentConn_Destroy e pc = PersistentConn_Close e (pc\<lparr>pc_destroyed := True\<rparr>)"

section \<open>Accounting for sockets\<close>

text \<open>
  Every open socket is in exactly one place: cached in a pool, captured by a pending
  task, or in \<open>X\<close>, which stands for everything held elsewhere (by a request in
  flight, by a client connection). A single multiset equation says all of this at once:
  nothing is held twice, nothing held is closed, nothing open is lost.
\<close>

definition cached_socks :: "PersistentConnPool list \<Rightarrow> cid multiset" where
  "cached_socks ps = (\<Sum>p \<in># mset ps. image_mset (tc_sock \<circ> fst) (cached (conns p)))"

fun task_socks :: "task \<Rightarrow> cid multiset" where
  "task_socks (TSockClose c) = {#c#}"
| "task_socks (TConnClose pc) = {#tc_sock (pc_conn pc)#}"
| "task_socks (TConnDestroy pc) = {#tc_sock (pc_conn pc)#}"
| "task_socks (TPopulate p n) = {#}"
| "task_socks (TStats i ok) = {#}"

definition owned :: "'z pools_scheme \<Rightarrow> cid multiset" where
  "owned s = cached_socks (p_pools s) + (\<Sum>t \<in># mset (p_tasks s). task_socks t)"

definition accounts :: "cid multiset \<Rightarrow> 'z pools_scheme \<Rightarrow> bool" where
  "accounts X s \<longleftrightarrow> mset_set (open_set s) = owned s + X"

fun task_ok :: "nat \<Rightarrow> task \<Rightarrow> bool" where
  "task_ok n (TSockClose c) = True"
| "task_ok n (TPopulate p k) = (p < n)"
| "task_ok n (TConnClose pc) = (pc_pool pc < n \<and> \<not> pc_destroyed pc)"
| "task_ok n (TConnDestroy pc) = (pc_pool pc < n)"
| "task_ok n (TStats i ok) = True"

definition pools_ok :: "'z pools_scheme \<Rightarrow> bool" where
  "pools_ok s \<longleftrightarrow> (\<forall>p \<in> set (p_pools s). mru_inv (conns p)) \<and>
     (\<forall>t \<in> set (p_tasks s). task_ok (length (p_pools s)) t)"

text \<open>The number of iterations the goroutines filling new pools still have to run.\<close>

fun task_fills :: "task \<Rightarrow> nat" where
  "task_fills (TPopulate p n) = nat n"
| "task_fills _ = 0"

definition fills :: "'z pools_scheme \<Rightarrow> nat" where
  "fills s = (\<Sum>t \<in># mset (p_tasks s). task_fills t)"

definition good :: "int list \<Rightarrow> nat \<Rightarrow> cid multiset \<Rightarrow> 'z pools_scheme \<Rightarrow> bool" where
  "good K b X s \<longleftrightarrow> pools_ok s \<and> accounts X s \<and> map (capacity \<circ> conns) (p_pools s) = K \<and> fills s = b"

lemma good_pool_size:
  assumes "good K b X s" "p < length K" "0 < K ! p"
  shows "int (fst (run_state (PersistentConnPool_Size p) s)) \<le> K ! p"
proof -
  have caps: "map (capacity \<circ> conns) (p_pools s) = K" using assms(1) by (simp add: good_def)
  with assms(2) have p: "p < length (p_pools s)" by auto
  with assms(1) have "mru_inv (conns (p_pools s ! p))" by (simp add: good_def pools_ok_def)
  moreover have "capacity (conns (p_pools s ! p)) = K ! p" using p by (simp add: caps [symmetric])
  ultimately show ?thesis
    using mru.bounded [of "conns (p_pools s ! p)"] assms(3)
    by (simp add: PersistentConnPool_Size_def MRUQueue_Size_cached)
qed

lemma quiet_good: "quiet s s' \<Longrightarrow> good K b X s \<Longrightarrow> good K b X s'"
  by (auto simp: quiet_def good_def pools_ok_def accounts_def owned_def fills_def)

lemma hushed_good: "hushed m \<Longrightarrow> yields (good K b X) m (\<lambda>_. good K b X)"
  by (auto simp: yields_def intro: quiet_good hushedD)

lemma run_spawn [simp]: "run_state (spawn t) s = ((), s\<lparr>p_tasks := p_tasks s @ [t]\<rparr>)"
  by (simp add: spawn_def)

lemma spawn_good:
  "task_ok (length K) t \<Longrightarrow> yields (good K b (task_socks t + X)) (spawn t) (\<lambda>_. good K (b + task_fills t) X)"
  by (auto simp: yields_def good_def pools_ok_def accounts_def owned_def fills_def ac_simps)

lemma mset_set_minus: "finite A \<Longrightarrow> mset_set A = add_mset c B \<Longrightarrow> mset_set (A - {c}) = B"
  by (metis add_mset_remove_trivial elem_mset_set mset_set.remove union_single_eq_member)

lemma close_good: "yields (good K b (add_mset c X)) (sock_close e c) (\<lambda>_. good K b X)"
proof (rule yieldsI)
  fix s :: "'a pools_scheme" and r s'
  assume good: "good K b (add_mset c X) s" and run: "run_state (sock_close e c) s = (r, s')"
  obtain n ks where s': "s' = s\<lparr>w_tick := n, w_socks := ks, w_trace := w_trace s @ [EvClose c]\<rparr>"
      "open_ids ks = open_set s - {c}"
    using sock_close_effect [OF run] by blast
  have "mset_set (open_set s) = add_mset c (owned s + X)"
    using good by (simp add: good_def accounts_def)
  then have "mset_set (open_set s - {c}) = owned s + X"
    by (rule mset_set_minus [rotated]) simp
  with s' good show "good K b X s'"
    by (auto simp: good_def accounts_def owned_def pools_ok_def fills_def)
qed

lemma mset_exchange:
  fixes C :: "'a multiset"
  assumes "C' + a = C + b" "a + X = b + Y"
  shows "C' + Y = C + X"
proof -
  have "(C' + Y) + b = C' + (a + X)" unfolding assms(2) by (simp only: ac_simps)
  also have "\<dots> = (C' + a) + X" by (simp only: add.assoc)
  also have "\<dots> = (C + X) + b" unfolding assms(1) by (simp only: ac_simps)
  finally show ?thesis by (rule add_right_imp_eq)
qed

lemma cached_socks_update:
  assumes "p < length ps"
  shows "cached_socks (ps[p := x]) + image_mset (tc_sock \<circ> fst) (cached (conns (ps ! p))) =
         cached_socks ps + image_mset (tc_sock \<circ> fst) (cached (conns x))"
proof -
  obtain R where R: "mset ps = add_mset (ps ! p) R"
    using assms by (metis insert_DiffM nth_mem_mset)
  then have "mset (ps[p := x]) = add_mset x R" using assms by (simp add: mset_update)
  with R show ?thesis by (simp add: cached_socks_def)
qed

lemma pools_ok_set_conns:
  "pools_ok s \<Longrightarrow> mru_inv q \<Longrightarrow> pools_ok (set_conns p q s)"
  by (auto simp: pools_ok_def set_conns_def dest!: set_update_subset_insert [THEN subsetD])

lemma set_conns_accounts:
  assumes "p < length (p_pools s)" "accounts X s"
    and "image_mset (tc_sock \<circ> fst) (cached (conns (p_pools s ! p))) + X =
         image_mset (tc_sock \<circ> fst) (cached q) + Y"
  shows "accounts Y (set_conns p q s)"
proof -
  let ?C = "cached_socks (p_pools s)" and ?C' = "cached_socks (p_pools (set_conns p q s))"
  let ?a = "image_mset (tc_sock \<circ> fst) (cached (conns (p_pools s ! p)))"
  let ?b = "image_mset (tc_sock \<circ> fst) (cached q)"
  have "?C' + ?a = ?C + ?b"
    using cached_socks_update [OF assms(1), of "(p_pools s ! p)\<lparr>conns := q\<rparr>"]
    by (simp add: set_conns_def)
  then have "?C' + Y = ?C + X" using assms(3) by (rule mset_exchange)
  with assms(2) show ?thesis
    by (simp add: accounts_def owned_def set_conns_def ac_simps)
qed

lemma set_conns_good:
  assumes "good K b X s" "p < length K" "mru_inv q" "capacity q = capacity (conns (p_pools s ! p))"
    and "image_mset (tc_sock \<circ> fst) (cached (conns (p_pools s ! p))) + X =
         image_mset (tc_sock \<circ> fst) (cached q) + Y"
  shows "good K b Y (set_conns p q s)"
proof -
  have p: "p < length (p_pools s)" using assms(1,2) by (auto simp: good_def)
  then have "map (capacity \<circ> conns) (p_pools (set_conns p q s)) = map (capacity \<circ> conns) (p_pools s)"
    using assms(4) by (auto simp: set_conns_def map_update intro: list_update_same_conv [THEN iffD2])
  moreover have "fills (set_conns p q s) = fills s" by (simp add: fills_def set_conns_def)
  ultimately show ?thesis
    using assms(1,3) set_conns_accounts [OF p _ assms(5)] by (auto simp: good_def pools_ok_set_conns)
qed

lemma conns_Pop_good:
  assumes "p < length K"
  shows "yields (good K b X) (conns_Pop p) (\<lambda>r s.
     (\<exists>c t. r = Ret (Some c, t, True) \<and> good K b (add_mset (tc_sock c) X) s) \<or>
     (r = Ret (None, unix_time 0, False) \<and> good K b X s))"
proof (rule yieldsI)
  fix s :: "'a pools_scheme" and r s'
  assume good: "good K b X s" and run: "run_state (conns_Pop p) s = (r, s')"
  let ?q = "conns (p_pools s ! p)"
  have p: "p < length (p_pools s)" using assms good by (auto simp: good_def)
  then have inv: "mru_inv ?q" using good by (simp add: good_def pools_ok_def)
  then show "(\<exists>c t. r = Ret (Some c, t, True) \<and> good K b (add_mset (tc_sock c) X) s') \<or>
     (r = Ret (None, unix_time 0, False) \<and> good K b X s')"
  proof (cases rule: mru.pop_cases)
    case none
    with run p have "r = Ret (None, unix_time 0, False)" "s' = set_conns p ?q s"
      by (auto simp: conns_Pop_def)
    moreover have "set_conns p ?q s = s" using p by (simp add: set_conns_def)
    ultimately show ?thesis using good by simp
  next
    case (some c t q')
    with run have "r = Ret (Some c, unix_time t, True)" "s' = set_conns p q' s"
      by (auto simp: conns_Pop_def)
    moreover have "good K b (add_mset (tc_sock c) X) (set_conns p q' s)"
      using set_conns_good [OF good assms some(4,3), of "add_mset (tc_sock c) X"] some by simp
    ultimately show ?thesis by blast
  qed
qed

lemma conns_Push_good:
  assumes "p < length K"
  shows "yields (good K b (add_mset (tc_sock c) X)) (conns_Push e p c)
    (\<lambda>ok s. if ok then good K b X s else good K b (add_mset (tc_sock c) X) s)"
  unfolding conns_Push_def
proof (rule yields_bind [OF hushed_good [OF hushed_time_now]], rule yieldsI)
  fix s :: "'a pools_scheme" and now ok s'
  assume good: "good K b (add_mset (tc_sock c) X) s"
    and run: "run_state (State (\<lambda>s. case MRUQueue_Push now c (conns (p_pools s ! p)) of
      (ok, q) \<Rightarrow> (ok, set_conns p q s))) s = (ok, s')"
  let ?q = "conns (p_pools s ! p)"
  have p: "p < length (p_pools s)" using assms good by (auto simp: good_def)
  then have "mru_inv ?q" using good by (simp add: good_def pools_ok_def)
  then show "if ok then good K b X s' else good K b (add_mset (tc_sock c) X) s'"
  proof (cases rule: mru.push_cases [of ?q now c])
    case full
    moreover have "set_conns p ?q s = s" using p by (simp add: set_conns_def)
    ultimately show ?thesis using good run by auto
  next
    case (room q')
    then have "good K b X (set_conns p q' s)"
      using set_conns_good [OF good assms room(4,3), of X] by simp
    with room run show ?thesis by auto
  qed
qed

lemma pool_put_good:
  "p < length K \<Longrightarrow> yields (good K b (add_mset (tc_sock c) X)) (pool_put e p c) (\<lambda>_. good K b X)"
  unfolding pool_put_def TCPConn_Close_def
  by (rule yields_bind [OF conns_Push_good])
    (auto intro: close_good simp: hushed_good hushed_return split: if_splits)

lemma closer_good:
  "p < length K \<Longrightarrow> yields (good K b (add_mset (tc_sock c) X)) (closer e p c destroyed) (\<lambda>_. good K b X)"
  unfolding closer_def TCPConn_Close_def
  by (auto intro!: pool_put_good yields_bind [OF hushed_good] close_good hushed_rules)

lemma PersistentConn_Close_good:
  "pc_pool pc < length K \<Longrightarrow>
   yields (good K b (add_mset (tc_sock (pc_conn pc)) X)) (PersistentConn_Close e pc) (\<lambda>_. good K b X)"
  unfolding PersistentConn_Close_def by (rule closer_good)

lemma PersistentConn_Destroy_good:
  "pc_pool pc < length K \<Longrightarrow>
   yields (good K b (add_mset (tc_sock (pc_conn pc)) X)) (PersistentConn_Destroy e pc) (\<lambda>_. good K b X)"
  unfolding PersistentConn_Destroy_def
  using PersistentConn_Close_good [of "pc\<lparr>pc_destroyed := True\<rparr>"] by simp

section \<open>Nothing beyond the pools changes\<close>

text \<open>
  The record of pools is extended by the clients later on. \<open>contained m\<close> says that the
  program \<open>m\<close> leaves such an extension alone.
\<close>

named_theorems contained_rules

definition contained :: "('z pools_scheme, 'a) state \<Rightarrow> bool" where
  "contained m \<longleftrightarrow> (\<forall>s r s'. run_state m s = (r, s') \<longrightarrow> pools.more s' = pools.more s)"

lemma containedD: "contained m \<Longrightarrow> run_state m s = (r, s') \<Longrightarrow> pools.more s' = pools.more s"
  by (simp add: contained_def)

lemma contained_bind [contained_rules]:
  "contained m \<Longrightarrow> (\<And>a. contained (f a)) \<Longrightarrow> contained (State_Monad.bind m f)"
  unfolding contained_def by (auto split: prod.splits)

lemma contained_basic [contained_rules]:
  "contained (State_Monad.return x)" "contained (reads f)" "contained (spawn t)"
  by (simp_all add: contained_def)

lemma contained_case [contained_rules]:
  "(b \<Longrightarrow> contained m) \<Longrightarrow> (\<not> b \<Longrightarrow> contained n) \<Longrightarrow> contained (if b then m else n)"
  "contained n \<Longrightarrow> (\<And>y. contained (f y)) \<Longrightarrow> contained (case x of None \<Rightarrow> n | Some y \<Rightarrow> f y)"
  "(\<And>a b. contained (g a b)) \<Longrightarrow> contained (case y of (a, b) \<Rightarrow> g a b)"
  "(\<And>a. contained (h a)) \<Longrightarrow> (\<And>b. contained (h' b)) \<Longrightarrow> contained (case z of Inl a \<Rightarrow> h a | Inr b \<Rightarrow> h' b)"
  "(\<And>v. contained (k v)) \<Longrightarrow> (\<And>er. contained (k' er)) \<Longrightarrow> (\<And>q. contained (k'' q)) \<Longrightarrow> contained l \<Longrightarrow>
   contained (case w of Ret v \<Rightarrow> k v | Fail er \<Rightarrow> k' er | Panic q \<Rightarrow> k'' q | Hang \<Rightarrow> l)"
  by (simp_all split: option.split prod.split sum.split gores.split)

lemma quiet_more: "quiet s s' \<Longrightarrow> pools.more s' = pools.more s"
  by (auto simp: quiet_def)

lemma contained_hushed: "hushed m \<Longrightarrow> contained m"
  by (auto simp: contained_def intro: quiet_more hushedD)

lemmas contained_quiet [contained_rules] =
  hushed_stamp [THEN contained_hushed] hushed_time_now [THEN contained_hushed]
  hushed_elapsed [THEN contained_hushed] hushed_emit [THEN contained_hushed]
  hushed_deadlines [THEN contained_hushed] hushed_io [THEN contained_hushed]
  hushed_TCPConn [THEN contained_hushed]

lemma contained_ops [contained_rules]:
  "contained (sock_close e c)" "contained (new_sock l r)" "contained (conns_Pop p)" "contained (conns_Push e p tc)"
  by (auto simp: contained_def conns_Pop_def conns_Push_def set_conns_def dest: sock_close_effect split: prod.splits)

lemma contained_persistent [contained_rules]:
  "contained (PersistentConn_Close e pc)" "contained (PersistentConn_Destroy e pc)"
  unfolding PersistentConn_Close_def PersistentConn_Destroy_def closer_def pool_put_def TCPConn_Close_def
  by (intro contained_rules; simp)+

section \<open>The contract of a dialer\<close>

text \<open>
  A pool relies on its dialer to hand over a socket that nobody else holds, or to fail
  without losing one.
\<close>

definition dial_post :: "int list \<Rightarrow> nat \<Rightarrow> cid multiset \<Rightarrow> TCPConn gores \<Rightarrow> 'z pools_scheme \<Rightarrow> bool" where
  "dial_post K b X r s \<longleftrightarrow>
     (\<exists>c. r = Ret c \<and> good K b (add_mset (tc_sock c) X) s) \<or> (\<exists>er. r = Fail er \<and> good K b X s)"

definition conn_post :: "int list \<Rightarrow> nat \<Rightarrow> cid multiset \<Rightarrow> PersistentConn gores \<Rightarrow> 'z pools_scheme \<Rightarrow> bool" where
  "conn_post K b X r s \<longleftrightarrow>
     (\<exists>pc. r = Ret pc \<and> pc_pool pc < length K \<and> \<not> pc_destroyed pc \<and>
        good K b (add_mset (tc_sock (pc_conn pc)) X) s) \<or>
     (\<exists>er. r = Fail er \<and> good K b X s)"

lemma hushed_lifecycle [hushed_rules]: "hushed (emit (EvLifecycle hook ev))"
  by (rule hushed_emit) simp

locale pool_dialer =
  fixes dial :: "'z dialer"
  assumes dial_good: "p < length K \<Longrightarrow> yields (good K b X) (dial p) (dial_post K b X)"
    and dial_contained: "contained (dial p)"
    and dial_fresh: "run_state (dial p) s = (Ret c, s') \<Longrightarrow> length (w_socks s) \<le> tc_sock c"
begin

lemma pool_dial_fresh:
  assumes "run_state (pool_dial dial e p) s = (Ret pc, s')"
  shows "length (w_socks s) \<le> tc_sock (pc_conn pc)"
  using assms
  by (auto simp: pool_dial_def NewPersistentConn_def TCPConn_RemoteAddr_def
      split: prod.splits gores.splits dest: dial_fresh)

lemma Conn_origin:
  assumes inv: "mru_inv (conns (p_pools s ! p))"
    and run: "run_state (PersistentConnPool_Conn dial e p) s = (Ret pc, s')"
  shows "length (w_socks s) \<le> tc_sock (pc_conn pc) \<or>
    (\<exists>sec. (pc_conn pc, sec) \<in># cached (conns (p_pools s ! p)) \<and>
       (\<forall>e \<in># cached (conns (p_pools s ! p)). snd e \<le> sec) \<and>
       (staleTimeout (p_pools s ! p) \<le> 0 \<or>
        since (e_now e (w_tick s)) (unix_time sec) < staleTimeout (p_pools s ! p)))"
proof -
  have socks: "w_socks (set_conns p q s) = w_socks s" "w_tick (set_conns p q s) = w_tick s" for q
    by (simp_all add: set_conns_def)
  from inv show ?thesis
  proof (cases rule: mru.pop_cases)
    case none
    with run pool_dial_fresh show ?thesis
      by (fastforce simp: PersistentConnPool_Conn_def conns_Pop_def socks)
  next
    case (some c sec q')
    let ?st = "staleTimeout (p_pools s ! p)"
    show ?thesis
    proof (cases "?st \<le> 0 \<or> since (e_now e (w_tick s)) (unix_time sec) < ?st")
      case True
      with run some have "pc_conn pc = c"
        by (auto simp: PersistentConnPool_Conn_def conns_Pop_def NewPersistentConn_def socks split: if_splits)
      with some True show ?thesis by auto
    next
      case False
      with run some show ?thesis
        using pool_dial_fresh
        by (fastforce simp: PersistentConnPool_Conn_def conns_Pop_def socks TCPConn_RemoteAddr_def split: if_splits)
    qed
  qed
qed

lemma opened_good:
  assumes "p < length K"
  shows "yields (good K b (add_mset (tc_sock c) X))
    (do { latency \<leftarrow> elapsed e; a \<leftarrow> TCPConn_RemoteAddr c;
          emit (EvLifecycle hook (CxOpen latency a)); pass (Ret (NewPersistentConn c p)) }) (conn_post K b X)"
  using assms
  by (intro yields_bind [OF hushed_good] yields_return hushed_rules) (simp add: conn_post_def NewPersistentConn_def)

lemma failed_good:
  "yields (good K b X) (do { emit (EvLifecycle hook CxError); pass (Fail er) }) (conn_post K b X)"
  by (intro yields_bind [OF hushed_good] yields_return hushed_rules) (simp add: conn_post_def)

lemma pool_dial_good:
  assumes "p < length K"
  shows "yields (good K b X) (pool_dial dial e p) (conn_post K b X)"
  unfolding pool_dial_def
proof (rule yields_bind [OF hushed_good [OF hushed_reads] yields_bind [OF dial_good [OF assms]]],
    rule yields_from, goal_cases)
  case (1 hook r s)
  from 1 show ?case
    unfolding dial_post_def
  proof (elim disjE exE conjE)
    fix c assume "r = Ret c" "good K b (add_mset (tc_sock c) X) s"
    with opened_good [OF assms] show ?case by (intro exI [of _ "good K b (add_mset (tc_sock c) X)"]) simp
  next
    fix er assume "r = Fail er" "good K b X s"
    with failed_good show ?case by (intro exI [of _ "good K b X"]) simp
  qed
qed

lemma stale_good:
  assumes "p < length K"
  shows "yields (good K b (add_mset (tc_sock c) X))
    (do { a \<leftarrow> TCPConn_RemoteAddr c; emit (EvLifecycle hook (CxClose a));
          spawn (TSockClose (tc_sock c)); pool_dial dial e p }) (conn_post K b X)"
  by (intro yields_bind [OF hushed_good yields_bind [OF hushed_good
        yields_bind [OF spawn_good [of K "TSockClose (tc_sock c)" b X, simplified]]]] pool_dial_good hushed_rules assms)

lemma hit_good:
  assumes "p < length K" "hushed m"
  shows "yields (good K b (add_mset (tc_sock c) X))
    (do { fresh \<leftarrow> m;
          if fresh then pass (Ret (NewPersistentConn c p))
          else do { a \<leftarrow> TCPConn_RemoteAddr c; emit (EvLifecycle hook (CxClose a));
                    spawn (TSockClose (tc_sock c)); pool_dial dial e p } }) (conn_post K b X)"
proof (rule yields_bind [OF hushed_good [OF assms(2)]])
  fix fresh
  show "yields (good K b (add_mset (tc_sock c) X))
    (if fresh then pass (Ret (NewPersistentConn c p))
     else do { a \<leftarrow> TCPConn_RemoteAddr c; emit (EvLifecycle hook (CxClose a));
               spawn (TSockClose (tc_sock c)); pool_dial dial e p }) (conn_post K b X)"
    using stale_good [OF assms(1)] assms(1)
    by (auto intro!: yields_return simp: conn_post_def NewPersistentConn_def)
qed

lemma Conn_good:
  assumes "p < length K"
  shows "yields (good K b X) (PersistentConnPool_Conn dial e p) (conn_post K b X)"
  unfolding PersistentConnPool_Conn_def
proof (rule yields_bind [OF hushed_good [OF hushed_reads] yields_bind [OF hushed_good [OF hushed_reads]
      yields_bind [OF conns_Pop_good [OF assms]]]], rule yields_from, goal_cases)
  case (1 hook stale r s)
  have "hushed (if stale \<le> 0 then pass True else do { now \<leftarrow> time_now e; pass (since now t < stale) })" for t
    by (intro hushed_rules)
  note hit = hit_good [OF assms this]
  from 1 show ?case
  proof (elim disjE exE conjE)
    fix c t assume "r = Ret (Some c, t, True)" "good K b (add_mset (tc_sock c) X) s"
    with hit show ?case by auto
  next
    assume "r = Ret (None, unix_time 0, False)" "good K b X s"
    with pool_dial_good [OF assms] show ?case by auto
  qed
qed

text \<open>
  An iteration of the filling goroutine may lose the socket it dialed: \<open>L\<close> is what
  nobody holds any more when the queue refused it.
\<close>

lemma populate_good:
  assumes "p < length K"
  shows "yields (good K b X) (populate_step dial e p n)
    (\<lambda>_ s. \<exists>L b'. size L + b' \<le> b + nat n \<and> good K b' (L + X) s)"
proof (cases "n \<le> 0")
  case True
  then show ?thesis
    by (auto simp: populate_step_def yields_def intro!: exI [of _ "{#}"])
next
  case False
  let ?I = "\<lambda>s :: 'z pools_scheme. \<exists>L. size L \<le> 1 \<and> good K b (L + X) s"
  have spawn: "yields ?I (spawn (TPopulate p (n - 1)))
      (\<lambda>_ s. \<exists>L b'. size L + b' \<le> b + nat n \<and> good K b' (L + X) s)"
  proof (rule yieldsI, elim exE conjE)
    fix s s' :: "'z pools_scheme" and r and L :: "cid multiset"
    assume L: "size L \<le> 1" and "good K b (L + X) s" "run_state (spawn (TPopulate p (n - 1))) s = (r, s')"
    then have "good K (b + nat (n - 1)) (L + X) s'"
      using yieldsD [OF spawn_good [of K "TPopulate p (n - 1)" b "L + X"]] assms by simp
    moreover have "size L + (b + nat (n - 1)) \<le> b + nat n" using L False by linarith
    ultimately show "\<exists>L b'. size L + b' \<le> b + nat n \<and> good K b' (L + X) s'" by blast
  qed
  have push: "yields (good K b (add_mset (tc_sock c) X)) (do { _ \<leftarrow> conns_Push e p c; pass () }) (\<lambda>_. ?I)" for c
    by (rule yields_bind [OF conns_Push_good [OF assms]], rule yields_return)
      (auto split: if_splits intro: exI [of _ "{#}"] exI [of _ "{#tc_sock c#}"])
  have opened: "yields (good K b (add_mset (tc_sock c) X))
      (do { latency \<leftarrow> elapsed e; a \<leftarrow> TCPConn_RemoteAddr c; emit (EvLifecycle hook (CxOpen latency a));
            _ \<leftarrow> conns_Push e p c; pass () }) (\<lambda>_. ?I)" for c hook
    by (intro yields_bind [OF hushed_good yields_bind [OF hushed_good yields_bind [OF hushed_good push]]] hushed_rules)
  have failed: "yields (good K b X) (emit (EvLifecycle hook CxError)) (\<lambda>_. ?I)" for hook
    by (rule yields_weaken [OF hushed_good [OF hushed_lifecycle]]) (auto intro: exI [of _ "{#}"])
  show ?thesis
    unfolding populate_step_def if_not_P [OF False]
  proof (rule yields_bind [OF hushed_good [OF hushed_reads] yields_bind [OF dial_good [OF assms]
        yields_bind [OF yields_from spawn]]], goal_cases)
    case (1 hook r s)
    then show ?case unfolding dial_post_def using opened failed by fastforce
  qed
qed

lemma contained_pool:
  "contained (PersistentConnPool_Conn dial e p)" "contained (populate_step dial e p n)"
  unfolding PersistentConnPool_Conn_def pool_dial_def populate_step_def
  by (intro contained_rules dial_contained; simp)+

end

section \<open>Properties\<close>

text \<open>
  C29. \<open>Destroy\<close> ends a connection for good: whatever the state, it reports the closure
  to the hook of the connection's pool and then closes the socket; no pool and no
  pending goroutine changes, so the connection is never offered again.
\<close>

theorem Destroy_closes_for_good:
  "\<exists>r s'. run_state (PersistentConn_Destroy e pc) s = (r, s') \<and>
     p_pools s' = p_pools s \<and> p_tasks s' = p_tasks s \<and> open_set s' = open_set s - {tc_sock (pc_conn pc)} \<and>
     w_trace s' = w_trace s @
       [EvLifecycle (cxHook (p_pools s ! pc_pool pc))
          (CxClose (map_option s_remote (get_sock s (tc_sock (pc_conn pc))))),
        EvClose (tc_sock (pc_conn pc))]"
proof -
  let ?c = "tc_sock (pc_conn pc)"
  let ?s = "s\<lparr>w_trace := w_trace s @ [EvLifecycle (cxHook (p_pools s ! pc_pool pc))
      (CxClose (map_option s_remote (get_sock s ?c)))]\<rparr>"
  obtain r s' where run: "run_state (sock_close e ?c) ?s = (r, s')" by (rule prod.exhaust)
  have "run_state (PersistentConn_Destroy e pc) s = (r, s')"
    using run by (simp add: PersistentConn_Destroy_def PersistentConn_Close_def closer_def TCPConn_RemoteAddr_def
        TCPConn_Close_def)
  with sock_close_effect [OF run] show ?thesis by fastforce
qed

text \<open>
  C28. \<open>Close\<close> of a live connection returns it to its pool, stamped with the current
  second and still open, without any closure being reported. When the pool is full it
  closes the socket and leaves the pool alone; no closure is reported to the hook
  in this case either.
\<close>

theorem Close_returns_or_closes:
  assumes "pc_pool pc < length (p_pools s)" "\<not> pc_destroyed pc" "mru_inv (conns (p_pools s ! pc_pool pc))"
    and "run_state (PersistentConn_Close e pc) s = (r, s')"
  shows "let q = conns (p_pools s ! pc_pool pc); q' = conns (p_pools s' ! pc_pool pc); c = tc_sock (pc_conn pc)
    in if 0 < capacity q \<and> int (MRUQueue_Size q) = capacity q
       then q' = q \<and> open_set s' = open_set s - {c} \<and> w_trace s' = w_trace s @ [EvClose c]
       else cached q' = add_mset (pc_conn pc, Unix (e_now e (w_tick s))) (cached q) \<and>
            open_set s' = open_set s \<and> w_trace s' = w_trace s \<and> r = None"
proof -
  let ?p = "pc_pool pc" and ?c = "tc_sock (pc_conn pc)"
  let ?q = "conns (p_pools s ! ?p)"
  let ?s = "s\<lparr>w_tick := Suc (w_tick s)\<rparr>"
  note run = assms(4) [unfolded PersistentConn_Close_def closer_def pool_put_def conns_Push_def TCPConn_Close_def]
  from assms(3) show ?thesis
  proof (cases rule: mru.push_cases [of ?q "e_now e (w_tick s)" "pc_conn pc"])
    case full
    moreover have "set_conns ?p ?q ?s = ?s" using assms(1) by (simp add: set_conns_def)
    ultimately have "run_state (sock_close e ?c) ?s = (r, s')" using run assms(2) by simp
    from sock_close_effect [OF this] obtain n ks where
        "s' = s\<lparr>w_tick := n, w_socks := ks, w_trace := w_trace s @ [EvClose ?c]\<rparr>" "open_ids ks = open_set s - {?c}"
      by (elim exE conjE) simp
    then have "open_set s' = open_set s - {?c}" "p_pools s' = p_pools s"
        "w_trace s' = w_trace s @ [EvClose ?c]" by simp_all
    moreover have "0 < capacity ?q \<and> int (MRUQueue_Size ?q) = capacity ?q"
      unfolding MRUQueue_Size_cached using full(2,3) by blast
    ultimately show ?thesis unfolding Let_def by simp
  next
    case (room q')
    then have "\<not> (0 < capacity ?q \<and> int (MRUQueue_Size ?q) = capacity ?q)"
      by (auto simp: MRUQueue_Push_def MRUQueue_Size_def split: if_splits)
    with room run assms(1,2) show ?thesis by (auto simp: Let_def set_conns_def)
  qed
qed

definition full_pool :: pools where
  "full_pool = \<lparr>w_tick = 0, w_socks = replicate 2 \<lparr>s_local = TCPAddr ''10.0.0.2'' 40000,
     s_remote = TCPAddr ''1.1.1.1'' 853, s_open = True, s_rdeadline = None, s_wdeadline = None\<rparr>, w_trace = [],
     p_pools = [\<lparr>dialer = \<lparr>d_addr = ''1.1.1.1:853'', d_serverName = ''one'', d_connectTimeout = 0,
         d_handshakeTimeout = 0, d_readTimeout = 0, d_writeTimeout = 0\<rparr>,
       cxHook = NoopLifecycle, staleTimeout = 0,
       conns = \<lparr>store = [\<lparr>val = \<lparr>tc_sock = 1, tc_readTimeout = 0, tc_writeTimeout = 0\<rparr>, priority = 5, index = 0\<rparr>],
         capacity = 1\<rparr>\<rparr>], p_tasks = []\<rparr>"

theorem Close_returns_or_closes_witness:
  "let (r, s') = run_state (PersistentConn_Close calm_env
       \<lparr>pc_conn = \<lparr>tc_sock = 0, tc_readTimeout = 0, tc_writeTimeout = 0\<rparr>, pc_pool = 0, pc_destroyed = False\<rparr>) full_pool
   in open_set s' = open_set full_pool - {0} \<and> w_trace s' = [EvClose 0]"
proof -
  let ?pc = "\<lparr>pc_conn = \<lparr>tc_sock = 0, tc_readTimeout = 0, tc_writeTimeout = 0\<rparr>, pc_pool = 0, pc_destroyed = False\<rparr>"
  obtain r s' where run: "run_state (PersistentConn_Close calm_env ?pc) full_pool = (r, s')" by (rule prod.exhaust)
  have inv: "mru_inv (conns (p_pools full_pool ! pc_pool ?pc))"
    by (simp add: full_pool_def mru_inv_def pq_inv_def heap_ok_def slots_ok_def)
  have "0 < capacity (conns (p_pools full_pool ! 0)) \<and>
      int (MRUQueue_Size (conns (p_pools full_pool ! 0))) = capacity (conns (p_pools full_pool ! 0))"
    by (simp add: full_pool_def MRUQueue_Size_def Len_def)
  moreover have "0 < length (p_pools full_pool)" "w_trace full_pool = []" by (simp_all add: full_pool_def)
  ultimately show ?thesis
    using Close_returns_or_closes [OF _ _ inv run] run by (simp add: Let_def)
qed

end
