(* ===== verification/TLS_Client.thy ===== *)
theory TLS_Client
  imports Conn_Pool
begin

text \<open>
  \<^verbatim>\<open>src/internal/network/client.go\<close>: the TLS client of one upstream server, its dialer
  and its statistics. Clients are pointers, so they live in the store
  \<open>sys_clients\<close> and a client is an index of it. \<open>run_task\<close> is the body of every
  goroutine the network package spawns.
\<close>

section \<open>State\<close>

record Stats =
  SuccessfulConnections :: int
  FailedConnections :: int

record TLSClientOpts =
  PoolOpts :: PersistentConnPoolOpts
  ConnectTimeout :: duration
  HandshakeTimeout :: duration
  ReadTimeout :: duration
  WriteTimeout :: duration

record TLSClient =
  c_addr :: string
  c_pool :: nat
  c_stats :: Stats

record sys = pools +
  sys_clients :: "TLSClient list"

section \<open>Operations\<close>

definition tlsDialer :: "env \<Rightarrow> dialer_env \<Rightarrow> ('z pools_scheme, TCPConn gores) state" where
  "tlsDialer e d = do {
     r \<leftarrow> sock_dial e (d_addr d);
     case r of
       Inl er \<Rightarrow> pass (Fail (Errorf ''client: error establishing connection: err=%v'' (Some er)))
     | Inr c \<Rightarrow> do {
         _ \<leftarrow> (if d_handshakeTimeout d > 0
              then do { now \<leftarrow> time_now e; SetDeadline e c (now + d_handshakeTimeout d) }
              else pass None);
         h \<leftarrow> tls_handshake e c (d_serverName d);
         case h of
           Some er \<Rightarrow> do {
             spawn (TSockClose c);
             pass (Fail (Errorf ''client: TLS handshake failed: err=%v'' (Some er))) }
         | None \<Rightarrow> pass (Ret (NewTCPConn c (d_readTimeout d) (d_writeTimeout d)))
       }
   }"

text \<open>The dialer of pool \<open>p\<close>: the closure with the variables it captured.\<close>

definition tls_dial :: "env \<Rightarrow> 'z dialer" where
  "tls_dial e p = do { d \<leftarrow> reads (\<lambda>s. dialer (p_pools s ! p)); tlsDialer e d }"

definition NewTLSClient ::
    "string \<Rightarrow> string \<Rightarrow> lifecycle_hook \<Rightarrow> TLSClientOpts \<Rightarrow> ('z sys_scheme, nat gores) state" where
  "NewTLSClient a serverName hook opts = do {
     p \<leftarrow> NewPersistentConnPool
            \<lparr>d_addr = a, d_serverName = serverName, d_connectTimeout = ConnectTimeout opts,
             d_handshakeTimeout = HandshakeTimeout opts, d_readTimeout = ReadTimeout opts,
             d_writeTimeout = WriteTimeout opts\<rparr>
            hook (PoolOpts opts);
     i \<leftarrow> reads (\<lambda>s. length (sys_clients s));
     update_st (\<lambda>s. s\<lparr>sys_clients := sys_clients s @
       [\<lparr>c_addr = a, c_pool = p, c_stats = \<lparr>SuccessfulConnections = 0, FailedConnections = 0\<rparr>\<rparr>]\<rparr>);
     pass (Ret i)
   }"

definition TLSClient_Conn :: "env \<Rightarrow> nat \<Rightarrow> ('z sys_scheme, PersistentConn gores) state" where
  "TLSClient_Conn e i = do {
     p \<leftarrow> reads (\<lambda>s. c_pool (sys_clients s ! i));
     r \<leftarrow> PersistentConnPool_Conn (tls_dial e) e p;
     case r of
       Ret pc \<Rightarrow> do { spawn (TStats i True); pass r }
     | Fail er \<Rightarrow> do { spawn (TStats i False); pass r }
     | Panic q \<Rightarrow> pass r
     | Hang \<Rightarrow> pass r
   }"

definition TLSClient_Stats :: "nat \<Rightarrow> ('z sys_scheme, Stats) state" where
  "TLSClient_Stats i = reads (\<lambda>s. c_stats (sys_clients s ! i))"

definition bump :: "bool \<Rightarrow> Stats \<Rightarrow> Stats" where
  "bump ok st =
     (if ok then st\<lparr>SuccessfulConnections := wrap64 (SuccessfulConnections st + 1)\<rparr>
      else st\<lparr>FailedConnections := wrap64 (FailedConnections st + 1)\<rparr>)"

definition record_stats :: "nat \<Rightarrow> bool \<Rightarrow> ('z sys_scheme, unit) state" where
  "record_stats i ok = update_st (\<lambda>s. s\<lparr>sys_clients := (sys_clients s)
     [i := (sys_clients s ! i)\<lparr>c_stats := bump ok (c_stats (sys_clients s ! i))\<rparr>]\<rparr>)"

section \<open>Goroutines\<close>

fun run_task :: "env \<Rightarrow> task \<Rightarrow> ('z sys_scheme, unit) state" where
  "run_task e (TSockClose c) = do { _ \<leftarrow> sock_close e c; pass () }"
| "run_task e (TPopulate p n) = populate_step (tls_dial e) e p n"
| "run_task e (TConnClose pc) = do { _ \<leftarrow> PersistentConn_Close e pc; pass () }"
| "run_task e (TConnDestroy pc) = do { _ \<leftarrow> PersistentConn_Destroy e pc; pass () }"
| "run_task e (TStats i ok) = record_stats i ok"

section \<open>The TLS dialer meets the dialer's contract\<close>

lemma new_sock_good: "yields (good K b X) (new_sock l r) (\<lambda>c. good K b (add_mset c X))"
  by (auto simp: yields_def good_def pools_ok_def accounts_def owned_def fills_def)

lemma sock_dial_good:
  "yields (good K b X) (sock_dial e a)
     (\<lambda>r s. (\<exists>er. r = Inl er \<and> good K b X s) \<or> (\<exists>c. r = Inr c \<and> good K b (add_mset c X) s))"
  unfolding sock_dial_def
proof (rule yields_bind [OF hushed_good [OF hushed_stamp]], goal_cases)
  case (1 i)
  show ?case
  proof (cases "e_dial e i a")
    case (Inl er)
    then show ?thesis by (auto intro: yields_return)
  next
    case (Inr lr)
    then show ?thesis
      by (cases lr) (auto intro: yields_bind [OF new_sock_good] yields_return)
  qed
qed

lemma handshake_good:
  "yields (good K b (add_mset c X))
     (do { h \<leftarrow> tls_handshake e c sn;
           case h of
             Some er \<Rightarrow> do { spawn (TSockClose c); pass (Fail (f er)) }
           | None \<Rightarrow> pass (Ret (NewTCPConn c rt wt)) }) (dial_post K b X)"
proof (rule yields_bind [OF hushed_good [OF hushed_io(5)]], goal_cases)
  case (1 h)
  show ?case
  proof (cases h)
    case None
    then show ?thesis by (auto intro!: yields_return simp: dial_post_def NewTCPConn_def)
  next
    case (Some er)
    then show ?thesis
      by (auto intro!: yields_bind [OF spawn_good [of K "TSockClose c" b X, simplified]] yields_return
          simp: dial_post_def)
  qed
qed

lemma tlsDialer_good: "yields (good K b X) (tlsDialer e d) (dial_post K b X)"
  unfolding tlsDialer_def
proof (rule yields_bind [OF sock_dial_good], rule yields_from, elim disjE exE conjE, goal_cases)
  case (1 r s er)
  then show ?case by (intro exI [of _ "good K b X"]) (auto intro: yields_return simp: dial_post_def)
next
  case (2 r s c)
  have "hushed (if d_handshakeTimeout d > 0
      then do { now \<leftarrow> time_now e; SetDeadline e c (now + d_handshakeTimeout d) } else pass None)"
    by (intro hushed_rules)
  note step = yields_bind [OF hushed_good [OF this] handshake_good]
  show ?case
    unfolding 2(1) sum.case by (intro exI conjI, rule 2(2), rule step)
qed

lemma tlsDialer_fresh:
  "run_state (tlsDialer e d) s = (Ret c, s') \<Longrightarrow> tc_sock c = length (w_socks s)"
  by (auto simp: tlsDialer_def sock_dial_def NewTCPConn_def split: sum.splits prod.splits option.splits)

interpretation tls: pool_dialer "tls_dial e" for e
proof
  show "yields (good K b X) (tls_dial e p) (dial_post K b X)" for p K b X
    unfolding tls_dial_def by (rule yields_bind [OF hushed_good [OF hushed_reads] tlsDialer_good])
  show "contained (tls_dial e p)" for p
    unfolding tls_dial_def tlsDialer_def sock_dial_def by (intro contained_rules)
  show "run_state (tls_dial e p) s = (Ret c, s') \<Longrightarrow> length (w_socks s) \<le> tc_sock c" for p s c s'
    unfolding tls_dial_def using tlsDialer_fresh [of e "dialer (p_pools s ! p)" s c s'] by simp
qed

section \<open>Goroutines and the accounting\<close>

definition clients_ok :: "'z sys_scheme \<Rightarrow> bool" where
  "clients_ok s \<longleftrightarrow> (\<forall>c \<in> set (sys_clients s). c_pool c < length (p_pools s))"

lemma record_stats_good: "yields (good K b X) (record_stats i ok) (\<lambda>_. good K b X)"
  by (auto simp: yields_def record_stats_def good_def pools_ok_def accounts_def owned_def fills_def)

lemma run_task_good:
  assumes "task_ok (length K) t"
  shows "yields (good K b (task_socks t + X)) (run_task e t)
    (\<lambda>_ s. \<exists>L b'. size L + b' \<le> b + task_fills t \<and> good K b' (L + X) s)"
proof (cases t)
  case (TSockClose c)
  then show ?thesis
    by (auto intro!: yields_bind [OF close_good] yields_return exI [of _ "{#}"])
next
  case (TPopulate p n)
  with assms tls.populate_good [of p K b X] show ?thesis by simp
next
  case (TConnClose pc)
  with assms show ?thesis
    by (auto intro!: yields_bind [OF PersistentConn_Close_good] yields_return exI [of _ "{#}"])
next
  case (TConnDestroy pc)
  with assms show ?thesis
    by (auto intro!: yields_bind [OF PersistentConn_Destroy_good] yields_return exI [of _ "{#}"])
next
  case (TStats i ok)
  then show ?thesis
    by (auto intro!: yields_weaken [OF record_stats_good] exI [of _ "{#}"])
qed

lemma TLSClient_Conn_good:
  assumes "clients_ok s" "i < length (sys_clients s)" "good K b X s"
    and "run_state (TLSClient_Conn e i) s = (r, s')"
  shows "conn_post K b X r s'"
proof -
  let ?p = "c_pool (sys_clients s ! i)"
  have p: "?p < length K" using assms(1,2,3) by (auto simp: clients_ok_def good_def)
  obtain r1 s1 where run: "run_state (PersistentConnPool_Conn (tls_dial e) e ?p) s = (r1, s1)"
    by (rule prod.exhaust)
  have post: "conn_post K b X r1 s1"
    using yieldsD [OF tls.Conn_good [OF p] assms(3) run] .
  have stats: "good K b Y (s1\<lparr>p_tasks := p_tasks s1 @ [TStats i ok]\<rparr>)" if "good K b Y s1" for Y ok
    using yieldsD [OF spawn_good [of K "TStats i ok" b Y], of s1] that by simp
  show ?thesis
    using assms(4) run post stats by (auto simp: TLSClient_Conn_def conn_post_def)
qed

section \<open>What an acquisition leaves alone\<close>

lemma same_more: "pools.more s' = pools.more s \<Longrightarrow> sys_clients s' = sys_clients (s :: 'z sys_scheme)"
  by (cases s; cases s') simp

lemma TLSClient_Conn_clients:
  assumes "run_state (TLSClient_Conn e i) s = (r, s')"
  shows "sys_clients s' = sys_clients s"
proof -
  obtain r1 s1 where run: "run_state (PersistentConnPool_Conn (tls_dial e) e (c_pool (sys_clients s ! i))) s = (r1, s1)"
    by (rule prod.exhaust)
  have "sys_clients s1 = sys_clients s"
    by (rule same_more [OF containedD [OF tls.contained_pool(1) run]])
  with assms run show ?thesis by (auto simp: TLSClient_Conn_def split: gores.splits)
qed

lemma clients_ok_cong:
  fixes s s' :: "'z sys_scheme"
  assumes "clients_ok s" "map c_pool (sys_clients s') = map c_pool (sys_clients s)"
    and "length (p_pools s') = length (p_pools s)"
  shows "clients_ok s'"
proof -
  have "set (map c_pool (sys_clients s')) \<subseteq> {..<length (p_pools s)}"
    using assms(1,2) by (auto simp: clients_ok_def)
  with assms(3) show ?thesis by (auto simp: clients_ok_def)
qed

lemma good_length: "good K b X s \<Longrightarrow> length (p_pools s) = length K"
  by (auto simp: good_def)

section \<open>A new client\<close>

lemma NewTLSClient_good:
  fixes s s' :: "'z sys_scheme"
  assumes "good K b X s" "clients_ok s" "run_state (NewTLSClient a sn hook opts) s = (r, s')"
  shows "r = Ret (length (sys_clients s)) \<and>
    good (K @ [Capacity (PoolOpts opts)]) (b + nat (Capacity (PoolOpts opts))) X s' \<and> clients_ok s' \<and>
    length (sys_clients s') = Suc (length (sys_clients s))"
proof -
  let ?c = "Capacity (PoolOpts opts)"
  have len: "length (p_pools s) = length K" by (rule good_length [OF assms(1)])
  have widen: "task_ok n t \<Longrightarrow> task_ok (Suc n) t" for n t by (cases t) auto
  have r: "r = Ret (length (sys_clients s))" and socks: "w_socks s' = w_socks s"
      and tasks: "p_tasks s' = p_tasks s @ [TPopulate (length K) ?c]"
    using assms(3) len by (auto simp: NewTLSClient_def NewPersistentConnPool_def)
  obtain P where P: "p_pools s' = p_pools s @ [P]" "conns P = NewMRUQueue ?c"
    using assms(3) by (auto simp: NewTLSClient_def NewPersistentConnPool_def)
  obtain cl where cl: "sys_clients s' = sys_clients s @ [cl]" "c_pool cl = length K"
    using assms(3) len by (auto simp: NewTLSClient_def NewPersistentConnPool_def)
  have "pools_ok s'"
    using assms(1) P tasks len mru_inv_New [of ?c] by (auto simp: good_def pools_ok_def intro: widen)
  moreover have "owned s' = owned s"
    by (simp add: owned_def P tasks cached_socks_def mru_inv_New)
  moreover have "fills s' = b + nat ?c"
    using assms(1) tasks by (simp add: good_def fills_def)
  moreover have "map (capacity \<circ> conns) (p_pools s') = K @ [?c]"
    using assms(1) P by (simp add: good_def NewMRUQueue_def)
  ultimately have "good (K @ [?c]) (b + nat ?c) X s'"
    using assms(1) by (simp add: good_def accounts_def socks)
  moreover have "clients_ok s'"
    using assms(2) cl P len by (auto simp: clients_ok_def)
  ultimately show ?thesis using r cl by simp
qed

section \<open>Properties\<close>


definition impatient :: dialer_env where
  "impatient = \<lparr>d_addr = ''1.1.1.1:853'', d_serverName = ''one'', d_connectTimeout = 0,
     d_handshakeTimeout = 3 * millisecond, d_readTimeout = 0, d_writeTimeout = 0\<rparr>"

definition blank :: pools where
  "blank = \<lparr>w_tick = 0, w_socks = [], w_trace = [], p_pools = [], p_tasks = []\<rparr>"


end
