(* ===== verification/Display.thy ===== *)
theory Display
  imports TLS_Client
begin

text \<open>
  The \<open>String\<close> methods of \<^verbatim>\<open>src/internal/network\<close>, which print connections and clients in log
  messages, with the formatting verbs \<open>%d\<close> and \<open>%s\<close> and the printing of addresses by Go's net
  package. Proved here: the decimal digits determine the number, and the printed form of
  a client determines its address and the size of its pool.
\<close>

section \<open>Numbers and addresses\<close>

definition digit :: "nat \<Rightarrow> char" where
  "digit n = char_of (48 + n)"

fun decimal :: "nat \<Rightarrow> string" where
  "decimal n = (if n < 10 then [digit n] else decimal (n div 10) @ [digit (n mod 10)])"

declare decimal.simps [simp del]

definition undecimal :: "string \<Rightarrow> nat" where
  "undecimal cs = foldl (\<lambda>n c. 10 * n + (of_char c - 48)) 0 cs"

lemma digit_value: "n < 10 \<Longrightarrow> of_char (digit n) = 48 + n"
  by (simp add: digit_def of_char_of)

lemma undecimal_decimal [simp]: "undecimal (decimal n) = n"
proof (induction n rule: decimal.induct)
  case (1 n)
  show ?case
  proof (cases "n < 10")
    case True
    then show ?thesis by (simp add: decimal.simps [of n] undecimal_def digit_value)
  next
    case False
    with 1 show ?thesis by (simp add: decimal.simps [of n] undecimal_def digit_value)
  qed
qed

lemma decimal_digits: "set (decimal n) \<subseteq> digit ` {..<10}"
proof (induction n rule: decimal.induct)
  case (1 n)
  then show ?case by (subst decimal.simps) (auto split: if_splits)
qed

text \<open>An address that is not there prints as Go prints a nil value.\<close>

fun addr_String :: "addr option \<Rightarrow> string" where
  "addr_String (Some (UDPAddr ip port)) = (if CHR '':'' \<in> set ip then ''['' @ ip @ '']'' else ip) @ '':'' @ decimal port"
| "addr_String (Some (TCPAddr ip port)) = (if CHR '':'' \<in> set ip then ''['' @ ip @ '']'' else ip) @ '':'' @ decimal port"
| "addr_String (Some (OtherAddr str)) = str"
| "addr_String None = ''%!s(<nil>)''"

section \<open>Connections and clients\<close>

definition PersistentConn_String :: "PersistentConn \<Rightarrow> ('z world_scheme, string) state" where
  "PersistentConn_String c = do {
     l \<leftarrow> reads (\<lambda>s. map_option s_local (get_sock s (tc_sock (pc_conn c))));
     r \<leftarrow> TCPConn_RemoteAddr (pc_conn c);
     pass (''PersistentConn{'' @ addr_String l @ ''->'' @ addr_String r @ ''}'')
   }"

definition TLSClient_String :: "nat \<Rightarrow> ('z sys_scheme, string) state" where
  "TLSClient_String i = do {
     c \<leftarrow> reads (\<lambda>s. sys_clients s ! i);
     n \<leftarrow> PersistentConnPool_Size (c_pool c);
     pass (''TLSClient{addr: '' @ c_addr c @ '', connections: '' @ decimal n @ ''}'')
   }"

lemma run_TLSClient_String:
  "run_state (TLSClient_String i) s =
     (''TLSClient{addr: '' @ c_addr (sys_clients s ! i) @ '', connections: '' @
      decimal (fst (run_state (PersistentConnPool_Size (c_pool (sys_clients s ! i))) s)) @ ''}'', s)"
  by (simp add: TLSClient_String_def PersistentConnPool_Size_def)

lemma last_space_splits:
  assumes "xs @ c # us = ys @ c # vs" "c \<notin> set us" "c \<notin> set vs"
  shows "xs = ys \<and> us = vs"
  using assms(1)
proof (induction xs arbitrary: ys)
  case Nil
  with assms(2) show ?case by (cases ys) auto
next
  case (Cons x xs)
  with assms(3) show ?case by (cases ys) auto
qed

lemma TLSClient_String_inj:
  "fst (run_state (TLSClient_String i) s) = fst (run_state (TLSClient_String k) s') \<longleftrightarrow>
     c_addr (sys_clients s ! i) = c_addr (sys_clients s' ! k) \<and>
     fst (run_state (PersistentConnPool_Size (c_pool (sys_clients s ! i))) s) =
     fst (run_state (PersistentConnPool_Size (c_pool (sys_clients s' ! k))) s')"
proof -
  have space: "CHR '' '' \<notin> set (decimal n)" for n
  proof
    assume "CHR '' '' \<in> set (decimal n)"
    then obtain k where "CHR '' '' = digit k" "k < 10" using subsetD [OF decimal_digits] by fast
    then show False using digit_value [of k] by (simp flip: \<open>CHR '' '' = digit k\<close>)
  qed
  have "xs @ '', connections: '' @ decimal m @ ''}'' = ys @ '', connections: '' @ decimal n @ ''}'' \<longleftrightarrow> xs = ys \<and> m = n"
    for xs ys m n
  proof
    assume "xs @ '', connections: '' @ decimal m @ ''}'' = ys @ '', connections: '' @ decimal n @ ''}''"
    then have "(xs @ '', connections:'') @ CHR '' '' # decimal m @ ''}'' = (ys @ '', connections:'') @ CHR '' '' # decimal n @ ''}''"
      by simp
    then have eq: "xs @ '', connections:'' = ys @ '', connections:'' \<and> decimal m @ ''}'' = decimal n @ ''}''"
      by (rule last_space_splits) (use space [of m] space [of n] in simp_all)
    then have "undecimal (decimal m) = undecimal (decimal n)" by (simp only: append_same_eq)
    then have "m = n" by (simp only: undecimal_decimal)
    with eq show "xs = ys \<and> m = n" by (simp only: append_same_eq)
  qed simp
  then show ?thesis by (simp add: run_TLSClient_String)
qed

end
