(* ===== verification/Pool_System.thy ===== *)
theory Pool_System
  imports TLS_Client
begin

text \<open>
  The network package as a concurrent system: requests acquire connections from the
  clients and give them back or have them destroyed, while the goroutines of the
  package (closing, returning and destroying connections, filling new pools, counting)
  run in any order. A step is one operation on shared state; each of these runs under
  a mutex or touches only what the running goroutine owns.

  Proved here for every reachable state and every environment: a connection is in one
  place only, pools respect their capacity, and how many connections can ever be lost.
\<close>

section \<open>Start-up\<close>

type_synonym server_conf = "string \<times> string \<times> TLSClientOpts"

definition empty_sys :: sys where
  "empty_sys = \<lparr>w_tick = 0, w_socks = [], w_trace = [], p_pools = [], p_tasks = [], sys_clients = []\<rparr>"

fun new_clients :: "lifecycle_hook \<Rightarrow> server_conf list \<Rightarrow> sys \<Rightarrow> sys" where
  "new_clients hook [] s = s"
| "new_clients hook ((a, serverName, opts) # cs) s =
     new_clients hook cs (snd (run_state (NewTLSClient a serverName hook opts) s))"

definition conf_capacity :: "server_conf \<Rightarrow> int" where
  "conf_capacity c = Capacity (PoolOpts (snd (snd c)))"

section \<open>Steps\<close>

type_synonym config = "sys \<times> PersistentConn list"

definition take_task :: "nat \<Rightarrow> 'z pools_scheme \<Rightarrow> 'z pools_scheme" where
  "take_task k s = s\<lparr>p_tasks := remove_nth k (p_tasks s)\<rparr>"

inductive sys_step :: "env \<Rightarrow> config \<Rightarrow> config \<Rightarrow> bool" for e where
  acquire: "i < length (sys_clients s) \<Longrightarrow> run_state (TLSClient_Conn e i) s = (Ret pc, s') \<Longrightarrow>
    sys_step e (s, H) (s', pc # H)"
| refused: "i < length (sys_clients s) \<Longrightarrow> run_state (TLSClient_Conn e i) s = (Fail er, s') \<Longrightarrow>
    sys_step e (s, H) (s', H)"
| io: "quiet s s' \<Longrightarrow> sys_step e (s, H) (s', H)"
| release: "k < length H \<Longrightarrow> run_state (spawn (TConnClose (H ! k))) s = (r, s') \<Longrightarrow>
    sys_step e (s, H) (s', remove_nth k H)"
| discard: "k < length H \<Longrightarrow> run_state (spawn (TConnDestroy (H ! k))) s = (r, s') \<Longrightarrow>
    sys_step e (s, H) (s', remove_nth k H)"
| goroutine: "k < length (p_tasks s) \<Longrightarrow>
    run_state (run_task e (p_tasks s ! k)) (take_task k s) = (r, s') \<Longrightarrow>
    sys_step e (s, H) (s', H)"

inductive reachable :: "env \<Rightarrow> lifecycle_hook \<Rightarrow> server_conf list \<Rightarrow> config \<Rightarrow> bool" for e hook cs where
  start: "reachable e hook cs (new_clients hook cs empty_sys, [])"
| step: "reachable e hook cs c \<Longrightarrow> sys_step e c c' \<Longrightarrow> reachable e hook cs c'"

section \<open>Invariant\<close>

definition held :: "PersistentConn list \<Rightarrow> cid multiset" where
  "held H = mset (map (tc_sock \<circ> pc_conn) H)"

definition handle_ok :: "nat \<Rightarrow> PersistentConn \<Rightarrow> bool" where
  "handle_ok n pc \<longleftrightarrow> pc_pool pc < n \<and> \<not> pc_destroyed pc"

definition sys_inv :: "int list \<Rightarrow> nat \<Rightarrow> config \<Rightarrow> bool" where
  "sys_inv K B c \<longleftrightarrow> (case c of (s, H) \<Rightarrow>
     clients_ok s \<and> (\<forall>pc \<in> set H. handle_ok (length K) pc) \<and>
     (\<exists>L b. size L + b \<le> B \<and> good K b (held H + L) s))"

lemma held_simps [simp]:
  "held [] = {#}" "held (pc # H) = add_mset (tc_sock (pc_conn pc)) (held H)"
  by (simp_all add: held_def)

lemma held_remove_nth:
  "k < length H \<Longrightarrow> held H = add_mset (tc_sock (pc_conn (H ! k))) (held (remove_nth k H))"
  unfolding held_def by (metis (no_types, lifting) comp_apply image_mset_add_mset mset_map mset_remove_nth)

lemma set_remove_nth: "set (remove_nth k xs) \<subseteq> set xs"
  unfolding remove_nth_def by (auto dest: in_set_takeD in_set_dropD)

lemma run_task_more:
  assumes "run_state (run_task e t) s = (r, s')" "\<And>i ok. t \<noteq> TStats i ok"
  shows "pools.more s' = pools.more s"
proof (cases t)
  case (TStats i ok)
  with assms(2) show ?thesis by blast
next
  case (TPopulate p n)
  with assms have run: "run_state (populate_step (tls_dial e) e p n) s = (r, s')" by simp
  show ?thesis by (rule containedD [OF tls.contained_pool(2) run])
next
  case (TSockClose c)
  obtain x s1 where run: "run_state (sock_close e c) s = (x, s1)" by (rule prod.exhaust)
  with assms TSockClose have "s' = s1" by simp
  with containedD [OF contained_ops(1) run] show ?thesis by simp
next
  case (TConnClose pc)
  obtain x s1 where run: "run_state (PersistentConn_Close e pc) s = (x, s1)" by (rule prod.exhaust)
  with assms TConnClose have "s' = s1" by simp
  with containedD [OF contained_persistent(1) run] show ?thesis by simp
next
  case (TConnDestroy pc)
  obtain x s1 where run: "run_state (PersistentConn_Destroy e pc) s = (x, s1)" by (rule prod.exhaust)
  with assms TConnDestroy have "s' = s1" by simp
  with containedD [OF contained_persistent(2) run] show ?thesis by simp
qed

lemma run_task_clients:
  assumes "run_state (run_task e t) s = (r, s')"
  shows "map c_pool (sys_clients s') = map c_pool (sys_clients s)"
proof (cases "\<exists>i ok. t = TStats i ok")
  case True
  then obtain i ok where "t = TStats i ok" by blast
  with assms show ?thesis
    by (cases "i < length (sys_clients s)")
      (auto simp: record_stats_def map_update list_update_beyond, metis list_update_id nth_map)
next
  case False
  with assms show ?thesis by (simp add: same_more [OF run_task_more])
qed

lemma take_task_good:
  assumes "good K b X s" "k < length (p_tasks s)"
  shows "\<exists>b0. b = b0 + task_fills (p_tasks s ! k) \<and> good K b0 (task_socks (p_tasks s ! k) + X) (take_task k s)"
proof -
  let ?t = "p_tasks s ! k" and ?R = "mset (remove_nth k (p_tasks s))"
  have ts: "mset (p_tasks s) = add_mset ?t ?R"
    using mset_remove_nth [OF assms(2)] by simp
  have "fills s = fills (take_task k s) + task_fills ?t"
    by (simp add: fills_def ts take_task_def)
  moreover have "owned s = task_socks ?t + owned (take_task k s)"
    by (simp add: owned_def ts take_task_def ac_simps)
  moreover have "pools_ok (take_task k s)"
    using assms(1) set_remove_nth [of k "p_tasks s"] by (auto simp: good_def pools_ok_def take_task_def)
  moreover have "open_set (take_task k s) = open_set s" "p_pools (take_task k s) = p_pools s"
    by (simp_all add: take_task_def)
  ultimately show ?thesis
    using assms(1) unfolding good_def accounts_def
    by (intro exI [of _ "fills (take_task k s)"]) (simp add: add.commute add.left_commute)
qed

lemma goroutine_good:
  assumes "good K b X s" "k < length (p_tasks s)"
    and "run_state (run_task e (p_tasks s ! k)) (take_task k s) = (r, s')"
  shows "\<exists>L b'. size L + b' \<le> b \<and> good K b' (L + X) s'"
proof -
  let ?t = "p_tasks s ! k"
  obtain b0 where b0: "b = b0 + task_fills ?t" "good K b0 (task_socks ?t + X) (take_task k s)"
    using take_task_good [OF assms(1,2)] by blast
  have "task_ok (length K) ?t"
    using assms(1,2) good_length [OF assms(1)] by (auto simp: good_def pools_ok_def)
  from yieldsD [OF run_task_good [OF this] b0(2) assms(3)] b0(1) show ?thesis by auto
qed

lemma goroutine_clients_ok:
  assumes "clients_ok s" "good K b X s" "good K b' X' s'"
    and "run_state (run_task e (p_tasks s ! k)) (take_task k s) = (r, s')"
  shows "clients_ok s'"
proof (rule clients_ok_cong [OF assms(1)])
  show "map c_pool (sys_clients s') = map c_pool (sys_clients s)"
    using run_task_clients [OF assms(4)] by (simp add: take_task_def)
  show "length (p_pools s') = length (p_pools s)"
    using good_length [OF assms(2)] good_length [OF assms(3)] by simp
qed

lemma sys_inv_conn:
  assumes "sys_inv K B (s, H)" "i < length (sys_clients s)" "run_state (TLSClient_Conn e i) s = (r, s')"
  shows "\<exists>L b. size L + b \<le> B \<and> conn_post K b (held H + L) r s' \<and> clients_ok s'"
proof -
  obtain L b where Lb: "size L + b \<le> B" "good K b (held H + L) s" and ok: "clients_ok s"
    using assms(1) by (auto simp: sys_inv_def)
  with assms(2,3) TLSClient_Conn_good [of s i K b "held H + L" e r s']
  have post: "conn_post K b (held H + L) r s'" by simp
  then have "clients_ok s'"
    using clients_ok_cong [OF ok] TLSClient_Conn_clients [OF assms(3)] good_length [OF Lb(2)]
    by (auto simp: conn_post_def dest!: good_length)
  with Lb(1) post show ?thesis by blast
qed

lemma sys_inv_hand_over:
  assumes "sys_inv K B (s, H)" "k < length H" "t = TConnClose (H ! k) \<or> t = TConnDestroy (H ! k)"
    and "run_state (spawn t) s = (r, s')"
  shows "sys_inv K B (s', remove_nth k H)"
proof -
  obtain L b where Lb: "size L + b \<le> B" "good K b (held H + L) s" and ok: "clients_ok s"
    and H: "\<forall>pc \<in> set H. handle_ok (length K) pc"
    using assms(1) by (auto simp: sys_inv_def)
  have "good K b (held (remove_nth k H) + L) s'"
    using yieldsD [OF spawn_good [of K t b "held (remove_nth k H) + L"], of s] assms(2-4) Lb H
    by (auto simp: held_remove_nth [OF assms(2)] handle_ok_def)
  with Lb H ok assms(4) set_remove_nth [of k H] show ?thesis
    by (auto simp: sys_inv_def clients_ok_def)
qed

lemma sys_step_inv:
  assumes "sys_step e c c'" "sys_inv K B c"
  shows "sys_inv K B c'"
  using assms
proof (induction rule: sys_step.induct)
  case (acquire i s pc s' H)
  from sys_inv_conn [OF acquire.prems acquire(1,2)] acquire.prems show ?case
    by (auto simp: sys_inv_def conn_post_def handle_ok_def)
next
  case (refused i s er s' H)
  from sys_inv_conn [OF refused.prems refused(1,2)] refused.prems show ?case
    by (auto simp: sys_inv_def conn_post_def)
next
  case (io s s' H)
  then obtain L b where Lb: "size L + b \<le> B" "good K b (held H + L) s" and ok: "clients_ok s"
    and H: "\<forall>pc \<in> set H. handle_ok (length K) pc"
    by (auto simp: sys_inv_def)
  have good': "good K b (held H + L) s'" by (rule quiet_good [OF io(1) Lb(2)])
  moreover have "clients_ok s'"
    by (rule clients_ok_cong [OF ok])
      (simp_all add: same_more [OF quiet_more [OF io(1)]] good_length [OF good'] good_length [OF Lb(2)])
  ultimately show ?case using Lb(1) H unfolding sys_inv_def by blast
next
  case (release k H s r s')
  then show ?case using sys_inv_hand_over by blast
next
  case (discard k H s r s')
  then show ?case using sys_inv_hand_over by blast
next
  case (goroutine k s r s' H)
  then obtain L b where Lb: "size L + b \<le> B" "good K b (held H + L) s" and ok: "clients_ok s"
    and H: "\<forall>pc \<in> set H. handle_ok (length K) pc"
    by (auto simp: sys_inv_def)
  obtain L' b' where L': "size L' + b' \<le> b" "good K b' (L' + (held H + L)) s'"
    using goroutine_good [OF Lb(2) goroutine(1,2)] by blast
  have "clients_ok s'" by (rule goroutine_clients_ok [OF ok Lb(2) L'(2) goroutine(2)])
  moreover have "good K b' (held H + (L' + L)) s'" using L'(2) by (simp add: ac_simps)
  moreover have "size (L' + L) + b' \<le> B" using L'(1) Lb(1) by simp
  ultimately show ?case using H unfolding sys_inv_def by blast
qed

lemma new_client_inv:
  assumes "sys_inv K B (s, [])" "run_state (NewTLSClient a sn hook opts) s = (r, s')"
  shows "sys_inv (K @ [Capacity (PoolOpts opts)]) (B + nat (Capacity (PoolOpts opts))) (s', [])"
proof -
  obtain L b where Lb: "size L + b \<le> B" "good K b L s" and ok: "clients_ok s"
    using assms(1) by (auto simp: sys_inv_def)
  from NewTLSClient_good [OF Lb(2) ok assms(2)] Lb(1) show ?thesis
    unfolding sys_inv_def prod.case
    by (intro conjI exI [of _ L] exI [of _ "b + nat (Capacity (PoolOpts opts))"]) simp_all
qed

definition total_fills :: "server_conf list \<Rightarrow> nat" where
  "total_fills cs = (\<Sum>c \<leftarrow> cs. nat (conf_capacity c))"

lemma new_clients_inv:
  "sys_inv K B (s, []) \<Longrightarrow> sys_inv (K @ map conf_capacity cs) (B + total_fills cs) (new_clients hook cs s, [])"
proof (induction cs arbitrary: K B s)
  case (Cons c cs)
  obtain a sn opts where c: "c = (a, sn, opts)" by (cases c) auto
  obtain r s' where run: "run_state (NewTLSClient a sn hook opts) s = (r, s')" by (rule prod.exhaust)
  from Cons.IH [OF new_client_inv [OF Cons.prems run]] run show ?case
    by (simp add: c conf_capacity_def total_fills_def add.assoc)
qed (simp add: total_fills_def)

lemma empty_sys_inv: "sys_inv [] 0 (empty_sys, [])"
  by (simp add: sys_inv_def empty_sys_def clients_ok_def good_def pools_ok_def accounts_def owned_def fills_def
      cached_socks_def open_ids_def)

lemma reachable_inv:
  "reachable e hook cs c \<Longrightarrow> sys_inv (map conf_capacity cs) (total_fills cs) c"
proof (induction rule: reachable.induct)
  case start
  show ?case using new_clients_inv [OF empty_sys_inv, of cs hook] by simp
next
  case (step c c')
  then show ?case by (blast intro: sys_step_inv)
qed

lemma reachable_accounts:
  assumes "reachable e hook cs (s, H)"
  obtains L b where "size L \<le> total_fills cs" "mset_set (open_set s) = owned s + held H + L"
    "good (map conf_capacity cs) b (held H + L) s"
proof -
  obtain L b where Lb: "size L + b \<le> total_fills cs" "good (map conf_capacity cs) b (held H + L) s"
    using reachable_inv [OF assms] by (auto simp: sys_inv_def)
  show ?thesis
    by (rule that [of L b]) (use Lb in \<open>simp_all add: good_def accounts_def add.assoc\<close>)
qed

section \<open>Running a schedule\<close>

text \<open>
  An executable scheduler: a schedule names the request or goroutine to run next. Every
  state it computes is reachable.
\<close>

datatype sched = SAcquire nat | SRelease nat | SDiscard nat | SRun nat

fun sched_step :: "env \<Rightarrow> sched \<Rightarrow> config \<Rightarrow> config" where
  "sched_step e (SAcquire i) (s, H) =
     (if i < length (sys_clients s) then
        (case run_state (TLSClient_Conn e i) s of
           (Ret pc, s') \<Rightarrow> (s', pc # H) | (Fail er, s') \<Rightarrow> (s', H) | _ \<Rightarrow> (s, H))
      else (s, H))"
| "sched_step e (SRelease k) (s, H) =
     (if k < length H then (snd (run_state (spawn (TConnClose (H ! k))) s), remove_nth k H) else (s, H))"
| "sched_step e (SDiscard k) (s, H) =
     (if k < length H then (snd (run_state (spawn (TConnDestroy (H ! k))) s), remove_nth k H) else (s, H))"
| "sched_step e (SRun k) (s, H) =
     (if k < length (p_tasks s) then (snd (run_state (run_task e (p_tasks s ! k)) (take_task k s)), H) else (s, H))"

lemma sched_step_reachable:
  assumes "reachable e hook cs c"
  shows "reachable e hook cs (sched_step e x c)"
proof -
  obtain s H where c: "c = (s, H)" by (cases c)
  have id: "sys_step e (s, H) (s, H)" by (rule sys_step.io) simp
  have "sys_step e (s, H) (sched_step e x (s, H))"
    using id
    by (cases x) (auto split: prod.splits gores.splits intro: sys_step.intros surjective_pairing)
  with assms c show ?thesis by (auto intro: reachable.step)
qed

definition sched_run :: "env \<Rightarrow> lifecycle_hook \<Rightarrow> server_conf list \<Rightarrow> sched list \<Rightarrow> config" where
  "sched_run e hook cs xs = fold (sched_step e) xs (new_clients hook cs empty_sys, [])"

lemma sched_run_reachable: "reachable e hook cs (sched_run e hook cs xs)"
proof -
  have "reachable e hook cs c \<Longrightarrow> reachable e hook cs (fold (sched_step e) xs c)" for c
    by (induction xs arbitrary: c) (simp_all add: sched_step_reachable del: sched_step.simps split_paired_All)
  then show ?thesis by (simp add: sched_run_def reachable.start)
qed

definition demo_conf :: server_conf where
  "demo_conf = (''1.1.1.1:853'', ''cloudflare-dns.com'',
     \<lparr>PoolOpts = \<lparr>Capacity = 1, StaleTimeout = 0\<rparr>, ConnectTimeout = 0, HandshakeTimeout = 0,
      ReadTimeout = 0, WriteTimeout = 0\<rparr>)"


lemma cached_ids: "image_mset (tc_sock \<circ> fst) (cached q) = mset (map (tc_sock \<circ> val) (store q))"
  by (simp add: cached_def entries_def multiset.map_comp comp_def entry_def)


lemmas demo_defs = sched_run_def demo_conf_def empty_sys_def NewTLSClient_def NewPersistentConnPool_def
  TLSClient_Conn_def PersistentConnPool_Conn_def pool_dial_def tls_dial_def tlsDialer_def sock_dial_def
  conns_Pop_def conns_Push_def MRUQueue_Pop_def MRUQueue_Push_def NewMRUQueue_def heap_Init_def Len_def
  set_conns_def NewPersistentConn_def NewTCPConn_def TCPConn_RemoteAddr_def tls_handshake_def get_sock_def
  io_ready_def expired_def take_task_def remove_nth_def populate_step_def PersistentConn_Close_def closer_def
  pool_put_def record_stats_def bump_def heap_Push_def pq_Push_def heap_Pop_def pq_Pop_def Swap_def down_def
  single_heap

definition leak_run :: config where
  "leak_run = sched_run calm_env NoopLifecycle [demo_conf]
     [SAcquire 0, SRelease 0, SRun 2, SRun 0, SRun 0, SRun 0]"

lemma leak_run_facts:
  "snd leak_run = []" "p_tasks (fst leak_run) = []"
  "map s_open (w_socks (fst leak_run)) = [True, True]"
  "map (map (tc_sock \<circ> val) \<circ> store \<circ> conns) (p_pools (fst leak_run)) = [[0]]"
  "length (sys_clients (fst leak_run)) = 1"
  unfolding leak_run_def by (simp_all add: demo_defs)

lemma leak_run_reachable: "reachable calm_env NoopLifecycle [demo_conf] (fst leak_run, snd leak_run)"
  unfolding leak_run_def prod.collapse by (rule sched_run_reachable)

definition busy_run :: config where
  "busy_run = sched_run calm_env NoopLifecycle [demo_conf] [SRun 0, SAcquire 0, SAcquire 0, SRelease 1]"

lemma busy_run_facts:
  "map (tc_sock \<circ> pc_conn) (snd busy_run) = [1]" "length (sys_clients (fst busy_run)) = 1"
  "map s_open (w_socks (fst busy_run)) = [True, True]"
  unfolding busy_run_def by (simp_all add: demo_defs)

lemma busy_run_reachable: "reachable calm_env NoopLifecycle [demo_conf] (fst busy_run, snd busy_run)"
  unfolding busy_run_def prod.collapse by (rule sched_run_reachable)

section \<open>Properties\<close>

text \<open>
  Exclusive use of connections. In every state the system can reach, each socket is
  in at most one place: cached in one pool once, captured by one pending goroutine, or
  held by one request in flight. And no such socket has been closed: no request is
  ever handed a connection that another request, a pool or a closing goroutine still
  has, nor one that the proxy has closed itself.
\<close>

lemma connections_are_exclusive:
  assumes "reachable e hook cs (s, H)"
  shows "count (owned s + held H) c \<le> 1 \<and> set_mset (owned s + held H) \<subseteq> open_set s"
proof -
  obtain L where L: "mset_set (open_set s) = owned s + held H + L"
    by (rule reachable_accounts [OF assms])
  have "count (owned s + held H) c \<le> count (mset_set (open_set s)) c" unfolding L by simp
  also have "\<dots> \<le> 1" by (simp add: count_mset_set')
  finally have "count (owned s + held H) c \<le> 1" .
  moreover have "set_mset (owned s + held H) \<subseteq> set_mset (mset_set (open_set s))" unfolding L by auto
  ultimately show ?thesis by simp
qed

text \<open>
  Pools respect their configured capacity: in every reachable state a pool made
  with a positive capacity caches at most that many connections.
\<close>

lemma pools_respect_capacity:
  assumes "reachable e hook cs (s, H)" "p < length cs" "0 < conf_capacity (cs ! p)"
  shows "int (fst (run_state (PersistentConnPool_Size p) s)) \<le> conf_capacity (cs ! p)"
proof -
  obtain L b where good: "good (map conf_capacity cs) b (held H + L) s"
    by (rule reachable_accounts [OF assms(1)])
  from good_pool_size [OF this, of p] assms(2,3) show ?thesis by simp
qed

text \<open>
  Every open socket is accounted for, except at most as many as there are
  connections to pre-fill the pools with: the open sockets are exactly those cached,
  captured by a goroutine or held by a request, and a rest \<open>L\<close> of at most the sum of the
  positive pool capacities. Without pre-filling nothing leaks.
\<close>

lemma open_sockets_accounted:
  assumes "reachable e hook cs (s, H)"
  shows "\<exists>L. mset_set (open_set s) = owned s + held H + L \<and> size L \<le> (\<Sum>c \<leftarrow> cs. nat (conf_capacity c))"
  by (rule reachable_accounts [OF assms]) (auto simp: total_fills_def)


text \<open>
  C26. A client never hands out a stale connection. Whenever \<open>Conn\<close> of a TLS client
  succeeds in a reachable state, the connection is either newly dialed, or it was
  cached in that client's pool, with the latest second any cached connection was used
  in, and the time since then is less than the stale timeout (when one is configured).
\<close>

theorem Conn_never_stale:
  assumes "reachable e hook cs (s, H)" "i < length (sys_clients s)"
    and "run_state (TLSClient_Conn e i) s = (Ret pc, s')"
  shows "let pool = p_pools s ! c_pool (sys_clients s ! i) in
    length (w_socks s) \<le> tc_sock (pc_conn pc) \<or>
    (\<exists>sec. (pc_conn pc, sec) \<in># cached (conns pool) \<and> (\<forall>x \<in># cached (conns pool). snd x \<le> sec) \<and>
       (staleTimeout pool \<le> 0 \<or> since (e_now e (w_tick s)) (unix_time sec) < staleTimeout pool))"
proof -
  let ?p = "c_pool (sys_clients s ! i)"
  have "sys_inv (map conf_capacity cs) (total_fills cs) (s, H)" by (rule reachable_inv [OF assms(1)])
  then have "?p < length (p_pools s)" "pools_ok s"
    using assms(2) by (auto simp: sys_inv_def clients_ok_def good_def)
  then have inv: "mru_inv (conns (p_pools s ! ?p))" by (simp add: pools_ok_def)
  obtain r1 s1 where run: "run_state (PersistentConnPool_Conn (tls_dial e) e ?p) s = (r1, s1)"
    by (rule prod.exhaust)
  with assms(3) have "r1 = Ret pc" by (auto simp: TLSClient_Conn_def split: gores.splits)
  with tls.Conn_origin [OF inv] run show ?thesis by (simp add: Let_def)
qed

theorem Conn_never_stale_witness:
  "\<exists>pc s'. run_state (TLSClient_Conn calm_env 0) (fst leak_run) = (Ret pc, s') \<and>
     tc_sock (pc_conn pc) = 0 \<and> (\<exists>sec. (pc_conn pc, sec) \<in># cached (conns (p_pools (fst leak_run) ! 0)))"
proof -
  obtain pc s' where run: "run_state (TLSClient_Conn calm_env 0) (fst leak_run) = (Ret pc, s')"
    and c: "tc_sock (pc_conn pc) = 0" and p: "c_pool (sys_clients (fst leak_run) ! 0) = 0"
    by (auto simp: leak_run_def demo_defs)
  have "length (w_socks (fst leak_run)) = 2" using arg_cong [OF leak_run_facts(3), of length] by simp
  with Conn_never_stale [OF leak_run_reachable _ run] run c p leak_run_facts(5) show ?thesis
    by (auto simp: Let_def)
qed

end
