(* ===== verification/Sharding.thy ===== *)
theory Sharding
  imports TLS_Client
begin

text \<open>
  \<^verbatim>\<open>src/internal/network/sharding.go\<close>: one client made of several. The child clients are
  values of an interface, so the operations take the children's methods as arguments:
  \<open>conn\<close> and \<open>stats\<close>, programs on the shared state. A method that changes the sharded
  client returns the changed struct beside its result.

  The locale \<open>client_contract\<close> is what the policies need of a child. Each policy is
  shown to promise the same of its own \<open>Conn\<close>, and the contract is interpreted on
  \<open>TLSClient\<close>. The availability policy is studied in theory \<open>Availability_Policy\<close>.
\<close>

section \<open>Policies\<close>

text \<open>A policy is an \<open>int\<close> in the source; nothing keeps it among the constants.\<close>

type_synonym LoadBalancingPolicy = int

definition RoundRobin :: LoadBalancingPolicy where "RoundRobin = 0"
definition Random :: LoadBalancingPolicy where "Random = 1"
definition HistoricalConnections :: LoadBalancingPolicy where "HistoricalConnections = 2"
definition Availability :: LoadBalancingPolicy where "Availability = 3"
definition Failover :: LoadBalancingPolicy where "Failover = 4"

lemmas policy_defs = RoundRobin_def Random_def HistoricalConnections_def Availability_def Failover_def

record 'c RoundRobinShardedClient =
  rr_clients :: "'c list"
  rrIdx :: nat

record 'c RandomShardedClient =
  rnd_clients :: "'c list"

record 'c HistoricalConnectionsShardedClient =
  hist_clients :: "'c list"

record 'c AvailabilityShardedClient =
  av_clients :: "'c list"
  lastError :: "'c \<rightharpoonup> time"
  errorExpiry :: "'c \<rightharpoonup> duration"

record 'c FailoverShardedClient =
  fo_clients :: "'c list"

datatype 'c ShardedClient =
    SRoundRobin "'c RoundRobinShardedClient"
  | SRandom "'c RandomShardedClient"
  | SHistorical "'c HistoricalConnectionsShardedClient"
  | SAvailability "'c AvailabilityShardedClient"
  | SFailover "'c FailoverShardedClient"

section \<open>Factories\<close>

definition NewRoundRobinShardedClient :: "'c list \<Rightarrow> 'c ShardedClient" where
  "NewRoundRobinShardedClient clients = SRoundRobin \<lparr>rr_clients = clients, rrIdx = 0\<rparr>"

definition NewRandomShardedClient :: "'c list \<Rightarrow> 'c ShardedClient" where
  "NewRandomShardedClient clients = SRandom \<lparr>rnd_clients = clients\<rparr>"

definition NewHistoricalConnectionsShardedClient :: "'c list \<Rightarrow> 'c ShardedClient" where
  "NewHistoricalConnectionsShardedClient clients = SHistorical \<lparr>hist_clients = clients\<rparr>"

definition new_availability :: "'c list \<Rightarrow> 'c AvailabilityShardedClient" where
  "new_availability clients =
     \<lparr>av_clients = clients,
      lastError = fold (\<lambda>client m. m(client \<mapsto> zero_time)) clients Map.empty,
      errorExpiry = fold (\<lambda>client m. m(client \<mapsto> 0)) clients Map.empty\<rparr>"

definition NewAvailabilityShardedClient :: "'c list \<Rightarrow> 'c ShardedClient" where
  "NewAvailabilityShardedClient clients = SAvailability (new_availability clients)"

definition NewFailoverShardedClient :: "'c list \<Rightarrow> 'c ShardedClient" where
  "NewFailoverShardedClient clients = SFailover \<lparr>fo_clients = clients\<rparr>"

definition factories :: "LoadBalancingPolicy \<rightharpoonup> ('c list \<Rightarrow> 'c ShardedClient)" where
  "factories = [RoundRobin \<mapsto> NewRoundRobinShardedClient, Random \<mapsto> NewRandomShardedClient,
     HistoricalConnections \<mapsto> NewHistoricalConnectionsShardedClient,
     Availability \<mapsto> NewAvailabilityShardedClient, Failover \<mapsto> NewFailoverShardedClient]"

definition NewShardedClient ::
    "(LoadBalancingPolicy \<Rightarrow> string) \<Rightarrow> 'c list \<Rightarrow> LoadBalancingPolicy \<Rightarrow> 'c ShardedClient gores" where
  "NewShardedClient str clients lbPolicy =
     (case factories lbPolicy of
        None \<Rightarrow> Fail (Errorf (''sharding: no factory configured for load balancing policy: policy='' @ str lbPolicy) None)
      | Some factory \<Rightarrow> Ret (factory clients))"

section \<open>The simple policies\<close>

text \<open>
  The index moves when the child has answered, by a deferred function that also runs
  when the call panics; without children its remainder divides by zero.
\<close>

definition RoundRobin_Conn ::
    "('c \<Rightarrow> ('s, 'p gores) state) \<Rightarrow> 'c RoundRobinShardedClient \<Rightarrow> ('s, 'p gores \<times> 'c RoundRobinShardedClient) state" where
  "RoundRobin_Conn conn c =
     (if rr_clients c = [] then pass (Panic DivideByZero, c)
      else do {
        r \<leftarrow> (if rrIdx c < length (rr_clients c) then conn (rr_clients c ! rrIdx c) else pass (Panic IndexOutOfRange));
        pass (r, c\<lparr>rrIdx := (rrIdx c + 1) mod length (rr_clients c)\<rparr>)
      })"

definition rand_Intn :: "env \<Rightarrow> nat \<Rightarrow> ('z world_scheme, nat gores) state" where
  "rand_Intn e n = (if n = 0 then pass (Panic IntnNonPositive) else do { i \<leftarrow> stamp; pass (Ret (e_intn e i n)) })"

definition pick :: "env \<Rightarrow> 'c list \<Rightarrow> ('z world_scheme, 'c gores) state" where
  "pick e cs = do {
     k \<leftarrow> rand_Intn e (length cs);
     pass (case k of
       Ret k \<Rightarrow> if k < length cs then Ret (cs ! k) else Panic IndexOutOfRange
     | Fail er \<Rightarrow> Fail er | Panic p \<Rightarrow> Panic p | Hang \<Rightarrow> Hang)
   }"

definition Random_Conn ::
    "env \<Rightarrow> ('c \<Rightarrow> ('z world_scheme, 'p gores) state) \<Rightarrow> 'c RandomShardedClient \<Rightarrow> ('z world_scheme, 'p gores) state" where
  "Random_Conn e conn c = do {
     r \<leftarrow> pick e (rnd_clients c);
     case r of Ret client \<Rightarrow> conn client | Fail er \<Rightarrow> pass (Fail er) | Panic p \<Rightarrow> pass (Panic p) | Hang \<Rightarrow> pass Hang
   }"

fun fewest :: "('c \<Rightarrow> ('s, Stats) state) \<Rightarrow> 'c list \<Rightarrow> 'c option \<Rightarrow> ('s, 'c option) state" where
  "fewest stats [] client = pass client"
| "fewest stats (candidate # rest) client =
     (case client of
        None \<Rightarrow> fewest stats rest (Some candidate)
      | Some c \<Rightarrow> do {
          a \<leftarrow> stats candidate;
          b \<leftarrow> stats c;
          fewest stats rest
            (if SuccessfulConnections a < SuccessfulConnections b then Some candidate else client)
        })"

definition Historical_Conn ::
    "('c \<Rightarrow> ('s, 'p gores) state) \<Rightarrow> ('c \<Rightarrow> ('s, Stats) state) \<Rightarrow> 'c HistoricalConnectionsShardedClient \<Rightarrow>
     ('s, 'p gores) state" where
  "Historical_Conn conn stats c = do {
     client \<leftarrow> fewest stats (hist_clients c) None;
     case client of None \<Rightarrow> pass (Panic NilDereference) | Some cl \<Rightarrow> conn cl
   }"

fun Failover_loop :: "('c \<Rightarrow> ('s, 'p gores) state) \<Rightarrow> 'c list \<Rightarrow> ('s, 'p gores) state" where
  "Failover_loop conn [] = pass (Fail (Errorf ''sharding: all clients failed to provide a connection'' None))"
| "Failover_loop conn (client # rest) = do {
     r \<leftarrow> conn client;
     case r of
       Ret p \<Rightarrow> pass (Ret p)
     | Fail er \<Rightarrow> Failover_loop conn rest
     | Panic q \<Rightarrow> pass (Panic q)
     | Hang \<Rightarrow> pass Hang
   }"

definition Failover_Conn :: "('c \<Rightarrow> ('s, 'p gores) state) \<Rightarrow> 'c FailoverShardedClient \<Rightarrow> ('s, 'p gores) state" where
  "Failover_Conn conn c = Failover_loop conn (fo_clients c)"

section \<open>The availability policy\<close>

definition last_error :: "'c AvailabilityShardedClient \<Rightarrow> 'c \<Rightarrow> time" where
  "last_error c client = (case lastError c client of None \<Rightarrow> zero_time | Some t \<Rightarrow> t)"

definition error_expiry :: "'c AvailabilityShardedClient \<Rightarrow> 'c \<Rightarrow> duration" where
  "error_expiry c client = (case errorExpiry c client of None \<Rightarrow> 0 | Some d \<Rightarrow> d)"

fun eligibleClients ::
    "env \<Rightarrow> 'c AvailabilityShardedClient \<Rightarrow> 'c list \<Rightarrow> ('z world_scheme, 'c list) state" where
  "eligibleClients e c [] = pass []"
| "eligibleClients e c (candidate # rest) = do {
     ok \<leftarrow> (if IsZero (last_error c candidate) then pass True
           else do { now \<leftarrow> time_now e; pass (since now (last_error c candidate) > error_expiry c candidate) });
     more \<leftarrow> eligibleClients e c rest;
     pass (if ok then candidate # more else more)
   }"

definition selectAvailable :: "env \<Rightarrow> 'c AvailabilityShardedClient \<Rightarrow> ('z world_scheme, 'c gores) state" where
  "selectAvailable e c = do {
     eligible \<leftarrow> eligibleClients e c (av_clients c);
     if eligible = [] then pass (Fail (Errorf ''sharding: no live clients are available'' None))
     else pick e eligible
   }"

definition failedClientExpiry :: duration where
  "failedClientExpiry = 30 * second"

text \<open>The section of \<open>Conn\<close> that runs under the mutex when a child has failed.\<close>

definition mark_failed ::
    "env \<Rightarrow> 'c \<Rightarrow> 'c AvailabilityShardedClient \<Rightarrow> ('z world_scheme, 'c AvailabilityShardedClient) state" where
  "mark_failed e client c = do {
     restart \<leftarrow> (if IsZero (last_error c client) then pass True
       else do { now \<leftarrow> time_now e; pass (since now (last_error c client) > failedClientExpiry) });
     now \<leftarrow> time_now e;
     pass (c\<lparr>errorExpiry := (errorExpiry c)(client \<mapsto>
               (if restart then 100 * millisecond else wrap64 (error_expiry c client * 2))),
             lastError := (lastError c)(client \<mapsto> now)\<rparr>)
   }"

fun Availability_Conn ::
    "env \<Rightarrow> ('c \<Rightarrow> ('z world_scheme, 'p gores) state) \<Rightarrow> nat \<Rightarrow> 'c AvailabilityShardedClient \<Rightarrow>
     ('z world_scheme, 'p gores \<times> 'c AvailabilityShardedClient) state" where
  "Availability_Conn e conn 0 c = pass (Hang, c)"
| "Availability_Conn e conn (Suc fuel) c = do {
     r \<leftarrow> selectAvailable e c;
     case r of
       Ret client \<Rightarrow> do {
         r \<leftarrow> conn client;
         case r of
           Ret p \<Rightarrow> pass (Ret p, c)
         | Fail er \<Rightarrow> do { c' \<leftarrow> mark_failed e client c; Availability_Conn e conn fuel c' }
         | Panic q \<Rightarrow> pass (Panic q, c)
         | Hang \<Rightarrow> pass (Hang, c) }
     | Fail er \<Rightarrow> pass (Fail er, c)
     | Panic q \<Rightarrow> pass (Panic q, c)
     | Hang \<Rightarrow> pass (Hang, c)
   }"

section \<open>The sharded client\<close>

text \<open>\<open>fuel\<close> bounds the recursion of the availability policy; the others ignore it.\<close>

fun ShardedClient_Conn ::
    "env \<Rightarrow> ('c \<Rightarrow> ('z world_scheme, 'p gores) state) \<Rightarrow> ('c \<Rightarrow> ('z world_scheme, Stats) state) \<Rightarrow> nat \<Rightarrow>
     'c ShardedClient \<Rightarrow> ('z world_scheme, 'p gores \<times> 'c ShardedClient) state" where
  "ShardedClient_Conn e conn stats fuel (SRoundRobin c) =
     do { (r, c') \<leftarrow> RoundRobin_Conn conn c; pass (r, SRoundRobin c') }"
| "ShardedClient_Conn e conn stats fuel (SRandom c) = do { r \<leftarrow> Random_Conn e conn c; pass (r, SRandom c) }"
| "ShardedClient_Conn e conn stats fuel (SHistorical c) =
     do { r \<leftarrow> Historical_Conn conn stats c; pass (r, SHistorical c) }"
| "ShardedClient_Conn e conn stats fuel (SAvailability c) =
     do { (r, c') \<leftarrow> Availability_Conn e conn fuel c; pass (r, SAvailability c') }"
| "ShardedClient_Conn e conn stats fuel (SFailover c) = do { r \<leftarrow> Failover_Conn conn c; pass (r, SFailover c) }"

fun shard_clients :: "'c ShardedClient \<Rightarrow> 'c list" where
  "shard_clients (SRoundRobin c) = rr_clients c"
| "shard_clients (SRandom c) = rnd_clients c"
| "shard_clients (SHistorical c) = hist_clients c"
| "shard_clients (SAvailability c) = av_clients c"
| "shard_clients (SFailover c) = fo_clients c"

fun collect_stats :: "('c \<Rightarrow> ('s, Stats) state) \<Rightarrow> 'c list \<Rightarrow> ('s, Stats list) state" where
  "collect_stats stats [] = pass []"
| "collect_stats stats (client # rest) = do { st \<leftarrow> stats client; sts \<leftarrow> collect_stats stats rest; pass (st # sts) }"

definition add_stats :: "Stats \<Rightarrow> Stats \<Rightarrow> Stats" where
  "add_stats st acc =
     \<lparr>SuccessfulConnections = wrap64 (SuccessfulConnections acc + SuccessfulConnections st),
      FailedConnections = wrap64 (FailedConnections acc + FailedConnections st)\<rparr>"

definition aggregateClientsStats :: "('c \<Rightarrow> ('s, Stats) state) \<Rightarrow> 'c list \<Rightarrow> ('s, Stats) state" where
  "aggregateClientsStats stats clients = do {
     multipleStats \<leftarrow> collect_stats stats clients;
     pass (fold add_stats multipleStats \<lparr>SuccessfulConnections = 0, FailedConnections = 0\<rparr>)
   }"

definition ShardedClient_Stats :: "('c \<Rightarrow> ('s, Stats) state) \<Rightarrow> 'c ShardedClient \<Rightarrow> ('s, Stats) state" where
  "ShardedClient_Stats stats c = aggregateClientsStats stats (shard_clients c)"

section \<open>Parsing a policy\<close>

fun ParsePolicy_loop ::
    "(LoadBalancingPolicy \<Rightarrow> string) \<Rightarrow> string \<Rightarrow> LoadBalancingPolicy list \<Rightarrow> LoadBalancingPolicy \<times> bool" where
  "ParsePolicy_loop str s [] = (RoundRobin, False)"
| "ParsePolicy_loop str s (known # rest) =
     (if ToLower s = ToLower (str known) then (known, True) else ParsePolicy_loop str s rest)"

definition ParseLoadBalancingPolicy ::
    "(LoadBalancingPolicy \<Rightarrow> string) \<Rightarrow> string \<Rightarrow> LoadBalancingPolicy \<times> bool" where
  "ParseLoadBalancingPolicy str s =
     ParsePolicy_loop str s [RoundRobin, Random, HistoricalConnections, Availability, Failover]"

text \<open>
  \<open>LoadBalancingPolicy.String\<close> is generated by \<open>stringer\<close>, which names a constant after
  its identifier.
\<close>

definition policy_stringer :: "(LoadBalancingPolicy \<Rightarrow> string) \<Rightarrow> bool" where
  "policy_stringer str \<longleftrightarrow> str RoundRobin = ''RoundRobin'' \<and> str Random = ''Random'' \<and>
     str HistoricalConnections = ''HistoricalConnections'' \<and> str Availability = ''Availability'' \<and>
     str Failover = ''Failover''"

section \<open>Choosing a client\<close>

lemma hushed_gores [hushed_rules]:
  "(\<And>v. hushed (f v)) \<Longrightarrow> (\<And>er. hushed (g er)) \<Longrightarrow> (\<And>q. hushed (h q)) \<Longrightarrow> hushed k \<Longrightarrow>
   hushed (case x of Ret v \<Rightarrow> f v | Fail er \<Rightarrow> g er | Panic q \<Rightarrow> h q | Hang \<Rightarrow> k)"
  by (cases x) auto

lemma hushed_pick [hushed_rules]: "hushed (pick e cs)"
  unfolding pick_def rand_Intn_def by (intro hushed_rules)

lemma hushed_eligible [hushed_rules]: "hushed (eligibleClients e c cs)"
  by (induction cs) (auto intro!: hushed_rules)

lemma hushed_select [hushed_rules]: "hushed (selectAvailable e c)"
  unfolding selectAvailable_def by (intro hushed_rules)

lemma hushed_mark_failed [hushed_rules]: "hushed (mark_failed e cl c)"
  unfolding mark_failed_def by (intro hushed_rules)

text \<open>Of the shared state, choosing a client touches the clock only.\<close>

definition clock_free :: "('z world_scheme \<Rightarrow> bool) \<Rightarrow> bool" where
  "clock_free I \<longleftrightarrow> (\<forall>s k. I s \<longrightarrow> I (s\<lparr>w_tick := k\<rparr>))"

lemma keeps_clock:
  assumes "clock_free I"
  shows "keeps I (time_now e)" "keeps I (pick e cs)" "keeps I (eligibleClients e c cs)" "keeps I (selectAvailable e c)"
    "keeps I (mark_failed e cl c)"
proof -
  have stamp: "keeps I stamp" using assms by (auto simp: clock_free_def intro!: keepsI)
  show now: "keeps I (time_now e)" unfolding time_now_def by (intro keeps_rules stamp)
  show pick: "keeps I (pick e cs)" for cs unfolding pick_def rand_Intn_def by (intro keeps_rules stamp)
  show eligible: "keeps I (eligibleClients e c cs)" for cs by (induction cs) (auto intro!: keeps_rules now)
  show "keeps I (selectAvailable e c)" unfolding selectAvailable_def by (intro keeps_rules eligible pick)
  show "keeps I (mark_failed e cl c)" unfolding mark_failed_def by (intro keeps_rules now)
qed

lemma pick_result:
  assumes "cs \<noteq> []" "env_ok e" "run_state (pick e cs) s = (r, s')"
  obtains c where "c \<in> set cs" "r = Ret c" "s' = s\<lparr>w_tick := Suc (w_tick s)\<rparr>"
proof -
  have "e_intn e (w_tick s) (length cs) < length cs" using assms(1,2) by (simp add: env_ok_def)
  then show ?thesis
    using assms(1,3) by (intro that [of "cs ! e_intn e (w_tick s) (length cs)"]) (auto simp: pick_def rand_Intn_def)
qed

lemma eligible_subset: "run_state (eligibleClients e c cs) s = (el, s') \<Longrightarrow> set el \<subseteq> set cs"
proof (induction cs arbitrary: s s' el)
  case (Cons a cs)
  show ?case
    using Cons.prems by (auto split: prod.splits if_splits dest!: Cons.IH)
qed simp

abbreviation no_live_clients :: go_err where
  "no_live_clients \<equiv> Errorf ''sharding: no live clients are available'' None"

lemma select_result:
  assumes "env_ok e" "run_state (selectAvailable e c) s = (r, s')"
  obtains (picked) cl where "cl \<in> set (av_clients c)" "r = Ret cl" | (none) "r = Fail no_live_clients"
proof -
  obtain el s1 where el: "run_state (eligibleClients e c (av_clients c)) s = (el, s1)" by (rule prod.exhaust)
  show ?thesis
  proof (cases "el = []")
    case True
    with el assms(2) none show ?thesis by (simp add: selectAvailable_def)
  next
    case False
    with el assms(2) have "run_state (pick e el) s1 = (r, s')" by (simp add: selectAvailable_def)
    from pick_result [OF False assms(1) this] eligible_subset [OF el] picked show ?thesis by blast
  qed
qed

lemma mark_failed_clients: "run_state (mark_failed e cl c) s = (c', s') \<Longrightarrow> av_clients c' = av_clients c"
  by (auto simp: mark_failed_def split: if_splits prod.splits)

section \<open>The contract of a client\<close>

definition shard_ok :: "'c set \<Rightarrow> 'c ShardedClient \<Rightarrow> bool" where
  "shard_ok C sc \<longleftrightarrow> shard_clients sc \<noteq> [] \<and> set (shard_clients sc) \<subseteq> C \<and>
     (case sc of SRoundRobin c \<Rightarrow> rrIdx c < length (rr_clients c) | _ \<Rightarrow> True)"

text \<open>
  \<open>I x\<close> is the state invariant, with \<open>x\<close> for whatever else a caller holds; \<open>post x r\<close>
  what holds after a \<open>Conn\<close> that returned \<open>r\<close>: a connection the caller owns from then
  on, or an error and the invariant as before. A client never panics.
\<close>

locale client_contract =
  fixes conn :: "'c \<Rightarrow> ('z world_scheme, 'p gores) state"
    and stats :: "'c \<Rightarrow> ('z world_scheme, Stats) state"
    and view :: "'c \<Rightarrow> 'z world_scheme \<Rightarrow> Stats"
    and C :: "'c set"
    and I :: "'x \<Rightarrow> 'z world_scheme \<Rightarrow> bool"
    and post :: "'x \<Rightarrow> 'p gores \<Rightarrow> 'z world_scheme \<Rightarrow> bool"
  assumes conn_ok: "c \<in> C \<Longrightarrow> yields (I x) (conn c) (post x)"
    and post_returns: "post x r s \<Longrightarrow> returns r"
    and post_Fail: "post x (Fail er) s \<longleftrightarrow> I x s"
    and I_clock: "clock_free (I x)"
    and stats_view: "run_state (stats c) s = (view c s, s)"
begin

lemma run_fewest_Some:
  "\<exists>c. run_state (fewest stats cs (Some c0)) s = (Some c, s) \<and> c \<in> insert c0 (set cs) \<and>
     (\<forall>d \<in> insert c0 (set cs). SuccessfulConnections (view c s) \<le> SuccessfulConnections (view d s))"
proof (induction cs arbitrary: c0)
  case (Cons a cs)
  show ?case
    using Cons [of c0] Cons [of a] by (auto simp: stats_view)
qed auto

lemma run_fewest:
  assumes "cs \<noteq> []"
  shows "\<exists>c \<in> set cs. run_state (fewest stats cs None) s = (Some c, s) \<and>
     (\<forall>d \<in> set cs. SuccessfulConnections (view c s) \<le> SuccessfulConnections (view d s))"
  using assms run_fewest_Some [of "tl cs" "hd cs" s] by (cases cs) auto

lemma RoundRobin_post:
  assumes "rr_clients c \<noteq> []" "set (rr_clients c) \<subseteq> C" "rrIdx c < length (rr_clients c)"
  shows "yields (I x) (RoundRobin_Conn conn c)
    (\<lambda>(r, c') s. post x r s \<and> rr_clients c' = rr_clients c \<and> rrIdx c' < length (rr_clients c))"
proof -
  have "rr_clients c ! rrIdx c \<in> C" using assms by auto
  then show ?thesis
    using assms unfolding RoundRobin_Conn_def
    by (auto intro!: yields_bind [OF conn_ok] yields_return)
qed

lemma Random_post:
  assumes "rnd_clients c \<noteq> []" "set (rnd_clients c) \<subseteq> C" "env_ok e"
  shows "yields (I x) (Random_Conn e conn c) (post x)"
proof (rule yieldsI)
  fix s r s' assume I: "I x s" and run: "run_state (Random_Conn e conn c) s = (r, s')"
  obtain k s1 where k: "run_state (pick e (rnd_clients c)) s = (k, s1)" by (rule prod.exhaust)
  then obtain cl where cl: "cl \<in> C" "k = Ret cl" by (rule pick_result [OF assms(1,3)]) (use assms(2) in auto)
  have "I x s1" using keepsD [OF keeps_clock(2) [OF I_clock] I k] .
  with run k cl yieldsD [OF conn_ok [OF cl(1)]] show "post x r s'" by (simp add: Random_Conn_def)
qed

lemma Historical_post:
  assumes "hist_clients c \<noteq> []" "set (hist_clients c) \<subseteq> C"
  shows "yields (I x) (Historical_Conn conn stats c) (post x)"
proof (rule yieldsI)
  fix s r s' assume "I x s" and run: "run_state (Historical_Conn conn stats c) s = (r, s')"
  obtain cl where "cl \<in> set (hist_clients c)" "run_state (fewest stats (hist_clients c) None) s = (Some cl, s)"
    using run_fewest [OF assms(1)] by blast
  with run assms(2) yieldsD [OF conn_ok \<open>I x s\<close>, of cl] show "post x r s'"
    by (auto simp: Historical_Conn_def)
qed

lemma Failover_post: "set cs \<subseteq> C \<Longrightarrow> yields (I x) (Failover_loop conn cs) (post x)"
proof (induction cs)
  case (Cons c cs)
  show ?case
  proof (rule yieldsI)
    fix s r s' assume I: "I x s" and run: "run_state (Failover_loop conn (c # cs)) s = (r, s')"
    obtain r1 s1 where r1: "run_state (conn c) s = (r1, s1)" by (rule prod.exhaust)
    then have post: "post x r1 s1" using yieldsD [OF conn_ok I, of c] Cons.prems by simp
    show "post x r s'"
      using run r1 post yieldsD [OF Cons.IH, of s1 r s'] Cons.prems
      by (cases r1) (auto simp: post_Fail dest: post_returns)
  qed
qed (auto intro: yields_return simp: post_Fail)

lemma Availability_post:
  assumes "env_ok e"
  shows "set (av_clients c) \<subseteq> C \<Longrightarrow> I x s \<Longrightarrow> run_state (Availability_Conn e conn fuel c) s = ((r, c'), s') \<Longrightarrow>
    av_clients c' = av_clients c \<and> (r = Hang \<or> post x r s')"
proof (induction fuel arbitrary: c s)
  case (Suc fuel)
  obtain k s1 where k: "run_state (selectAvailable e c) s = (k, s1)" by (rule prod.exhaust)
  have I1: "I x s1" using keepsD [OF keeps_clock(4) [OF I_clock] Suc.prems(2) k] .
  from assms k show ?case
  proof (cases rule: select_result)
    case none
    with Suc.prems(3) k I1 show ?thesis by (auto simp: post_Fail)
  next
    case (picked cl)
    obtain r1 s2 where r1: "run_state (conn cl) s1 = (r1, s2)" by (rule prod.exhaust)
    then have post: "post x r1 s2" using yieldsD [OF conn_ok I1, of cl] Suc.prems(1) picked by auto
    obtain c1 s3 where m: "run_state (mark_failed e cl c) s2 = (c1, s3)" by (rule prod.exhaust)
    show ?thesis
    proof (cases r1)
      case (Fail er)
      then have "I x s3" using post keepsD [OF keeps_clock(5) [OF I_clock] _ m] by (simp add: post_Fail)
      then show ?thesis
        using Suc.IH [of c1 s3] Suc.prems(1,3) k picked r1 Fail m mark_failed_clients [OF m] by simp
    qed (use Suc.prems(3) k picked r1 post in auto)
  qed
qed auto

lemma ShardedClient_post:
  assumes "shard_ok C sc" "env_ok e" "I x s" "run_state (ShardedClient_Conn e conn stats fuel sc) s = ((r, sc'), s')"
  shows "shard_ok C sc' \<and> shard_clients sc' = shard_clients sc \<and> (post x r s' \<or> r = Hang \<and> (\<exists>c. sc = SAvailability c))"
proof (cases sc)
  case (SRoundRobin c)
  then obtain c' where "run_state (RoundRobin_Conn conn c) s = ((r, c'), s')" "sc' = SRoundRobin c'"
    using assms(4) by (auto split: prod.splits)
  moreover have c: "rr_clients c \<noteq> []" "set (rr_clients c) \<subseteq> C" "rrIdx c < length (rr_clients c)"
    using assms(1) SRoundRobin by (simp_all add: shard_ok_def)
  ultimately show ?thesis using yieldsD [OF RoundRobin_post [OF c] assms(3)] SRoundRobin by (fastforce simp: shard_ok_def)
next
  case (SRandom c)
  then have "run_state (Random_Conn e conn c) s = (r, s')" "sc' = sc" using assms(4) by (auto split: prod.splits)
  with SRandom yieldsD [OF Random_post assms(3)] assms(1,2) show ?thesis by (auto simp: shard_ok_def)
next
  case (SHistorical c)
  then have "run_state (Historical_Conn conn stats c) s = (r, s')" "sc' = sc" using assms(4) by (auto split: prod.splits)
  with SHistorical yieldsD [OF Historical_post assms(3)] assms(1) show ?thesis by (auto simp: shard_ok_def)
next
  case (SAvailability c)
  then obtain c' where run: "run_state (Availability_Conn e conn fuel c) s = ((r, c'), s')" "sc' = SAvailability c'"
    using assms(4) by (auto split: prod.splits)
  with SAvailability Availability_post [OF assms(2) _ assms(3) run(1)] assms(1) show ?thesis by (auto simp: shard_ok_def)
next
  case (SFailover c)
  then have "run_state (Failover_loop conn (fo_clients c)) s = (r, s')" "sc' = sc"
    using assms(4) by (auto simp: Failover_Conn_def split: prod.splits)
  with SFailover yieldsD [OF Failover_post assms(3)] assms(1) show ?thesis by (auto simp: shard_ok_def)
qed

end

section \<open>TLS clients meet the contract\<close>

definition clients_inv :: "nat \<Rightarrow> int list \<times> nat \<times> cid multiset \<Rightarrow> 'z sys_scheme \<Rightarrow> bool" where
  "clients_inv n x s \<longleftrightarrow> (case x of (K, b, X) \<Rightarrow> clients_ok s \<and> length (sys_clients s) = n \<and> good K b X s)"

definition clients_post ::
    "nat \<Rightarrow> int list \<times> nat \<times> cid multiset \<Rightarrow> PersistentConn gores \<Rightarrow> 'z sys_scheme \<Rightarrow> bool" where
  "clients_post n x r s \<longleftrightarrow> (case x of (K, b, X) \<Rightarrow>
     clients_ok s \<and> length (sys_clients s) = n \<and> conn_post K b X r s)"

lemma quiet_clients_ok: "quiet s s' \<Longrightarrow> clients_ok s \<Longrightarrow> clients_ok (s' :: 'z sys_scheme)"
  by (auto simp: quiet_def clients_ok_def)

lemma clients_inv_quiet:
  assumes "clients_inv n x s" "quiet s s'"
  shows "clients_inv n x s'"
  using assms quiet_good [OF assms(2)] quiet_clients_ok [OF assms(2)] same_more [OF quiet_more [OF assms(2)]]
  by (cases x) (simp add: clients_inv_def)

interpretation tls_client: client_contract "TLSClient_Conn e" TLSClient_Stats
    "\<lambda>c s. c_stats (sys_clients s ! c)" "{..<n}" "clients_inv n" "clients_post n" for e n
proof
  show "run_state (TLSClient_Stats c) s = (c_stats (sys_clients s ! c), s)" for c and s :: "'a sys_scheme"
    by (simp add: TLSClient_Stats_def)
  show "clients_post n x (Fail er) s = clients_inv n x s" for x er and s :: "'a sys_scheme"
    by (auto simp: clients_post_def clients_inv_def conn_post_def split: prod.splits)
  show "clients_post n x r s \<Longrightarrow> returns r" for x r and s :: "'a sys_scheme"
    by (auto simp: clients_post_def conn_post_def split: prod.splits)
  show "clock_free (clients_inv n x :: 'a sys_scheme \<Rightarrow> bool)" for x
    unfolding clock_free_def using clients_inv_quiet quiet_tick by blast
  show "c \<in> {..<n} \<Longrightarrow> yields (clients_inv n x) (TLSClient_Conn e c :: ('a sys_scheme, _) state) (clients_post n x)" for c x
  proof (rule yieldsI)
    fix s s' :: "'a sys_scheme" and r
    assume c: "c \<in> {..<n}" and inv: "clients_inv n x s" and run: "run_state (TLSClient_Conn e c) s = (r, s')"
    obtain K b X where x: "x = (K, b, X)" by (cases x)
    have post: "conn_post K b X r s'"
      using TLSClient_Conn_good [OF _ _ _ run, of K b X] c inv by (simp add: clients_inv_def x)
    then have len': "length (p_pools s') = length K" by (auto simp: conn_post_def dest: good_length)
    have len: "length (p_pools s) = length K" and ok: "clients_ok s" and n: "length (sys_clients s) = n"
      using inv good_length [of K b X s] by (simp_all add: clients_inv_def x)
    have same: "sys_clients s' = sys_clients s" by (rule TLSClient_Conn_clients [OF run])
    have "clients_ok s'" by (rule clients_ok_cong [OF ok]) (simp_all add: same len len')
    with post n same show "clients_post n x r s'"
      by (simp add: clients_post_def x)
  qed
qed

section \<open>Properties\<close>

lemma factories_simps:
  "factories RoundRobin = Some NewRoundRobinShardedClient" "factories Random = Some NewRandomShardedClient"
  "factories HistoricalConnections = Some NewHistoricalConnectionsShardedClient"
  "factories Availability = Some NewAvailabilityShardedClient" "factories Failover = Some NewFailoverShardedClient"
  "factories p = None \<longleftrightarrow> p \<notin> {0..4}"
  by (auto simp: factories_def policy_defs)

lemma NewShardedClient_ok:
  assumes "NewShardedClient str clients lb = Ret sc" "clients \<noteq> []" "set clients \<subseteq> C"
  shows "shard_ok C sc"
  using assms
  by (auto simp: NewShardedClient_def factories_def policy_defs shard_ok_def NewRoundRobinShardedClient_def
      NewRandomShardedClient_def NewHistoricalConnectionsShardedClient_def NewAvailabilityShardedClient_def
      NewFailoverShardedClient_def new_availability_def split: if_splits)

text \<open>
  C14. Whatever the policy, the sharded client keeps the clients' contract. From a state in
  which every socket is accounted for, a \<open>Conn\<close> over at least one TLS client returns a
  connection that the caller alone holds, or an error with nothing lost; it never
  panics, and the sharded client is fit for the next call. Only the availability
  policy can fail to return.
\<close>

theorem sharded_client_keeps_contract:
  assumes "shard_ok {..<n} sc" "env_ok e" "clients_inv n (K, b, X) s"
    and "run_state (ShardedClient_Conn e (TLSClient_Conn e) TLSClient_Stats fuel sc) s = ((r, sc'), s')"
  shows "shard_ok {..<n} sc' \<and> shard_clients sc' = shard_clients sc \<and>
    (clients_post n (K, b, X) r s' \<or> r = Hang \<and> (\<exists>c. sc = SAvailability c))"
  by (rule tls_client.ShardedClient_post [OF assms])

definition idle_pool :: PersistentConnPool where
  "idle_pool = \<lparr>dialer = \<lparr>d_addr = ''1.1.1.1:853'', d_serverName = ''one'', d_connectTimeout = 0,
     d_handshakeTimeout = 0, d_readTimeout = 0, d_writeTimeout = 0\<rparr>, cxHook = NoopLifecycle, staleTimeout = 0,
     conns = NewMRUQueue 4\<rparr>"

definition idle_sys :: sys where
  "idle_sys = \<lparr>w_tick = 0, w_socks = [], w_trace = [], p_pools = [idle_pool, idle_pool], p_tasks = [],
     sys_clients = map (\<lambda>p. \<lparr>c_addr = ''1.1.1.1:853'', c_pool = p,
       c_stats = \<lparr>SuccessfulConnections = 7 - int p, FailedConnections = 0\<rparr>\<rparr>) [0, 1]\<rparr>"

lemma idle_sys_inv: "clients_inv 2 ([4, 4], 0, {#}) idle_sys"
  by (simp add: clients_inv_def idle_sys_def clients_ok_def good_def pools_ok_def accounts_def owned_def fills_def
      cached_socks_def open_ids_def idle_pool_def mru_inv_New)
    (simp add: NewMRUQueue_def)

theorem sharded_client_keeps_contract_witness:
  "let ((r, sc'), s') = run_state (ShardedClient_Conn calm_env (TLSClient_Conn calm_env) TLSClient_Stats 5
       (NewRoundRobinShardedClient [1, 0])) idle_sys
   in shard_ok {..<2} sc' \<and> clients_post 2 ([4, 4], 0, {#}) r s'"
proof -
  let ?sc = "NewRoundRobinShardedClient [1, 0::nat]"
  obtain r sc' s' where run: "run_state (ShardedClient_Conn calm_env (TLSClient_Conn calm_env) TLSClient_Stats 5 ?sc)
      idle_sys = ((r, sc'), s')" by (metis prod.exhaust)
  have "shard_ok {..<2} ?sc" by (auto simp: shard_ok_def NewRoundRobinShardedClient_def)
  from sharded_client_keeps_contract [OF this calm_env_ok idle_sys_inv run] show ?thesis
    unfolding run Let_def prod.case by (auto simp: NewRoundRobinShardedClient_def)
qed

fun rr_calls :: "('c \<Rightarrow> ('s, 'p gores) state) \<Rightarrow> nat \<Rightarrow> 'c RoundRobinShardedClient \<Rightarrow>
    ('s, 'p gores list \<times> 'c RoundRobinShardedClient) state" where
  "rr_calls conn 0 c = pass ([], c)"
| "rr_calls conn (Suc m) c = do {
     (r, c') \<leftarrow> RoundRobin_Conn conn c;
     (rs, c'') \<leftarrow> rr_calls conn m c';
     pass (r # rs, c'')
   }"

fun in_turn :: "('c \<Rightarrow> ('s, 'p gores) state) \<Rightarrow> 'c list \<Rightarrow> ('s, 'p gores list) state" where
  "in_turn conn [] = pass []"
| "in_turn conn (c # cs) = do { r \<leftarrow> conn c; rs \<leftarrow> in_turn conn cs; pass (r # rs) }"

definition rotation :: "'c list \<Rightarrow> nat \<Rightarrow> nat \<Rightarrow> 'c list" where
  "rotation cs i m = map (\<lambda>k. cs ! ((i + k) mod length cs)) [0..<m]"

lemma rotation_Suc: "rotation cs i (Suc m) = cs ! (i mod length cs) # rotation cs (Suc i) m"
  unfolding rotation_def map_upt_Suc by simp

lemma rotation_add: "rotation cs i (a + b) = rotation cs i a @ rotation cs (i + a) b"
  by (induction a arbitrary: i) (simp_all add: rotation_Suc, simp add: rotation_def)

lemma rotation_round: "rotation cs i (length cs) = rotate i cs"
  by (rule nth_equalityI) (auto simp: rotation_def nth_rotate)

lemma rotation_counts:
  assumes "distinct cs" "x \<in> set cs"
  shows "count_list (rotation cs i (q * length cs)) x = q"
proof (induction q arbitrary: i)
  case (Suc q)
  have "count_list (rotate i cs) x = 1"
    using assms distinct_rotate [of i cs] set_rotate [of i cs] distinct_count_atmost_1 [of "rotate i cs"]
    by (simp add: count_mset [symmetric])
  with Suc show ?case by (simp add: rotation_add rotation_round)
qed (simp add: rotation_def)

lemma run_rr_calls:
  assumes "rr_clients c = cs" "cs \<noteq> []" "rrIdx c < length cs"
  shows "run_state (rr_calls conn m c) s =
    (case run_state (in_turn conn (rotation cs (rrIdx c) m)) s of
       (rs, s') \<Rightarrow> ((rs, c\<lparr>rrIdx := (rrIdx c + m) mod length cs\<rparr>), s'))"
  using assms
proof (induction m arbitrary: c s)
  case (Suc m)
  let ?c = "c\<lparr>rrIdx := Suc (rrIdx c) mod length cs\<rparr>"
  have rot: "rotation cs (Suc (rrIdx c) mod length cs) m = rotation cs (Suc (rrIdx c)) m"
    by (simp add: rotation_def mod_add_left_eq)
  show ?case
    using Suc.IH [of ?c] Suc.prems
    by (simp add: RoundRobin_Conn_def rotation_Suc rot mod_simps split: prod.split)
qed (simp add: rotation_def)

text \<open>
  C21. Round robin takes the children strictly in turn: \<open>m\<close> calls of \<open>Conn\<close> in sequence are
  exactly \<open>m\<close> calls of the children's \<open>Conn\<close>, starting at the current index and wrapping
  around, whatever the children answer. In \<open>q\<close> full rounds each of the distinct
  children is asked exactly \<open>q\<close> times.
\<close>

theorem round_robin_in_turn:
  assumes "rr_clients c = cs" "cs \<noteq> []" "rrIdx c < length cs"
  shows "rr_calls conn m c =
      do { rs \<leftarrow> in_turn conn (rotation cs (rrIdx c) m); pass (rs, c\<lparr>rrIdx := (rrIdx c + m) mod length cs\<rparr>) } \<and>
    (distinct cs \<longrightarrow> (\<forall>x \<in> set cs. count_list (rotation cs (rrIdx c) (q * length cs)) x = q))"
proof
  show "rr_calls conn m c =
      do { rs \<leftarrow> in_turn conn (rotation cs (rrIdx c) m); pass (rs, c\<lparr>rrIdx := (rrIdx c + m) mod length cs\<rparr>) }"
    by (rule state.expand, rule ext) (simp add: run_rr_calls [OF assms] split: prod.split)
qed (simp add: rotation_counts)

theorem round_robin_in_turn_witness:
  "let c = \<lparr>rr_clients = [5, 6, 7 :: nat], rrIdx = 2\<rparr>
   in rr_calls (\<lambda>c. State (\<lambda>s. (Ret c, c # s))) 4 c =
        do { rs \<leftarrow> in_turn (\<lambda>c. State (\<lambda>s. (Ret c, c # s))) (rotation [5, 6, 7] 2 4); pass (rs, c\<lparr>rrIdx := 0\<rparr>) } \<and>
      rotation [5, 6, 7 :: nat] 2 4 = [7, 5, 6, 7] \<and> count_list (rotation [5, 6, 7 :: nat] 2 (10 * 3)) 6 = 10"
proof -
  let ?c = "\<lparr>rr_clients = [5, 6, 7 :: nat], rrIdx = 2\<rparr>"
  have "rotation [5, 6, 7 :: nat] 2 4 = [7, 5, 6, 7]" by (simp add: rotation_def upt_rec)
  with round_robin_in_turn [of ?c "[5, 6, 7]" "\<lambda>c. State (\<lambda>s. (Ret c, c # s))" 4 10] show ?thesis
    by (simp add: Let_def)
qed

text \<open>
  C25. The historical-connections policy asks a least used client: \<open>Conn\<close> behaves exactly
  like \<open>Conn\<close> of one of the clients whose count of successful connections is minimal
  at the time of the call.
\<close>

theorem historical_asks_least_used:
  assumes "clients \<noteq> []"
  shows "\<exists>c \<in> set clients.
    (\<forall>d \<in> set clients. SuccessfulConnections (c_stats (sys_clients s ! c)) \<le> SuccessfulConnections (c_stats (sys_clients s ! d))) \<and>
    run_state (Historical_Conn (TLSClient_Conn e) TLSClient_Stats \<lparr>hist_clients = clients\<rparr>) s = run_state (TLSClient_Conn e c) s"
  using tls_client.run_fewest [OF assms, of s] by (force simp: Historical_Conn_def)

theorem historical_asks_least_used_witness:
  "run_state (Historical_Conn (TLSClient_Conn calm_env) TLSClient_Stats \<lparr>hist_clients = [0, 1]\<rparr>) idle_sys =
   run_state (TLSClient_Conn calm_env 1) idle_sys"
  using historical_asks_least_used [of "[0, 1]" idle_sys calm_env] by (auto simp: idle_sys_def)

text \<open>
  \<open>refused conn cs s s'\<close>: the clients \<open>cs\<close>, asked in this order from state \<open>s\<close>, all
  return an error, which leads to state \<open>s'\<close>.
\<close>

inductive refused :: "('c \<Rightarrow> ('s, 'p gores) state) \<Rightarrow> 'c list \<Rightarrow> 's \<Rightarrow> 's \<Rightarrow> bool" for conn where
  none: "refused conn [] s s"
| more: "run_state (conn c) s = (Fail er, s1) \<Longrightarrow> refused conn cs s1 s2 \<Longrightarrow> refused conn (c # cs) s s2"

inductive_simps refused_simps [simp]: "refused conn [] s s'" "refused conn (c # cs) s s'"

lemma refused_run:
  "refused conn cs s s' \<Longrightarrow> run_state (Failover_loop conn (cs @ ds)) s = run_state (Failover_loop conn ds) s'"
  by (induction rule: refused.induct) auto

lemma Failover_cases:
  assumes "run_state (Failover_loop conn cs) s = (r, s')" "returns r"
  shows "(\<exists>pre c post s1 p. cs = pre @ c # post \<and> refused conn pre s s1 \<and> run_state (conn c) s1 = (Ret p, s') \<and> r = Ret p) \<or>
    refused conn cs s s' \<and> r = Fail (Errorf ''sharding: all clients failed to provide a connection'' None)"
  using assms
proof (induction cs arbitrary: s)
  case (Cons c cs)
  obtain r1 s1 where r1: "run_state (conn c) s = (r1, s1)" by (rule prod.exhaust)
  show ?case
  proof (cases r1)
    case (Ret p)
    with r1 Cons.prems show ?thesis by (intro disjI1 exI [of _ "[]"]) auto
  next
    case (Fail er)
    with r1 Cons.prems have "run_state (Failover_loop conn cs) s1 = (r, s')" by simp
    from Cons.IH [OF this Cons.prems(2)] r1 Fail show ?thesis
      by (elim disjE exE) (metis Cons_eq_appendI refused.more, auto)
  qed (use r1 Cons.prems in auto)
qed auto

text \<open>
  C20. Failover respects the order of priority. It returns a connection exactly when some
  client gives one after all the clients before it have refused, and no client behind
  it is asked; it returns its own error exactly when every client has refused in turn.
\<close>

theorem failover_in_priority_order:
  assumes "returns r"
  shows "run_state (Failover_Conn conn \<lparr>fo_clients = clients\<rparr>) s = (r, s') \<longleftrightarrow>
    (\<exists>pre c post s1 p. clients = pre @ c # post \<and> refused conn pre s s1 \<and>
       run_state (conn c) s1 = (Ret p, s') \<and> r = Ret p) \<or>
    refused conn clients s s' \<and> r = Fail (Errorf ''sharding: all clients failed to provide a connection'' None)"
  (is "?run \<longleftrightarrow> ?spec")
proof
  show "?run \<Longrightarrow> ?spec" using Failover_cases [OF _ assms, of conn clients s s'] by (simp add: Failover_Conn_def)
  show "?spec \<Longrightarrow> ?run" using refused_run [of conn clients s s' "[]"] by (auto simp: Failover_Conn_def refused_run)
qed

theorem failover_in_priority_order_witness:
  "run_state (Failover_Conn (\<lambda>c. State (\<lambda>log. (if c = 3 then Ret c else Fail ErrTimeout, log @ [c])))
      \<lparr>fo_clients = [1, 2, 3, 4 :: nat]\<rparr>) [] = (Ret 3, [1, 2, 3])"
  by (rule iffD2 [OF failover_in_priority_order], simp, rule disjI1, rule exI [of _ "[1, 2]"])
    (auto intro!: exI [of _ "3"])

lemma collect_stats_TLS:
  "run_state (collect_stats TLSClient_Stats cs) s = (map (\<lambda>c. c_stats (sys_clients s ! c)) cs, s)"
  by (induction cs) (simp_all add: TLSClient_Stats_def)

lemma fold_add_stats:
  assumes "SuccessfulConnections acc = wrap64 a" "FailedConnections acc = wrap64 b"
  shows "fold add_stats sts acc =
    \<lparr>SuccessfulConnections = wrap64 (a + (\<Sum>st \<leftarrow> sts. SuccessfulConnections st)),
     FailedConnections = wrap64 (b + (\<Sum>st \<leftarrow> sts. FailedConnections st))\<rparr>"
  using assms
proof (induction sts arbitrary: acc a b)
  case (Cons st sts)
  from Cons.IH [of "add_stats st acc" "a + SuccessfulConnections st" "b + FailedConnections st"] Cons.prems
  show ?case by (simp add: add_stats_def wrap64_add add.assoc)
qed (cases acc, simp)

text \<open>
  The statistics of a sharded client are the sums of its children's, in 64-bit
  arithmetic, and reading them changes nothing.
\<close>

lemma stats_are_summed:
  "run_state (ShardedClient_Stats TLSClient_Stats sc) s =
     (\<lparr>SuccessfulConnections = wrap64 (\<Sum>c \<leftarrow> shard_clients sc. SuccessfulConnections (c_stats (sys_clients s ! c))),
       FailedConnections = wrap64 (\<Sum>c \<leftarrow> shard_clients sc. FailedConnections (c_stats (sys_clients s ! c)))\<rparr>, s)"
  using fold_add_stats [of "\<lparr>SuccessfulConnections = 0, FailedConnections = 0\<rparr>" 0 0]
  by (simp add: ShardedClient_Stats_def aggregateClientsStats_def collect_stats_TLS comp_def in64_def)

lemma ToLower_policy_names:
  "ToLower ''RoundRobin'' = ''roundrobin''" "ToLower ''Random'' = ''random''"
  "ToLower ''HistoricalConnections'' = ''historicalconnections''" "ToLower ''Availability'' = ''availability''"
  "ToLower ''Failover'' = ''failover''"
  by code_simp+

lemma parsed_policy_builds:
  "\<exists>sc. NewShardedClient str clients (fst (ParseLoadBalancingPolicy str s)) = Ret sc \<and> shard_clients sc = clients"
  by (auto simp: ParseLoadBalancingPolicy_def NewShardedClient_def factories_simps NewRoundRobinShardedClient_def
      NewRandomShardedClient_def NewHistoricalConnectionsShardedClient_def NewAvailabilityShardedClient_def
      NewFailoverShardedClient_def new_availability_def)

text \<open>
  A policy is recognised exactly up to case, every policy is the parse of its own name,
  and whatever the parser returns, recognised or not, has a factory: building a
  sharded client from a parsed policy never fails, and the client has the children
  it was given. Unrecognised names give \<open>RoundRobin\<close> and \<open>false\<close>.
\<close>

lemma parsed_policy_has_factory:
  assumes "policy_stringer str" "ParseLoadBalancingPolicy str s = (lb, ok)"
  shows "(\<exists>sc. NewShardedClient str clients lb = Ret sc \<and> shard_clients sc = clients) \<and>
    (ok \<longrightarrow> ToLower s = ToLower (str lb)) \<and>
    (\<not> ok \<longrightarrow> lb = RoundRobin \<and>
       ToLower s \<notin> {''roundrobin'', ''random'', ''historicalconnections'', ''availability'', ''failover''}) \<and>
    (lb' \<in> {0..4} \<longrightarrow> ParseLoadBalancingPolicy str (str lb') = (lb', True))"
proof -
  have "lb' \<in> {0..4} \<Longrightarrow> lb' \<in> {RoundRobin, Random, HistoricalConnections, Availability, Failover}"
    by (auto simp: policy_defs)
  moreover have "\<exists>sc. NewShardedClient str clients lb = Ret sc \<and> shard_clients sc = clients"
    using parsed_policy_builds [of str clients s] assms(2) by simp
  ultimately show ?thesis
    using assms
    by (auto simp: ParseLoadBalancingPolicy_def policy_stringer_def ToLower_policy_names split: if_splits)
qed

definition policy_names :: "LoadBalancingPolicy \<Rightarrow> string" where
  "policy_names p = (if p = 0 then ''RoundRobin'' else if p = 1 then ''Random'' else if p = 2 then ''HistoricalConnections''
     else if p = 3 then ''Availability'' else if p = 4 then ''Failover'' else ''LoadBalancingPolicy(?)'')"

end
