(* ===== verification/Round_Robin_Race.thy ===== *)
theory Round_Robin_Race
  imports Sharding
begin

text \<open>
  The round-robin policy of \<^verbatim>\<open>src/internal/network/sharding.go\<close> under concurrent calls. No mutex
  protects its index: a call reads it to choose a child, the child's \<open>Conn\<close> runs, and the
  deferred function reads the index again and stores the successor. Here these three
  accesses of any number of calls interleave freely; run alone a call does to the index
  what \<open>RoundRobin_Conn\<close> does.

  Proved here: the index stays in range and no call panics, although calls that overlap
  may ask the same child.
\<close>

section \<open>The accesses of a call\<close>

text \<open>\<open>rr_calling\<close>: calls in which the child runs; \<open>rr_adding\<close>: what deferred functions have read.\<close>

record 'c rr_race =
  rr_shared :: "'c RoundRobinShardedClient"
  rr_calling :: "'c list"
  rr_adding :: "nat list"
  rr_asked :: "'c list"

datatype 'c racing = Racing "'c rr_race" | RacePanic go_panic

fun rr_child :: "'c RoundRobinShardedClient \<Rightarrow> 'c gores" where
  "rr_child c = (if rrIdx c < length (rr_clients c) then Ret (rr_clients c ! rrIdx c) else Panic IndexOutOfRange)"

fun rr_next :: "'c RoundRobinShardedClient \<Rightarrow> nat \<Rightarrow> nat gores" where
  "rr_next c i = (if rr_clients c = [] then Panic DivideByZero else Ret ((i + 1) mod length (rr_clients c)))"

inductive rr_step :: "'c racing \<Rightarrow> 'c racing \<Rightarrow> bool" where
  choose: "rr_child (rr_shared s) = Ret cl \<Longrightarrow>
    rr_step (Racing s) (Racing (s\<lparr>rr_calling := cl # rr_calling s, rr_asked := rr_asked s @ [cl]\<rparr>))"
| choose_panic: "rr_child (rr_shared s) = Panic q \<Longrightarrow> rr_step (Racing s) (RacePanic q)"
| return: "k < length (rr_calling s) \<Longrightarrow>
    rr_step (Racing s) (Racing (s\<lparr>rr_calling := remove_nth k (rr_calling s), rr_adding := rrIdx (rr_shared s) # rr_adding s\<rparr>))"
| store: "k < length (rr_adding s) \<Longrightarrow> rr_next (rr_shared s) (rr_adding s ! k) = Ret i \<Longrightarrow>
    rr_step (Racing s) (Racing (s\<lparr>rr_adding := remove_nth k (rr_adding s), rr_shared := (rr_shared s)\<lparr>rrIdx := i\<rparr>\<rparr>))"
| store_panic: "k < length (rr_adding s) \<Longrightarrow> rr_next (rr_shared s) (rr_adding s ! k) = Panic q \<Longrightarrow>
    rr_step (Racing s) (RacePanic q)"

definition rr_init :: "'c RoundRobinShardedClient \<Rightarrow> 'c racing" where
  "rr_init c = Racing \<lparr>rr_shared = c, rr_calling = [], rr_adding = [], rr_asked = []\<rparr>"

section \<open>A call on its own\<close>

lemma rr_steps: "rr_step a b \<Longrightarrow> rr_step\<^sup>*\<^sup>* b c \<Longrightarrow> rr_step\<^sup>*\<^sup>* a c"
  by (rule converse_rtranclp_into_rtranclp)

lemma rr_alone:
  assumes "rr_clients c = cs" "rrIdx c < length cs"
    and "run_state (RoundRobin_Conn conn c) s = ((r, c'), s')"
  shows "rr_step\<^sup>*\<^sup>* (Racing \<lparr>rr_shared = c, rr_calling = [], rr_adding = [], rr_asked = xs\<rparr>)
    (Racing \<lparr>rr_shared = c', rr_calling = [], rr_adding = [], rr_asked = xs @ [cs ! rrIdx c]\<rparr>) \<and>
    run_state (conn (cs ! rrIdx c)) s = (r, s')"
proof -
  have cs: "cs \<noteq> []" using assms(2) by auto
  have c': "c' = c\<lparr>rrIdx := (rrIdx c + 1) mod length cs\<rparr>" "run_state (conn (cs ! rrIdx c)) s = (r, s')"
    using assms cs by (auto simp: RoundRobin_Conn_def split: prod.splits)
  let ?s = "\<lambda>c F A. Racing \<lparr>rr_shared = c, rr_calling = F, rr_adding = A, rr_asked = xs @ [cs ! rrIdx c]\<rparr>"
  have 1: "rr_step (Racing \<lparr>rr_shared = c, rr_calling = [], rr_adding = [], rr_asked = xs\<rparr>) (?s c [cs ! rrIdx c] [])"
    using rr_step.choose [of "\<lparr>rr_shared = c, rr_calling = [], rr_adding = [], rr_asked = xs\<rparr>"] assms(1,2) by simp
  have 2: "rr_step (?s c [cs ! rrIdx c] []) (?s c [] [rrIdx c])"
    using rr_step.return [of 0 "\<lparr>rr_shared = c, rr_calling = [cs ! rrIdx c], rr_adding = [], rr_asked = xs @ [cs ! rrIdx c]\<rparr>"]
    by (simp add: remove_nth_def)
  have 3: "rr_step (?s c [] [rrIdx c])
      (Racing \<lparr>rr_shared = c', rr_calling = [], rr_adding = [], rr_asked = xs @ [cs ! rrIdx c]\<rparr>)"
    using rr_step.store [of 0 "\<lparr>rr_shared = c, rr_calling = [], rr_adding = [rrIdx c], rr_asked = xs @ [cs ! rrIdx c]\<rparr>"]
      assms(1) cs c' by (simp add: remove_nth_def)
  show ?thesis
    by (rule conjI [OF rr_steps [OF 1 rr_steps [OF 2 rr_steps [OF 3 rtranclp.rtrancl_refl]]] c'(2)])
qed

section \<open>The invariant\<close>

definition rr_inv :: "'c RoundRobinShardedClient \<Rightarrow> 'c racing \<Rightarrow> bool" where
  "rr_inv c0 st \<longleftrightarrow> (case st of
     Racing s \<Rightarrow> rr_clients (rr_shared s) = rr_clients c0 \<and> rrIdx (rr_shared s) < length (rr_clients c0) \<and>
       set (rr_asked s) \<subseteq> set (rr_clients c0) \<and> length (rr_calling s) + length (rr_adding s) \<le> length (rr_asked s) \<and>
       (length (rr_calling s) = length (rr_asked s) \<longrightarrow>
          rr_shared s = c0 \<and> set (rr_asked s) \<subseteq> {rr_clients c0 ! rrIdx c0})
   | RacePanic q \<Rightarrow> False)"

lemma length_remove_nth [simp]: "k < length xs \<Longrightarrow> length (remove_nth k xs) = length xs - 1"
  by (simp add: remove_nth_def)

lemma rr_step_inv: "rr_step st st' \<Longrightarrow> rr_inv c0 st \<Longrightarrow> rr_inv c0 st'"
  by (induction rule: rr_step.induct) (auto simp: rr_inv_def split: if_splits)

lemma rr_steps_inv:
  assumes "rr_step\<^sup>*\<^sup>* (rr_init c) st" "rrIdx c < length (rr_clients c)"
  shows "rr_inv c st"
  using assms(1)
proof (induction rule: rtranclp_induct)
  case base
  show ?case using assms(2) by (simp add: rr_inv_def rr_init_def)
qed (rule rr_step_inv)

section \<open>Properties\<close>

text \<open>
  C22. Concurrent calls of the round-robin policy are safe but not fair. However the unprotected
  accesses to the index interleave, no call panics: the index stays below the number of
  children, which never changes, and only children are asked. But until some call
  returns, all calls ask the child at the initial index.
\<close>

theorem round_robin_race_safe:
  assumes "rrIdx c < length (rr_clients c)" "rr_step\<^sup>*\<^sup>* (rr_init c) st"
  shows "\<exists>s. st = Racing s \<and> rr_clients (rr_shared s) = rr_clients c \<and> rrIdx (rr_shared s) < length (rr_clients c) \<and>
    set (rr_asked s) \<subseteq> set (rr_clients c) \<and>
    (length (rr_calling s) = length (rr_asked s) \<longrightarrow> set (rr_asked s) \<subseteq> {rr_clients c ! rrIdx c})"
  using rr_steps_inv [OF assms(2,1)] by (auto simp: rr_inv_def split: racing.splits)

text \<open>Two calls that overlap.\<close>

definition rr_overlap :: "nat racing" where
  "rr_overlap = Racing \<lparr>rr_shared = \<lparr>rr_clients = [5, 6], rrIdx = 0\<rparr>, rr_calling = [5, 5], rr_adding = [], rr_asked = [5, 5]\<rparr>"

lemma rr_overlap_reachable: "rr_step\<^sup>*\<^sup>* (rr_init \<lparr>rr_clients = [5, 6], rrIdx = 0\<rparr>) rr_overlap"
proof -
  let ?s = "\<lambda>xs. \<lparr>rr_shared = \<lparr>rr_clients = [5, 6], rrIdx = 0\<rparr>, rr_calling = xs, rr_adding = [], rr_asked = xs :: nat list\<rparr>"
  have steps: "rr_step (Racing (?s [])) (Racing (?s [5]))" "rr_step (Racing (?s [5])) (Racing (?s [5, 5]))"
    using rr_step.choose [of "?s []" 5] rr_step.choose [of "?s [5]" 5] by simp_all
  show ?thesis unfolding rr_init_def rr_overlap_def
    by (rule rr_steps [OF steps(1) rr_steps [OF steps(2) rtranclp.rtrancl_refl]])
qed

theorem round_robin_race_safe_witness:
  "\<exists>s. rr_step\<^sup>*\<^sup>* (rr_init \<lparr>rr_clients = [5, 6], rrIdx = 0\<rparr>) (Racing s) \<and> length (rr_asked s) = 2 \<and>
    rrIdx (rr_shared s) < 2 \<and> set (rr_asked s) \<subseteq> {5 :: nat}"
  using round_robin_race_safe [OF _ rr_overlap_reachable] rr_overlap_reachable by (auto simp: rr_overlap_def)

end
