(* ===== verification/Availability_Policy.thy ===== *)
theory Availability_Policy
  imports Sharding
begin

text \<open>
  The availability policy of \<^verbatim>\<open>src/internal/network/sharding.go\<close> in depth: how long a
  failed client stays out of the pool, when \<open>Conn\<close> returns, and what becomes of both
  when requests fail at the same time or slowly.
\<close>

section \<open>The clock only moves forward\<close>

named_theorems onward_rules

definition onward :: "('z world_scheme, 'a) state \<Rightarrow> bool" where
  "onward m \<longleftrightarrow> (\<forall>s r s'. run_state m s = (r, s') \<longrightarrow> w_tick s \<le> w_tick s')"

lemma onwardD: "onward m \<Longrightarrow> run_state m s = (r, s') \<Longrightarrow> w_tick s \<le> w_tick s'"
  by (simp add: onward_def)

lemma onward_bind [onward_rules]:
  "onward m \<Longrightarrow> (\<And>a. onward (f a)) \<Longrightarrow> onward (State_Monad.bind m f)"
  unfolding onward_def by (auto split: prod.splits) (meson order_trans)

lemma onward_basic [onward_rules]:
  "onward (State_Monad.return x)" "onward (reads f)" "onward stamp" "onward (emit ev)" "onward (time_now e)"
  "onward (elapsed e)" "onward (new_sock l r)" "onward (modify_sock c g)"
  by (auto simp: onward_def)

lemma onward_pools [onward_rules]: "onward (spawn t)" "onward (conns_Pop p)"
  by (auto simp: onward_def conns_Pop_def set_conns_def split: prod.splits)

lemma onward_case [onward_rules]:
  "(b \<Longrightarrow> onward m) \<Longrightarrow> (\<not> b \<Longrightarrow> onward n) \<Longrightarrow> onward (if b then m else n)"
  "onward n \<Longrightarrow> (\<And>y. onward (f y)) \<Longrightarrow> onward (case x of None \<Rightarrow> n | Some y \<Rightarrow> f y)"
  "(\<And>a b. onward (g a b)) \<Longrightarrow> onward (case y of (a, b) \<Rightarrow> g a b)"
  "(\<And>a. onward (h a)) \<Longrightarrow> (\<And>b. onward (h' b)) \<Longrightarrow> onward (case z of Inl a \<Rightarrow> h a | Inr b \<Rightarrow> h' b)"
  "(\<And>v. onward (k v)) \<Longrightarrow> (\<And>er. onward (k' er)) \<Longrightarrow> (\<And>q. onward (k'' q)) \<Longrightarrow> onward l \<Longrightarrow>
   onward (case w of Ret v \<Rightarrow> k v | Fail er \<Rightarrow> k' er | Panic q \<Rightarrow> k'' q | Hang \<Rightarrow> l)"
  by (simp_all split: option.split prod.split sum.split gores.split)

lemma onward_TLSClient_Conn: "onward (TLSClient_Conn e i)"
  unfolding TLSClient_Conn_def PersistentConnPool_Conn_def pool_dial_def tls_dial_def tlsDialer_def sock_dial_def
    SetDeadline_def sock_set_deadline_def tls_handshake_def TCPConn_RemoteAddr_def sock_remote_def
  by (intro onward_rules)

lemma onward_mark_failed [onward_rules]: "onward (mark_failed e cl c)"
  unfolding mark_failed_def by (intro onward_rules)

lemma onward_eligible [onward_rules]: "onward (eligibleClients e c cs)"
  by (induction cs) (auto intro!: onward_rules)

lemma onward_select [onward_rules]: "onward (selectAvailable e c)"
  unfolding selectAvailable_def pick_def rand_Intn_def by (intro onward_rules)

lemma onward_Availability:
  "(\<And>cl. onward (conn cl)) \<Longrightarrow> onward (Availability_Conn e conn fuel c)"
  by (induction fuel arbitrary: c) (auto intro!: onward_rules)

section \<open>Back-off\<close>

text \<open>
  A client that has failed has an expiry of 100 ms doubled \<open>k\<close> times. \<open>avail_inv\<close> bounds
  \<open>k\<close> by 9: a client is asked again only once its expiry has passed, and after 30 s
  without a failure the expiry starts over, so no expiry of 30 s or more is ever doubled.
\<close>

definition backoff :: "nat \<Rightarrow> duration" where
  "backoff k = 100 * millisecond * 2 ^ k"

definition avail_inv :: "'c AvailabilityShardedClient \<Rightarrow> bool" where
  "avail_inv c \<longleftrightarrow> (\<forall>cl. if IsZero (last_error c cl) then error_expiry c cl = 0
     else \<exists>k \<le> 9. error_expiry c cl = backoff k)"

lemma fold_const_map: "(fold (\<lambda>x m. m(x \<mapsto> v)) xs m) y = (if y \<in> set xs then Some v else m y)"
  by (induction xs arbitrary: m) auto

lemma avail_inv_New: "avail_inv (new_availability clients)"
  by (auto simp: avail_inv_def last_error_def error_expiry_def new_availability_def fold_const_map IsZero_def)

lemma last_error_upd [simp]:
  "last_error (c\<lparr>errorExpiry := E, lastError := (lastError c)(cl \<mapsto> t)\<rparr>) d = (if d = cl then t else last_error c d)"
  by (simp add: last_error_def)

lemma error_expiry_upd [simp]:
  "error_expiry (c\<lparr>errorExpiry := (errorExpiry c)(cl \<mapsto> x), lastError := L\<rparr>) d = (if d = cl then x else error_expiry c d)"
  by (simp add: error_expiry_def)

lemma IsZero_neg: "0 < t \<Longrightarrow> \<not> IsZero t"
  by (simp add: IsZero_def zero_time_def second_def)

lemma backoff_mono: "k \<le> k' \<Longrightarrow> backoff k \<le> backoff k'"
  by (simp add: backoff_def millisecond_def)

lemma doubled_fits: "0 < P \<Longrightarrow> P \<le> 512 \<Longrightarrow> in64 (100 * millisecond * P * 2)"
  by (simp add: in64_def millisecond_def)

lemma backoff_double: "k \<le> 9 \<Longrightarrow> wrap64 (backoff k * 2) = backoff (Suc k)"
proof -
  assume "k \<le> 9"
  then have "(2 :: int) ^ k \<le> 2 ^ 9" by (intro power_increasing) auto
  then have "in64 (backoff k * 2)" unfolding backoff_def by (intro doubled_fits) simp_all
  then show ?thesis by (simp add: backoff_def)
qed

lemma backoff_small: "backoff k < failedClientExpiry \<Longrightarrow> k \<le> 8"
proof (rule ccontr)
  assume "backoff k < failedClientExpiry" "\<not> k \<le> 8"
  then have "backoff 9 < failedClientExpiry" using backoff_mono [of 9 k] by simp
  then show False by (simp add: backoff_def failedClientExpiry_def millisecond_def second_def)
qed

lemma eligible_time:
  assumes "run_state (eligibleClients e c cs) s = (el, s')" "cl \<in> set el"
  shows "IsZero (last_error c cl) \<or>
    (\<exists>i. w_tick s \<le> i \<and> i < w_tick s' \<and> error_expiry c cl < since (e_now e i) (last_error c cl))"
  using assms
proof (induction cs arbitrary: s el)
  case (Cons a cs)
  let ?m = "if IsZero (last_error c a) then pass True
       else do { now \<leftarrow> time_now e; pass (since now (last_error c a) > error_expiry c a) }"
  obtain ok s1 where ok: "run_state ?m s = (ok, s1)" by (rule prod.exhaust)
  obtain el' where el': "run_state (eligibleClients e c cs) s1 = (el', s')" "el = (if ok then a # el' else el')"
    using Cons.prems(1) ok by (auto split: prod.splits)
  have le: "w_tick s \<le> w_tick s1" "w_tick s1 \<le> w_tick s'"
    using ok onwardD [OF onward_eligible el'(1)] by (auto split: if_splits)
  show ?case
  proof (cases "cl \<in> set el'")
    case True
    with Cons.IH [OF el'(1)] le show ?thesis by (auto intro: order_trans)
  next
    case False
    with Cons.prems(2) el'(2) have "cl = a" "ok" by (auto split: if_splits)
    with ok le show ?thesis by (auto split: if_splits intro!: exI [of _ "w_tick s"])
  qed
qed simp

lemma select_time:
  assumes "run_state (selectAvailable e c) s = (Ret cl, s')"
  shows "IsZero (last_error c cl) \<or>
    (\<exists>i. w_tick s \<le> i \<and> i < w_tick s' \<and> error_expiry c cl < since (e_now e i) (last_error c cl))"
proof -
  obtain el s1 where el: "run_state (eligibleClients e c (av_clients c)) s = (el, s1)" by (rule prod.exhaust)
  with assms have "el \<noteq> []" "run_state (pick e el) s1 = (Ret cl, s')"
    by (auto simp: selectAvailable_def split: if_splits)
  then have "cl \<in> set el" "w_tick s1 \<le> w_tick s'"
    by (auto simp: pick_def rand_Intn_def split: if_splits gores.splits)
  with eligible_time [OF el this(1)] show ?thesis by (auto intro: less_le_trans)
qed

lemma run_mark_failed:
  assumes "run_state (mark_failed e cl c) s = (c', s')"
  obtains i where "w_tick s \<le> i" "w_tick s' = Suc i"
    "c' = c\<lparr>errorExpiry := (errorExpiry c)(cl \<mapsto>
        (if IsZero (last_error c cl) \<or> since (e_now e (w_tick s)) (last_error c cl) > failedClientExpiry
         then 100 * millisecond else wrap64 (error_expiry c cl * 2))), lastError := (lastError c)(cl \<mapsto> e_now e i)\<rparr>"
proof (cases "IsZero (last_error c cl)")
  case True
  with assms show ?thesis by (intro that [of "w_tick s"]) (auto simp: mark_failed_def)
next
  case False
  with assms show ?thesis by (intro that [of "Suc (w_tick s)"]) (auto simp: mark_failed_def)
qed

lemma mark_failed_inv:
  assumes "env_ok e" "avail_inv c" "run_state (mark_failed e cl c) s = (c', s')"
    and asked: "IsZero (last_error c cl) \<or>
      (\<exists>i. i \<le> w_tick s \<and> error_expiry c cl < since (e_now e i) (last_error c cl))"
  shows "avail_inv c' \<and> (\<exists>i \<ge> w_tick s. i < w_tick s' \<and> last_error c' cl = e_now e i) \<and>
    100 * millisecond \<le> error_expiry c' cl \<and> (\<forall>d. d \<noteq> cl \<longrightarrow> last_error c' d = last_error c d \<and> error_expiry c' d = error_expiry c d)"
proof -
  let ?restart = "IsZero (last_error c cl) \<or> since (e_now e (w_tick s)) (last_error c cl) > failedClientExpiry"
  obtain i where i: "w_tick s \<le> i" "w_tick s' = Suc i"
    "c' = c\<lparr>errorExpiry := (errorExpiry c)(cl \<mapsto>
        (if ?restart then 100 * millisecond else wrap64 (error_expiry c cl * 2))), lastError := (lastError c)(cl \<mapsto> e_now e i)\<rparr>"
    by (rule run_mark_failed [OF assms(3)])
  have "\<exists>k \<le> 9. error_expiry c' cl = backoff k"
  proof (cases ?restart)
    case True
    with i show ?thesis by (intro exI [of _ 0]) (simp add: backoff_def)
  next
    case False
    then obtain k where k: "error_expiry c cl = backoff k" "k \<le> 9"
      using assms(2) by (auto simp: avail_inv_def split: if_splits)
    obtain j where "j \<le> w_tick s" "error_expiry c cl < since (e_now e j) (last_error c cl)"
      using asked False by auto
    then have "error_expiry c cl < failedClientExpiry"
      using False since_mono [of "e_now e j" "e_now e (w_tick s)" "last_error c cl"] assms(1)
      by (auto simp: env_ok_def dest: monoD)
    then have "k \<le> 8" using k by (simp add: backoff_small)
    with False k i show ?thesis by (intro exI [of _ "Suc k"]) (simp add: backoff_double)
  qed
  moreover have "\<not> IsZero (e_now e i)" using assms(1) by (simp add: env_ok_def IsZero_neg)
  ultimately have "avail_inv c'" using assms(2) i(3) by (auto simp: avail_inv_def)
  moreover have "100 * millisecond \<le> error_expiry c' cl"
    using \<open>\<exists>k \<le> 9. error_expiry c' cl = backoff k\<close> backoff_mono [of 0] by (auto simp: backoff_def)
  ultimately show ?thesis using i by (auto intro!: exI [of _ i])
qed

section \<open>Sequential use\<close>

text \<open>What one attempt of \<open>Conn\<close> does when the chosen child fails.\<close>

lemma attempt_inv:
  assumes "env_ok e" "onward (conn cl)" "avail_inv c"
    and "run_state (selectAvailable e c) s = (Ret cl, s1)" "run_state (conn cl) s1 = (r, s2)"
    and "run_state (mark_failed e cl c) s2 = (c', s3)"
  shows "avail_inv c' \<and> (\<exists>i \<ge> w_tick s. i < w_tick s3 \<and> last_error c' cl = e_now e i) \<and>
    100 * millisecond \<le> error_expiry c' cl \<and> (\<forall>d. d \<noteq> cl \<longrightarrow> last_error c' d = last_error c d \<and> error_expiry c' d = error_expiry c d)"
proof -
  have le: "w_tick s \<le> w_tick s1" "w_tick s1 \<le> w_tick s2"
    using onwardD [OF onward_select assms(4)] onwardD [OF assms(2,5)] by auto
  have "IsZero (last_error c cl) \<or> (\<exists>i. i \<le> w_tick s2 \<and> error_expiry c cl < since (e_now e i) (last_error c cl))"
    using select_time [OF assms(4)] le by (meson less_imp_le order_trans)
  from mark_failed_inv [OF assms(1,3,6) this] le show ?thesis by (meson order_trans)
qed

lemma Availability_inv:
  assumes "env_ok e" "\<And>cl. onward (conn cl)"
  shows "avail_inv c \<Longrightarrow> run_state (Availability_Conn e conn fuel c) s = ((r, c'), s') \<Longrightarrow> avail_inv c'"
proof (induction fuel arbitrary: c s)
  case (Suc fuel)
  obtain k s1 where k: "run_state (selectAvailable e c) s = (k, s1)" by (rule prod.exhaust)
  show ?case
  proof (cases k)
    case (Ret cl)
    obtain r1 s2 where r1: "run_state (conn cl) s1 = (r1, s2)" by (rule prod.exhaust)
    obtain c1 s3 where m: "run_state (mark_failed e cl c) s2 = (c1, s3)" by (rule prod.exhaust)
    have "avail_inv c1"
      using attempt_inv [of e conn, OF assms Suc.prems(1) k [unfolded Ret] r1 m] by simp
    with Suc.IH [of c1 s3] Suc.prems k Ret r1 m show ?thesis by (cases r1) auto
  qed (use Suc.prems k in auto)
qed auto

text \<open>
  Within 100 ms no client is asked twice: the clients \<open>F\<close> that have failed since the
  time \<open>t\<close> are not eligible, so the call ends before the fuel does.
\<close>

lemma not_asked_again:
  assumes "env_ok e" "run_state (selectAvailable e c) s = (Ret cl, s1)"
    and "\<forall>cl \<in> F. \<not> IsZero (last_error c cl) \<and> t \<le> last_error c cl \<and> 100 * millisecond \<le> error_expiry c cl"
    and "e_now e (w_tick s1) \<le> t + 100 * millisecond"
  shows "cl \<notin> F"
proof
  assume "cl \<in> F"
  with select_time [OF assms(2)] assms(3) obtain i where
    i: "i < w_tick s1" "100 * millisecond < since (e_now e i) (last_error c cl)" "t \<le> last_error c cl"
    by fastforce
  have "e_now e i \<le> e_now e (w_tick s1)" using assms(1) i(1) by (simp add: env_ok_def monoD)
  with i assms(4) show False by (simp add: since_def millisecond_def split: if_splits)
qed

lemma quick_call_returns:
  assumes "env_ok e" "\<And>cl. onward (conn cl)"
    and conn: "\<And>cl s r s'. run_state (conn cl) s = (r, s') \<Longrightarrow> r \<noteq> Hang"
  shows "avail_inv c \<Longrightarrow> card (set (av_clients c) - F) < fuel \<Longrightarrow>
    \<forall>cl \<in> F. \<not> IsZero (last_error c cl) \<and> t \<le> last_error c cl \<and> 100 * millisecond \<le> error_expiry c cl \<Longrightarrow>
    t \<le> e_now e (w_tick s) \<Longrightarrow>
    run_state (Availability_Conn e conn fuel c) s = ((r, c'), s') \<Longrightarrow> e_now e (w_tick s') \<le> t + 100 * millisecond \<Longrightarrow>
    r \<noteq> Hang"
proof (induction fuel arbitrary: c s F)
  case (Suc fuel)
  have now_le: "i \<le> j \<Longrightarrow> e_now e i \<le> e_now e j" for i j
    using assms(1) by (auto simp: env_ok_def dest: monoD)
  obtain k s1 where k: "run_state (selectAvailable e c) s = (k, s1)" by (rule prod.exhaust)
  from assms(1) k show ?case
  proof (cases rule: select_result)
    case none
    with Suc.prems k show ?thesis by auto
  next
    case (picked cl)
    obtain r1 s2 where r1: "run_state (conn cl) s1 = (r1, s2)" by (rule prod.exhaust)
    obtain c1 s3 where m: "run_state (mark_failed e cl c) s2 = (c1, s3)" by (rule prod.exhaust)
    show ?thesis
    proof (cases r1)
      case (Fail er)
      then have run: "run_state (Availability_Conn e conn fuel c1) s3 = ((r, c'), s')"
        using Suc.prems(5) k picked r1 m by simp
      have le: "w_tick s \<le> w_tick s1" "w_tick s1 \<le> w_tick s2" "w_tick s2 \<le> w_tick s3" "w_tick s3 \<le> w_tick s'"
        using onwardD [OF onward_select k] onwardD [OF assms(2) r1] onwardD [OF onward_mark_failed m]
          onwardD [OF onward_Availability [OF assms(2)] run] by auto
      have "e_now e (w_tick s1) \<le> t + 100 * millisecond" using now_le [of "w_tick s1" "w_tick s'"] le Suc.prems(6) by simp
      then have "cl \<notin> F" by (rule not_asked_again [OF assms(1) k [unfolded picked(2)] Suc.prems(3)])
      note step = attempt_inv [of e conn, OF assms(1,2) Suc.prems(1) k [unfolded picked(2)] r1 m]
      then obtain i where i: "w_tick s \<le> i" "last_error c1 cl = e_now e i" by blast
      have "t \<le> last_error c1 cl" using now_le [OF i(1)] i(2) Suc.prems(4) by simp
      moreover have "\<not> IsZero (last_error c1 cl)"
        using assms(1) by (simp add: i(2) env_ok_def IsZero_neg)
      ultimately have F: "\<forall>d \<in> insert cl F. \<not> IsZero (last_error c1 d) \<and> t \<le> last_error c1 d \<and>
          100 * millisecond \<le> error_expiry c1 d"
        using Suc.prems(3) step \<open>cl \<notin> F\<close> by (metis insert_iff)
      have "set (av_clients c1) - insert cl F = set (av_clients c) - F - {cl}"
        using mark_failed_clients [OF m] by auto
      then have card: "card (set (av_clients c1) - insert cl F) < fuel"
        using picked(1) \<open>cl \<notin> F\<close> Suc.prems(2) card_Diff1_less [of "set (av_clients c) - F" cl] by auto
      have "t \<le> e_now e (w_tick s3)" using now_le [of "w_tick s" "w_tick s3"] le Suc.prems(4) by simp
      from Suc.IH [OF _ card F this run Suc.prems(6)] step show ?thesis by blast
    qed (use Suc.prems k picked r1 conn [OF r1] in auto)
  qed
qed simp


lemma tlsDialer_returns: "run_state (tlsDialer e d) s = (r, s') \<Longrightarrow> returns r"
  by (auto simp: tlsDialer_def sock_dial_def split: sum.splits prod.splits option.splits)

lemma MRUQueue_Pop_no_hang: "MRUQueue_Pop q = (r, q') \<Longrightarrow> r \<noteq> Hang"
  by (auto simp: MRUQueue_Pop_def heap_Pop_def pq_Pop_def Let_def split: if_splits prod.splits)

lemma pool_dial_no_hang: "run_state (pool_dial (tls_dial e) e p) s = (r, s') \<Longrightarrow> r \<noteq> Hang"
  using tlsDialer_returns [of e "dialer (p_pools s ! p)" s]
  by (auto simp: pool_dial_def tls_dial_def split: prod.splits gores.splits)

lemma TLSClient_Conn_no_hang:
  assumes "run_state (TLSClient_Conn e i) s = (r, s')"
  shows "r \<noteq> Hang"
proof -
  let ?p = "c_pool (sys_clients s ! i)"
  obtain x q where x: "MRUQueue_Pop (conns (p_pools s ! ?p)) = (x, q)" by (rule prod.exhaust)
  obtain r1 s1 where run: "run_state (PersistentConnPool_Conn (tls_dial e) e ?p) s = (r1, s1)" by (rule prod.exhaust)
  have "r1 \<noteq> Hang"
    using run x MRUQueue_Pop_no_hang [OF x]
    by (auto simp: PersistentConnPool_Conn_def conns_Pop_def dest: pool_dial_no_hang
        split: gores.splits option.splits if_splits prod.splits)
  with run assms show ?thesis by (auto simp: TLSClient_Conn_def split: gores.splits)
qed

section \<open>Properties\<close>

text \<open>A sequence of calls, one after the other, at whatever times the clock shows.\<close>

fun av_calls ::
    "env \<Rightarrow> ('c \<Rightarrow> ('z world_scheme, 'p gores) state) \<Rightarrow> nat list \<Rightarrow> 'c AvailabilityShardedClient \<Rightarrow>
     ('z world_scheme, 'c AvailabilityShardedClient) state" where
  "av_calls e conn [] c = pass c"
| "av_calls e conn (fuel # fuels) c = do { (r, c') \<leftarrow> Availability_Conn e conn fuel c; av_calls e conn fuels c' }"

lemma av_calls_inv:
  assumes "env_ok e"
  shows "avail_inv c \<Longrightarrow> run_state (av_calls e (TLSClient_Conn e) fuels c) s = (c', s') \<Longrightarrow> avail_inv c'"
proof (induction fuels arbitrary: c s)
  case (Cons fuel fuels)
  obtain r c1 s1 where run: "run_state (Availability_Conn e (TLSClient_Conn e) fuel c) s = ((r, c1), s1)"
    by (metis prod.exhaust)
  have "avail_inv c1" by (rule Availability_inv [OF assms onward_TLSClient_Conn Cons.prems(1) run])
  with Cons.IH [of c1 s1] Cons.prems(2) run show ?case by simp
qed simp

text \<open>
  C24. Used by one request at a time, the availability policy backs off by at most 51.2 s:
  after any sequence of calls, a client that has never failed has no expiry, and any
  other has an expiry of 100 ms doubled at most nine times. In particular the
  doubling never overflows.
\<close>

theorem sequential_backoff_bounded:
  assumes "env_ok e"
    and "run_state (av_calls e (TLSClient_Conn e) fuels (new_availability clients)) s = (c', s')"
  shows "if IsZero (last_error c' cl) then error_expiry c' cl = 0
    else (\<exists>k \<le> 9. error_expiry c' cl = 100 * millisecond * 2 ^ k) \<and> error_expiry c' cl \<le> 51200 * millisecond"
proof -
  have inv: "avail_inv c'" by (rule av_calls_inv [OF assms(1) avail_inv_New assms(2)])
  show ?thesis
  proof (cases "IsZero (last_error c' cl)")
    case True
    with inv show ?thesis by (simp add: avail_inv_def)
  next
    case False
    with inv [unfolded avail_inv_def, rule_format, of cl] obtain k where
      k: "k \<le> 9" "error_expiry c' cl = backoff k" by auto
    have "backoff k \<le> 51200 * millisecond" using backoff_mono [OF k(1)] by (simp add: backoff_def)
    with False k show ?thesis by (auto simp: backoff_def)
  qed
qed

definition down_env :: env where
  "down_env = calm_env\<lparr>e_dial := (\<lambda>i a. Inl ErrTimeout)\<rparr>"

lemma down_env_ok: "env_ok down_env"
  using calm_env_ok by (simp add: env_ok_def down_env_def)

theorem sequential_backoff_bounded_witness:
  "let (c', s') = run_state (av_calls down_env (TLSClient_Conn down_env) [3, 3] (new_availability [0, 1])) idle_sys
   in (if IsZero (last_error c' 0) then error_expiry c' 0 = 0
     else (\<exists>k \<le> 9. error_expiry c' 0 = 100 * millisecond * 2 ^ k) \<and> error_expiry c' 0 \<le> 51200 * millisecond)"
proof -
  obtain c' s' where run: "run_state (av_calls down_env (TLSClient_Conn down_env) [3, 3] (new_availability [0, 1])) idle_sys = (c', s')"
    by (rule prod.exhaust)
  from sequential_backoff_bounded [OF down_env_ok run, of 0] show ?thesis unfolding run Let_def prod.case .
qed


definition instant_env :: env where
  "instant_env = down_env\<lparr>e_now := (\<lambda>i. second)\<rparr>"

lemma instant_env_ok: "env_ok instant_env"
  using down_env_ok by (simp add: env_ok_def instant_env_def mono_def)


section \<open>A slow outage\<close>

text \<open>
  Two upstream servers, both unreachable, and a network on which a connection attempt
  takes 16 s to fail while nothing else takes any time. Interaction \<open>i\<close> happens
  \<open>blackhole_now i\<close> after the epoch: the clock jumps at each attempt, that is after the
  interactions 1, 5, 10, 16, 22 and so on.
\<close>

definition blackhole_now :: "nat \<Rightarrow> time" where
  "blackhole_now i = second + 16 * second * (of_bool (2 \<le> i) + of_bool (6 \<le> i) + int ((i - 5) div 6))"

definition blackhole_env :: env where
  "blackhole_env = calm_env\<lparr>e_now := blackhole_now, e_dial := (\<lambda>i a. Inl ErrTimeout), e_intn := (\<lambda>i n. 0)\<rparr>"

lemma blackhole_env_ok: "env_ok blackhole_env"
proof -
  have "mono blackhole_now"
    unfolding blackhole_now_def mono_def by (auto simp: div_le_mono second_def)
  moreover have "0 < blackhole_now i" for i by (simp add: blackhole_now_def second_def add_pos_nonneg)
  ultimately show ?thesis using calm_env_ok by (simp add: env_ok_def blackhole_env_def)
qed

definition idle :: "sys \<Rightarrow> bool" where
  "idle s \<longleftrightarrow> p_pools s = [idle_pool, idle_pool] \<and> map c_pool (sys_clients s) = [0, 1]"

lemma idle_refused:
  assumes "idle s" "i < 2"
  obtains s' er where "run_state (TLSClient_Conn blackhole_env i) s = (Fail er, s')" "w_tick s' = Suc (w_tick s)" "idle s'"
proof -
  have "c_pool (sys_clients s ! i) < 2"
    using assms arg_cong [of "map c_pool (sys_clients s)" "[0, 1]" "\<lambda>xs. xs ! i"] arg_cong [of "map c_pool (sys_clients s)" "[0, 1]" length]
    by (auto simp: idle_def less_2_cases_iff)
  then have "conns (p_pools s ! c_pool (sys_clients s ! i)) = NewMRUQueue 4"
      "set_conns (c_pool (sys_clients s ! i)) (NewMRUQueue 4) s = s"
    using assms(1) by (auto simp: idle_def idle_pool_def less_2_cases_iff set_conns_def)
  moreover have "MRUQueue_Pop (NewMRUQueue 4 :: TCPConn MRUQueue) = (Ret (None, unix_time 0, False), NewMRUQueue 4)"
    by (simp add: MRUQueue_Pop_def NewMRUQueue_def heap_Init_def Len_def)
  ultimately obtain er tr ts where run: "run_state (TLSClient_Conn blackhole_env i) s =
      (Fail er, s\<lparr>w_tick := Suc (w_tick s), w_trace := tr, p_tasks := ts\<rparr>)"
    by (auto simp: TLSClient_Conn_def PersistentConnPool_Conn_def conns_Pop_def pool_dial_def tls_dial_def
        tlsDialer_def sock_dial_def blackhole_env_def)
  show ?thesis by (rule that [OF run]) (use assms(1) in \<open>auto simp: idle_def\<close>)
qed

definition stuck :: "nat \<Rightarrow> nat AvailabilityShardedClient \<Rightarrow> sys \<Rightarrow> bool" where
  "stuck k c s \<longleftrightarrow> idle s \<and> w_tick s = 7 + 6 * k \<and> av_clients c = [0, 1] \<and>
     (\<forall>x < 2. error_expiry c x = 100 * millisecond \<and>
        last_error c x = second + 16 * second * (int k + (if x = k mod 2 then 1 else 2)))"

lemma blackhole_times:
  "blackhole_now (7 + 6 * k) = second + 16 * second * (int k + 2)"
  "blackhole_now (8 + 6 * k) = second + 16 * second * (int k + 2)"
  "blackhole_now (11 + 6 * k) = second + 16 * second * (int k + 3)"
  "blackhole_now (12 + 6 * k) = second + 16 * second * (int k + 3)"
proof -
  have "(2 + 6 * k) div 6 = k" "(3 + 6 * k) div 6 = k" "(6 + 6 * k) div 6 = Suc k" "(7 + 6 * k) div 6 = Suc k" by presburger+
  then show "blackhole_now (7 + 6 * k) = second + 16 * second * (int k + 2)"
  "blackhole_now (8 + 6 * k) = second + 16 * second * (int k + 2)"
  "blackhole_now (11 + 6 * k) = second + 16 * second * (int k + 3)"
  "blackhole_now (12 + 6 * k) = second + 16 * second * (int k + 3)"
    by (simp_all add: blackhole_now_def)
qed

lemma time_not_zero: "0 \<le> m \<Longrightarrow> \<not> IsZero (second + 16 * second * m)"
  by (rule IsZero_neg) (simp add: second_def)

lemma since_blackhole:
  "0 \<le> d \<Longrightarrow> d < 100 \<Longrightarrow> since (second + 16 * second * (m + d)) (second + 16 * second * m) = 16 * second * d"
  by (simp add: since_def second_def algebra_simps)

lemma stuck_select:
  assumes "stuck k c s"
  shows "run_state (selectAvailable blackhole_env c) s = (Ret (k mod 2), s\<lparr>w_tick := 10 + 6 * k\<rparr>)"
proof -
  have tick: "w_tick s = 7 + 6 * k" and cs: "av_clients c = [0, 1]"
    and E: "error_expiry c 0 = 100 * millisecond" "error_expiry c (Suc 0) = 100 * millisecond"
    using assms by (auto simp: stuck_def)
  have now: "e_now blackhole_env (w_tick s) = second + 16 * second * (int k + 2)"
      "e_now blackhole_env (Suc (w_tick s)) = second + 16 * second * (int k + 2)"
    using blackhole_times(1,2) [of k] by (simp_all add: blackhole_env_def tick)
  have Z: "\<not> IsZero (second + 16 * second * (int k + 1))" "\<not> IsZero (second + 16 * second * (int k + 2))"
    by (rule time_not_zero, simp)+
  have d: "since (second + 16 * second * (int k + 2)) (second + 16 * second * (int k + 1)) = 16 * second"
      "since (second + 16 * second * (int k + 2)) (second + 16 * second * (int k + 2)) = 0"
    by (simp_all add: since_def second_def algebra_simps)
  have pick: "e_intn blackhole_env i n = 0" for i n by (simp add: blackhole_env_def)
  have num: "100 * millisecond < 16 * second" "\<not> 100 * millisecond < 0" by (simp_all add: millisecond_def second_def)
  show ?thesis
  proof (cases "k mod 2 = 0")
    case True
    then have L: "last_error c 0 = second + 16 * second * (int k + 1)"
        "last_error c (Suc 0) = second + 16 * second * (int k + 2)"
      using assms by (auto simp: stuck_def)
    show ?thesis
      by (simp add: selectAvailable_def cs L E now Z d num pick_def rand_Intn_def pick True) (simp add: tick)
  next
    case False
    then have k: "k mod 2 = 1" by simp
    then have L: "last_error c 0 = second + 16 * second * (int k + 2)"
        "last_error c (Suc 0) = second + 16 * second * (int k + 1)"
      using assms by (auto simp: stuck_def)
    show ?thesis
      by (simp add: selectAvailable_def cs L E now Z d num pick_def rand_Intn_def pick k) (simp add: tick)
  qed
qed

lemma stuck_step:
  assumes "stuck k c s"
  shows "\<exists>c' s'. stuck (Suc k) c' s' \<and> (\<forall>fuel.
    run_state (Availability_Conn blackhole_env (TLSClient_Conn blackhole_env) (Suc fuel) c) s =
    run_state (Availability_Conn blackhole_env (TLSClient_Conn blackhole_env) fuel c') s')"
proof -
  let ?x = "k mod 2" and ?T = "\<lambda>d. second + 16 * second * (int k + d)"
  have "idle (s\<lparr>w_tick := 10 + 6 * k\<rparr>)" "?x < 2" using assms by (auto simp: stuck_def idle_def)
  then obtain s2 er where s2: "run_state (TLSClient_Conn blackhole_env ?x) (s\<lparr>w_tick := 10 + 6 * k\<rparr>) = (Fail er, s2)"
      "w_tick s2 = 11 + 6 * k" "idle s2"
    by (rule idle_refused) simp
  have L: "last_error c ?x = ?T 1" using assms by (simp add: stuck_def)
  have "since (?T 3) (?T 1) = 32 * second"
    using since_blackhole [of 2 "int k + 1"] by (simp add: add.assoc)
  then have late: "since (e_now blackhole_env (w_tick s2)) (last_error c ?x) > failedClientExpiry"
    using blackhole_times(3) [of k] by (simp add: s2 L blackhole_env_def failedClientExpiry_def second_def)
  have Z: "\<not> IsZero (last_error c ?x)" unfolding L by (rule time_not_zero) simp
  let ?c = "c\<lparr>errorExpiry := (errorExpiry c)(?x \<mapsto> 100 * millisecond),
      lastError := (lastError c)(?x \<mapsto> ?T 3)\<rparr>"
  have m: "run_state (mark_failed blackhole_env ?x c) s2 = (?c, s2\<lparr>w_tick := 13 + 6 * k\<rparr>)"
    using late Z blackhole_times(4) [of k] by (simp add: mark_failed_def s2 blackhole_env_def)
  have "stuck (Suc k) ?c (s2\<lparr>w_tick := 13 + 6 * k\<rparr>)"
    using assms s2(3) by (auto simp: stuck_def idle_def mod_Suc less_2_cases_iff algebra_simps split: if_splits)
  moreover have "run_state (Availability_Conn blackhole_env (TLSClient_Conn blackhole_env) (Suc fuel) c) s =
    run_state (Availability_Conn blackhole_env (TLSClient_Conn blackhole_env) fuel ?c) (s2\<lparr>w_tick := 13 + 6 * k\<rparr>)" for fuel
    by (simp add: stuck_select [OF assms] s2(1) m)
  ultimately show ?thesis by blast
qed

lemma stuck_hangs:
  "stuck k c s \<Longrightarrow> fst (fst (run_state (Availability_Conn blackhole_env (TLSClient_Conn blackhole_env) fuel c) s)) = Hang"
proof (induction fuel arbitrary: k c s)
  case (Suc fuel)
  from stuck_step [OF Suc.prems] Suc.IH show ?case by metis
qed simp

lemma outage_begins:
  "\<exists>c s. stuck 0 c s \<and> (\<forall>fuel.
    run_state (Availability_Conn blackhole_env (TLSClient_Conn blackhole_env) (Suc (Suc fuel)) (new_availability [0, 1])) idle_sys =
    run_state (Availability_Conn blackhole_env (TLSClient_Conn blackhole_env) fuel c) s) \<and>
    fst (fst (run_state (Availability_Conn blackhole_env (TLSClient_Conn blackhole_env) (Suc 0) (new_availability [0, 1])) idle_sys)) = Hang"
proof -
  let ?e = blackhole_env and ?c = "new_availability [0, Suc 0]"
  have new: "av_clients ?c = [0, Suc 0]" "last_error ?c x = zero_time" "error_expiry ?c x = 0" for x
    by (simp_all add: new_availability_def last_error_def error_expiry_def)
  have now: "e_now ?e 2 = 17 * second" "e_now ?e 3 = 17 * second" "e_now ?e 6 = 33 * second" and pick: "e_intn ?e i n = 0" for i n
    by (simp_all add: blackhole_env_def blackhole_now_def)
  have "idle (idle_sys\<lparr>w_tick := Suc 0\<rparr>)" by (simp add: idle_def idle_sys_def)
  then obtain er s1 where s1: "run_state (TLSClient_Conn ?e 0) (idle_sys\<lparr>w_tick := Suc 0\<rparr>) = (Fail er, s1)"
      "w_tick s1 = 2" "idle s1" by (rule idle_refused [of _ 0]) auto
  let ?c1 = "?c\<lparr>errorExpiry := (errorExpiry ?c)(0 \<mapsto> 100 * millisecond), lastError := (lastError ?c)(0 \<mapsto> 17 * second)\<rparr>"
  have sel0: "run_state (selectAvailable ?e ?c) idle_sys = (Ret 0, idle_sys\<lparr>w_tick := Suc 0\<rparr>)"
    by (simp add: selectAvailable_def new IsZero_def pick_def rand_Intn_def pick) (simp add: idle_sys_def)
  have m0: "run_state (mark_failed ?e 0 ?c) s1 = (?c1, s1\<lparr>w_tick := 3\<rparr>)"
    by (simp add: mark_failed_def new IsZero_def s1(2) now)
  have Z: "\<not> IsZero (17 * second)" using time_not_zero [of 1] by simp
  have "since (17 * second) (17 * second) = 0" by (simp add: since_def)
  then have sel1: "run_state (selectAvailable ?e ?c1) (s1\<lparr>w_tick := 3\<rparr>) = (Ret (Suc 0), s1\<lparr>w_tick := 5\<rparr>)"
    using Z by (simp add: selectAvailable_def new now pick_def rand_Intn_def pick millisecond_def)
      (simp add: IsZero_def)
  have "idle (s1\<lparr>w_tick := 5\<rparr>)" using s1(3) by (simp add: idle_def)
  then obtain er' s2 where s2: "run_state (TLSClient_Conn ?e (Suc 0)) (s1\<lparr>w_tick := 5\<rparr>) = (Fail er', s2)"
      "w_tick s2 = 6" "idle s2" by (rule idle_refused [of _ "Suc 0"]) auto
  let ?c2 = "?c1\<lparr>errorExpiry := (errorExpiry ?c1)(Suc 0 \<mapsto> 100 * millisecond), lastError := (lastError ?c1)(Suc 0 \<mapsto> 33 * second)\<rparr>"
  have m1: "run_state (mark_failed ?e (Suc 0) ?c1) s2 = (?c2, s2\<lparr>w_tick := 7\<rparr>)"
    by (simp add: mark_failed_def new s2(2) now) (simp add: IsZero_def)
  have "stuck 0 ?c2 (s2\<lparr>w_tick := 7\<rparr>)"
    using s2(3) by (auto simp: stuck_def idle_def new less_2_cases_iff last_error_def error_expiry_def)
  then show ?thesis
    by (intro exI conjI allI, assumption) (simp_all add: sel0 s1(1) m0 sel1 s2(1) m1)
qed

text \<open>
  C37. In such an outage \<open>Conn\<close> of the availability policy never returns: no amount of fuel
  is enough. By the time a client fails again, the 30 s after which its expiry starts
  over have passed, so each attempt makes the other client eligible and the
  recursion goes on as long as the outage does.
\<close>

theorem slow_outage_never_returns:
  "\<forall>fuel. fst (fst (run_state (Availability_Conn blackhole_env (TLSClient_Conn blackhole_env) fuel
     (new_availability [0, 1])) idle_sys)) = Hang"
proof
  fix fuel
  let ?run = "\<lambda>fuel c s. run_state (Availability_Conn blackhole_env (TLSClient_Conn blackhole_env) fuel c) s"
  obtain c s where cs: "stuck 0 c s" "\<And>fuel. ?run (Suc (Suc fuel)) (new_availability [0, 1]) idle_sys = ?run fuel c s"
      "fst (fst (?run (Suc 0) (new_availability [0, 1]) idle_sys)) = Hang"
    using outage_begins by blast
  show "fst (fst (?run fuel (new_availability [0, 1]) idle_sys)) = Hang"
  proof (cases fuel)
    case (Suc f)
    then show ?thesis using cs stuck_hangs [OF cs(1)] by (cases f) auto
  qed simp
qed

section \<open>Requests in parallel\<close>

text \<open>
  Requests of several goroutines. Each reads the maps to select a client, tries to connect
  without holding the mutex, and takes the mutex to record a failure; \<open>F\<close> holds the
  clients that requests in flight have selected. Reading the maps is one step here,
  though the code takes the read lock anew for every candidate.
\<close>

inductive av_reach ::
    "env \<Rightarrow> 'c list \<Rightarrow> world \<Rightarrow> 'c AvailabilityShardedClient \<Rightarrow> 'c list \<Rightarrow> world \<Rightarrow> bool" for e clients s0 where
  start: "av_reach e clients s0 (new_availability clients) [] s0"
| select: "av_reach e clients s0 c F s \<Longrightarrow> run_state (selectAvailable e c) s = (Ret cl, s') \<Longrightarrow>
    av_reach e clients s0 c (cl # F) s'"
| give_up: "av_reach e clients s0 c F s \<Longrightarrow> run_state (selectAvailable e c) s = (Fail er, s') \<Longrightarrow>
    av_reach e clients s0 c F s'"
| connected: "av_reach e clients s0 c F s \<Longrightarrow> k < length F \<Longrightarrow> av_reach e clients s0 c (remove_nth k F) s"
| failed: "av_reach e clients s0 c F s \<Longrightarrow> k < length F \<Longrightarrow> run_state (mark_failed e (F ! k) c) s = (c', s') \<Longrightarrow>
    av_reach e clients s0 c' (remove_nth k F) s'"
| pause: "av_reach e clients s0 c F s \<Longrightarrow> w_tick s \<le> n \<Longrightarrow> av_reach e clients s0 c F (s\<lparr>w_tick := n\<rparr>)"

definition calm_world :: world where
  "calm_world = \<lparr>w_tick = 0, w_socks = [], w_trace = []\<rparr>"

lemma all_select:
  "av_reach calm_env [cl] calm_world (new_availability [cl]) (replicate m cl) (calm_world\<lparr>w_tick := m\<rparr>)"
proof (induction m)
  case 0
  then show ?case using av_reach.start [of calm_env "[cl]" calm_world] by (simp add: calm_world_def)
next
  case (Suc m)
  have "run_state (selectAvailable calm_env (new_availability [cl])) (calm_world\<lparr>w_tick := m\<rparr>) =
      (Ret cl, calm_world\<lparr>w_tick := Suc m\<rparr>)"
    by (simp add: selectAvailable_def new_availability_def last_error_def IsZero_def pick_def rand_Intn_def calm_env_def)
  from av_reach.select [OF Suc this] show ?case by simp
qed

lemma wrap64_backoff: "wrap64 (wrap64 (backoff k) * 2) = wrap64 (backoff (Suc k))"
  by (simp only: wrap64_times) (simp add: backoff_def ac_simps)

lemma all_fail:
  assumes "j < m" "m \<le> 1000"
  shows "\<exists>c s. av_reach calm_env [cl] calm_world c (replicate (m - Suc j) cl) s \<and> w_tick s = Suc (m + 2 * j) \<and>
     last_error c cl = int (Suc (m + 2 * j)) * millisecond \<and> error_expiry c cl = wrap64 (backoff j)"
  using assms(1)
proof (induction j)
  case 0
  let ?s = "calm_world\<lparr>w_tick := m\<rparr>"
  have new: "last_error (new_availability [cl]) cl = zero_time"
    by (simp add: new_availability_def last_error_def)
  obtain c s where run: "run_state (mark_failed calm_env cl (new_availability [cl])) ?s = (c, s)" by (rule prod.exhaust)
  have fits: "in64 (backoff 0)" by (simp add: in64_def backoff_def millisecond_def)
  from run fits have "w_tick s = Suc m" "last_error c cl = int (Suc m) * millisecond" "error_expiry c cl = wrap64 (backoff 0)"
    by (auto simp: mark_failed_def new IsZero_def backoff_def)
  moreover have "av_reach calm_env [cl] calm_world c (replicate (m - 1) cl) s"
    using av_reach.failed [OF all_select [of cl m], of 0 c s] run 0 by (cases m) (auto simp: remove_nth_def)
  ultimately show ?case by auto
next
  case (Suc j)
  then obtain c s where IH: "av_reach calm_env [cl] calm_world c (replicate (m - Suc j) cl) s" "w_tick s = Suc (m + 2 * j)"
      "last_error c cl = int (Suc (m + 2 * j)) * millisecond" "error_expiry c cl = wrap64 (backoff j)"
    by auto
  obtain c' s' where run: "run_state (mark_failed calm_env cl c) s = (c', s')" by (rule prod.exhaust)
  have "\<not> IsZero (last_error c cl)" unfolding IH(3) by (rule IsZero_neg) (simp add: millisecond_def)
  moreover have "\<not> failedClientExpiry < since (e_now calm_env (w_tick s)) (last_error c cl)"
    by (simp add: IH(2,3) since_def failedClientExpiry_def millisecond_def second_def algebra_simps)
  ultimately have "w_tick s' = Suc (m + 2 * Suc j)" "last_error c' cl = int (Suc (m + 2 * Suc j)) * millisecond"
      "error_expiry c' cl = wrap64 (backoff (Suc j))"
    using run by (auto simp: mark_failed_def IH(2,4) wrap64_backoff)
  moreover have "av_reach calm_env [cl] calm_world c' (replicate (m - Suc (Suc j)) cl) s'"
  proof -
    have "m - Suc j = Suc (m - Suc (Suc j))" using Suc.prems by simp
    then show ?thesis using av_reach.failed [OF IH(1), of 0 c' s'] run by (simp add: remove_nth_def)
  qed
  ultimately show ?case by blast
qed



end
