(* ===== verification/DNS_Proxy.thy ===== *)
theory DNS_Proxy
  imports Sharding "HOL-Library.Sublist"
begin

text \<open>
  \<^verbatim>\<open>src/internal/protocol/dns_proxy.go\<close>: the handler that proxies one request. The
  upstream client is a value of an interface, so its method \<open>Conn\<close> is the argument
  \<open>conn\<close>; a panic or a call that never returns passes through. The handler's logger
  calls are events carrying the format string. The two \<open>go\<close> statements that give a
  connection back or destroy it add a task.

  The locale \<open>dns_upstream\<close> states what the handler relies on; theory \<open>Server\<close>
  interprets it on the sharded client over TLS clients.
\<close>

section \<open>Two-octet lengths\<close>

definition BigEndian_PutUint16 :: "16 word \<Rightarrow> bytes" where
  "BigEndian_PutUint16 v = [ucast (drop_bit 8 v), ucast v]"

fun BigEndian_Uint16 :: "bytes \<Rightarrow> 16 word" where
  "BigEndian_Uint16 (a # b # _) = or (ucast b) (push_bit 8 (ucast a))"
| "BigEndian_Uint16 _ = 0"

section \<open>The handler\<close>

datatype Transport = TCP | UDP

record DNSProxyHandler =
  ClientCxIOHook :: io_hook
  UpstreamCxIOHook :: io_hook
  ProxyHook :: proxy_hook
  MaxUpstreamRetries :: int

definition clientRead ::
    "env \<Rightarrow> DNSProxyHandler \<Rightarrow> NetConn \<Rightarrow> ('z world_scheme, bytes gores \<times> NetConn) state" where
  "clientRead e h conn = do {
     ((clientReq, er), conn) \<leftarrow> conn_Read e conn 1024;
     case er of
       Some er \<Rightarrow> do {
         a \<leftarrow> conn_RemoteAddr conn;
         emit (EvIO (ClientCxIOHook h) (IOReadError a));
         pass (Fail (Errorf ''dns_proxy: error reading request from client: err=%v'' (Some er)), conn) }
     | None \<Rightarrow> do {
         latency \<leftarrow> elapsed e;
         a \<leftarrow> conn_RemoteAddr conn;
         emit (EvIO (ClientCxIOHook h) (IORead latency a));
         pass (Ret clientReq, conn) }
   }"

definition upstreamTransact ::
    "env \<Rightarrow> DNSProxyHandler \<Rightarrow> NetConn \<Rightarrow> PersistentConn \<Rightarrow> bytes \<Rightarrow> ('z world_scheme, bytes gores) state" where
  "upstreamTransact e h client upstream clientReq = do {
     (n, er) \<leftarrow> TCPConn_Write e (pc_conn upstream) clientReq;
     if er \<noteq> None \<or> n \<noteq> length clientReq then do {
       a \<leftarrow> TCPConn_RemoteAddr (pc_conn upstream);
       emit (EvIO (UpstreamCxIOHook h) (IOWriteError a));
       pass (Fail (Errorf ''dns_proxy: error writing to upstream: err=%v'' er)) }
     else do {
       latency \<leftarrow> elapsed e;
       a \<leftarrow> TCPConn_RemoteAddr (pc_conn upstream);
       emit (EvIO (UpstreamCxIOHook h) (IOWrite latency a));
       emit (EvLog Debug ''dns_proxy: wrote request to upstream: request_bytes=%d'');
       (upstreamHeader, er) \<leftarrow> TCPConn_Read e (pc_conn upstream) 2;
       if er \<noteq> None \<or> length upstreamHeader \<noteq> 2 then do {
         a \<leftarrow> TCPConn_RemoteAddr (pc_conn upstream);
         emit (EvIO (UpstreamCxIOHook h) (IOReadError a));
         pass (Fail (Errorf ''dns_proxy: error reading header from upstream: err=%v bytes=%d'' er)) }
       else do {
         let respSize = BigEndian_Uint16 upstreamHeader;
         emit (EvLog Debug ''dns_proxy: read upstream header: response_size=%d'');
         (upstreamResp, er) \<leftarrow> TCPConn_Read e (pc_conn upstream) (unat respSize);
         if er \<noteq> None \<or> length upstreamResp \<noteq> unat respSize then do {
           a \<leftarrow> TCPConn_RemoteAddr (pc_conn upstream);
           emit (EvIO (UpstreamCxIOHook h) (IOReadError a));
           pass (Fail (Errorf ''dns_proxy: error reading full response from upstream: err=%v bytes=%d'' er)) }
         else do {
           emit (EvLog Debug ''dns_proxy: read upstream response: response_bytes=%d'');
           latency \<leftarrow> elapsed e;
           a \<leftarrow> TCPConn_RemoteAddr (pc_conn upstream);
           emit (EvIO (UpstreamCxIOHook h) (IORead latency a));
           total \<leftarrow> elapsed e;
           ca \<leftarrow> conn_RemoteAddr client;
           emit (EvProxy (ProxyHook h) (UpstreamLatency total ca a));
           pass (Ret (upstreamHeader @ upstreamResp)) }
       }
     }
   }"

text \<open>\<open>retries\<close> starts positive and only goes down, so it is a natural number.\<close>

fun proxyUpstream ::
    "('z pools_scheme, PersistentConn gores) state \<Rightarrow> env \<Rightarrow> DNSProxyHandler \<Rightarrow> NetConn \<Rightarrow> bytes \<Rightarrow> nat \<Rightarrow>
     ('z pools_scheme, (bytes \<times> PersistentConn) gores) state" where
  "proxyUpstream conn e h client clientReq retries = do {
     r \<leftarrow> conn;
     case r of
       Fail er \<Rightarrow> pass (Fail (Errorf ''dns_proxy: error opening upstream connection: err=%v'' (Some er)))
     | Panic q \<Rightarrow> pass (Panic q)
     | Hang \<Rightarrow> pass Hang
     | Ret upstream \<Rightarrow> do {
         emit (EvLog Debug ''dns_proxy: created upstream connection: conn=%v'');
         t \<leftarrow> upstreamTransact e h client upstream clientReq;
         case t of
           Fail er \<Rightarrow> do {
             spawn (TConnDestroy upstream);
             if retries > 0 then do {
               a \<leftarrow> TCPConn_RemoteAddr (pc_conn upstream);
               emit (EvIO (UpstreamCxIOHook h) (IORetry a));
               emit (EvLog Debug ''dns_proxy: upstream I/O failed; retrying: retry=%d'');
               proxyUpstream conn e h client clientReq (retries - 1) }
             else do {
               emit (EvLog Debug ''dns_proxy: upstream I/O failed; available retries exhausted'');
               pass (Fail er) } }
         | Panic q \<Rightarrow> pass (Panic q)
         | Hang \<Rightarrow> pass Hang
         | Ret resp \<Rightarrow> do {
             spawn (TConnClose upstream);
             emit (EvLog Debug ''dns_proxy: completed upstream proxy: response_bytes=%d'');
             pass (Ret (resp, upstream)) }
       }
   }"

declare proxyUpstream.simps [simp del]

definition clientWrite ::
    "env \<Rightarrow> DNSProxyHandler \<Rightarrow> NetConn \<Rightarrow> bytes \<Rightarrow> ('z world_scheme, unit gores) state" where
  "clientWrite e h conn upstreamResp = do {
     (n, er) \<leftarrow> conn_Write e conn upstreamResp;
     case er of
       Some er \<Rightarrow> do {
         a \<leftarrow> conn_RemoteAddr conn;
         emit (EvIO (ClientCxIOHook h) (IOWriteError a));
         pass (Fail er) }
     | None \<Rightarrow>
         if n \<noteq> length upstreamResp then do {
           a \<leftarrow> conn_RemoteAddr conn;
           emit (EvIO (ClientCxIOHook h) (IOWriteError a));
           pass (Fail (Errorf ''dns_proxy: failed writing response bytes to client: expected=%d actual=%d'' None)) }
         else do {
           latency \<leftarrow> elapsed e;
           a \<leftarrow> conn_RemoteAddr conn;
           emit (EvIO (ClientCxIOHook h) (IOWrite latency a));
           pass (Ret ()) }
   }"

definition frame :: "Transport \<Rightarrow> bytes \<Rightarrow> bytes" where
  "frame transport clientReq =
     (if transport = UDP then BigEndian_PutUint16 (of_nat (length clientReq)) @ clientReq else clientReq)"

definition unframe :: "Transport \<Rightarrow> bytes \<Rightarrow> bytes gores" where
  "unframe transport upstreamResp =
     (if transport = UDP
      then if length upstreamResp < 2 then Panic IndexOutOfRange else Ret (drop 2 upstreamResp)
      else Ret upstreamResp)"

definition maxRetries :: "DNSProxyHandler \<Rightarrow> nat" where
  "maxRetries h = nat (if MaxUpstreamRetries h \<le> 0 then 16 else MaxUpstreamRetries h)"

text \<open>The metrics reported for a completed exchange (lines 104-119).\<close>

definition report ::
    "env \<Rightarrow> DNSProxyHandler \<Rightarrow> NetConn \<Rightarrow> PersistentConn \<Rightarrow> bytes \<Rightarrow> bytes \<Rightarrow> ('z world_scheme, unit) state" where
  "report e h client upstream clientReq upstreamResp = do {
     _ \<leftarrow> elapsed e;
     emit (EvLog Debug ''dns_proxy: completed write back to client: rtt=%v transport=%s'');
     ca \<leftarrow> conn_RemoteAddr client;
     ua \<leftarrow> TCPConn_RemoteAddr (pc_conn upstream);
     emit (EvProxy (ProxyHook h) (Process ca ua));
     emit (EvProxy (ProxyHook h) (RequestSize (int (length clientReq)) ca));
     emit (EvProxy (ProxyHook h) (ResponseSize (int (length upstreamResp)) ua));
     rtt \<leftarrow> elapsed e;
     emit (EvProxy (ProxyHook h) (RTT rtt ca ua))
   }"

definition Handle ::
    "('z pools_scheme, PersistentConn gores) state \<Rightarrow> env \<Rightarrow> DNSProxyHandler \<Rightarrow> Transport \<Rightarrow> NetConn \<Rightarrow>
     ('z pools_scheme, unit gores) state" where
  "Handle conn e h transport clientConn = do {
     (req, clientConn) \<leftarrow> clientRead e h clientConn;
     case req of
       Fail er \<Rightarrow> pass (Fail er) | Panic q \<Rightarrow> pass (Panic q) | Hang \<Rightarrow> pass Hang
     | Ret clientReq \<Rightarrow> do {
         emit (EvLog Debug ''dns_proxy: read request from client: request_bytes=%d transport=%s'');
         let clientReq = frame transport clientReq;
         up \<leftarrow> proxyUpstream conn e h clientConn clientReq (maxRetries h);
         case up of
           Fail er \<Rightarrow> pass (Fail er) | Panic q \<Rightarrow> pass (Panic q) | Hang \<Rightarrow> pass Hang
         | Ret (resp, upstreamConn) \<Rightarrow>
             (case unframe transport resp of
                Fail er \<Rightarrow> pass (Fail er) | Panic q \<Rightarrow> pass (Panic q) | Hang \<Rightarrow> pass Hang
              | Ret upstreamResp \<Rightarrow> do {
                  w \<leftarrow> clientWrite e h clientConn upstreamResp;
                  case w of
                    Fail er \<Rightarrow> pass (Fail er) | Panic q \<Rightarrow> pass (Panic q) | Hang \<Rightarrow> pass Hang
                  | Ret _ \<Rightarrow> do {
                      report e h clientConn upstreamConn clientReq upstreamResp;
                      pass (Ret ()) }
                }) }
   }"

text \<open>\<open>tstr\<close> is the generated method \<open>Transport.String\<close>.\<close>

definition ConsumeError ::
    "(Transport \<Rightarrow> string) \<Rightarrow> DNSProxyHandler \<Rightarrow> Transport \<Rightarrow> go_err \<Rightarrow> ('z world_scheme, unit) state" where
  "ConsumeError tstr h transport er = do {
     emit (EvLog Error ''%v'');
     emit (EvProxy (ProxyHook h) ProxyError);
     emit (EvSentry (tstr transport))
   }"

section \<open>What a program appends\<close>

text \<open>
  \<open>says m Q\<close>: whatever the state, \<open>m\<close> only appends events to the trace and tasks to the
  list of goroutines, and \<open>Q\<close> holds of its result, the events and the tasks.
\<close>

definition says ::
    "('z pools_scheme, 'a) state \<Rightarrow> ('a \<Rightarrow> event list \<Rightarrow> task list \<Rightarrow> bool) \<Rightarrow> bool" where
  "says m Q \<longleftrightarrow> (\<forall>s r s'. run_state m s = (r, s') \<longrightarrow>
     (\<exists>tr ts. w_trace s' = w_trace s @ tr \<and> p_tasks s' = p_tasks s @ ts \<and> Q r tr ts))"

lemma saysD:
  assumes "says m Q" "run_state m s = (r, s')"
  obtains tr ts where "w_trace s' = w_trace s @ tr" "p_tasks s' = p_tasks s @ ts" "Q r tr ts"
  using assms unfolding says_def by blast

lemma says_mono: "says m Q \<Longrightarrow> (\<And>r tr ts. Q r tr ts \<Longrightarrow> Q' r tr ts) \<Longrightarrow> says m Q'"
  unfolding says_def by fast

lemma says_bind:
  assumes "says m Q1" "\<And>a tr ts. Q1 a tr ts \<Longrightarrow> says (f a) (\<lambda>r tr' ts'. Q r (tr @ tr') (ts @ ts'))"
  shows "says (State_Monad.bind m f) Q"
  unfolding says_def
proof (intro allI impI)
  fix s r s' assume "run_state (State_Monad.bind m f) s = (r, s')"
  then obtain a s1 where run: "run_state m s = (a, s1)" "run_state (f a) s1 = (r, s')"
    by (auto split: prod.splits)
  obtain tr ts where 1: "w_trace s1 = w_trace s @ tr" "p_tasks s1 = p_tasks s @ ts" "Q1 a tr ts"
    by (rule saysD [OF assms(1) run(1)])
  obtain tr' ts' where "w_trace s' = w_trace s1 @ tr'" "p_tasks s' = p_tasks s1 @ ts'" "Q r (tr @ tr') (ts @ ts')"
    by (rule saysD [OF assms(2) [OF 1(3)] run(2)])
  with 1 show "\<exists>tr ts. w_trace s' = w_trace s @ tr \<and> p_tasks s' = p_tasks s @ ts \<and> Q r tr ts"
    by (intro exI [of _ "tr @ tr'"] exI [of _ "ts @ ts'"]) simp
qed

lemma says_return: "Q x [] [] \<Longrightarrow> says (State_Monad.return x) Q"
  by (simp add: says_def)

lemma says_emit_bind: "says m (\<lambda>r tr ts. Q r (ev # tr) ts) \<Longrightarrow> says (State_Monad.bind (emit ev) (\<lambda>_. m)) Q"
  by (rule says_bind [of _ "\<lambda>_ tr ts. tr = [ev] \<and> ts = []"]) (auto simp: says_def)

lemma says_emit: "Q () [ev] [] \<Longrightarrow> says (emit ev) Q"
  by (auto simp: says_def)

lemma says_spawn_bind: "says m (\<lambda>r tr ts. Q r tr (t # ts)) \<Longrightarrow> says (State_Monad.bind (spawn t) (\<lambda>_. m)) Q"
  by (rule says_bind [of _ "\<lambda>_ tr ts. tr = [] \<and> ts = [t]"]) (auto simp: says_def)

text \<open>Reading the clock or an address says nothing.\<close>

lemma says_silent_bind:
  assumes "says m (\<lambda>_ tr ts. tr = [] \<and> ts = [])" "\<And>a. says (f a) Q"
  shows "says (State_Monad.bind m f) Q"
  by (rule says_bind [OF assms(1)]) (use assms(2) in auto)

lemma says_nothing:
  "says (elapsed e) (\<lambda>_ tr ts. tr = [] \<and> ts = [])" "says (TCPConn_RemoteAddr c) (\<lambda>_ tr ts. tr = [] \<and> ts = [])"
  "says (conn_RemoteAddr nc) (\<lambda>_ tr ts. tr = [] \<and> ts = [])"
  by (cases nc; auto simp: says_def TCPConn_RemoteAddr_def)+

lemmas says_steps = says_emit_bind says_spawn_bind says_nothing [THEN says_silent_bind]

lemma says_if: "(b \<Longrightarrow> says m Q) \<Longrightarrow> (\<not> b \<Longrightarrow> says n Q) \<Longrightarrow> says (if b then m else n) Q"
  by simp

lemma says_write:
  "says (TCPConn_Write e c b) (\<lambda>(n, er) tr ts. ts = [] \<and> (er = None \<longrightarrow> tr = [EvWrote (tc_sock c) (take n b)]))"
  unfolding says_def
proof (intro allI impI)
  fix s :: "'a pools_scheme" and r s' assume run: "run_state (TCPConn_Write e c b) s = (r, s')"
  have "p_tasks s' = p_tasks s" using hushedD [OF hushed_TCPConn(2) run] by (auto simp: quiet_def)
  moreover have "\<exists>tr. w_trace s' = w_trace s @ tr \<and> (snd r = None \<longrightarrow> tr = [EvWrote (tc_sock c) (take (fst r) b)])"
    using run by (auto simp: TCPConn_Write_def SetWriteDeadline_def sock_write_def
        split: if_splits option.splits prod.splits dest!: set_deadline_trace)
  ultimately show "\<exists>tr ts. w_trace s' = w_trace s @ tr \<and> p_tasks s' = p_tasks s @ ts \<and>
      (case r of (n, er) \<Rightarrow> \<lambda>tr ts. ts = [] \<and> (er = None \<longrightarrow> tr = [EvWrote (tc_sock c) (take n b)])) tr ts"
    by (cases r) auto
qed

lemma says_read:
  "says (TCPConn_Read e c k) (\<lambda>(b, er) tr ts. ts = [] \<and> (er = None \<longrightarrow> tr = [EvRead (tc_sock c) b]) \<and>
     (env_ok e \<longrightarrow> length b \<le> k))"
  unfolding says_def
proof (intro allI impI)
  fix s :: "'a pools_scheme" and r s' assume run: "run_state (TCPConn_Read e c k) s = (r, s')"
  have "p_tasks s' = p_tasks s" using hushedD [OF hushed_TCPConn(1) run] by (auto simp: quiet_def)
  moreover have "\<exists>tr. w_trace s' = w_trace s @ tr \<and> (snd r = None \<longrightarrow> tr = [EvRead (tc_sock c) (fst r)]) \<and>
      (env_ok e \<longrightarrow> length (fst r) \<le> k)"
    using run by (auto simp: TCPConn_Read_def SetReadDeadline_def sock_read_def env_ok_def
        split: if_splits option.splits prod.splits dest!: set_deadline_trace)
  ultimately show "\<exists>tr ts. w_trace s' = w_trace s @ tr \<and> p_tasks s' = p_tasks s @ ts \<and>
      (case r of (b, er) \<Rightarrow> \<lambda>tr ts. ts = [] \<and> (er = None \<longrightarrow> tr = [EvRead (tc_sock c) b]) \<and>
        (env_ok e \<longrightarrow> length b \<le> k)) tr ts"
    by (cases r) auto
qed

section \<open>An exchange with the upstream server\<close>

definition answered :: "PersistentConn \<Rightarrow> bytes \<Rightarrow> bytes \<Rightarrow> event list \<Rightarrow> bool" where
  "answered pc req resp tr \<longleftrightarrow> (\<exists>hdr body. resp = hdr @ body \<and> length hdr = 2 \<and>
     length body = unat (BigEndian_Uint16 hdr) \<and>
     subseq [EvWrote (tc_sock (pc_conn pc)) req, EvRead (tc_sock (pc_conn pc)) hdr, EvRead (tc_sock (pc_conn pc)) body] tr)"

lemma answeredI:
  "length hdr = 2 \<Longrightarrow> length body = unat (BigEndian_Uint16 hdr) \<Longrightarrow>
   subseq [EvWrote (tc_sock (pc_conn pc)) req, EvRead (tc_sock (pc_conn pc)) hdr, EvRead (tc_sock (pc_conn pc)) body] tr \<Longrightarrow>
   answered pc req (hdr @ body) tr"
  unfolding answered_def by blast

lemma answered_mono: "answered pc req resp tr \<Longrightarrow> subseq tr tr' \<Longrightarrow> answered pc req resp tr'"
  unfolding answered_def by (elim exE conjE) (intro exI conjI; (assumption | rule subseq_order.trans))

lemma says_prod: "(\<And>a b. p = (a, b) \<Longrightarrow> says (f a b) Q) \<Longrightarrow> says (case p of (a, b) \<Rightarrow> f a b) Q"
  by (cases p) simp

lemma transact_says:
  "says (upstreamTransact e h client pc req)
     (\<lambda>r tr ts. ts = [] \<and> ((\<exists>er. r = Fail er) \<or> (\<exists>resp. r = Ret resp \<and> answered pc req resp tr)))"
  unfolding upstreamTransact_def Let_def
  apply (rule says_bind [OF says_write])
  apply (rule says_prod, simp only: prod.case)
  apply (rule says_if)
   apply (intro says_steps says_return, force)
  apply (intro says_steps)
  apply (rule says_bind [OF says_read])
  apply (rule says_prod, simp only: prod.case)
  apply (rule says_if)
   apply (intro says_steps says_return, force)
  apply (intro says_steps)
  apply (rule says_bind [OF says_read])
  apply (rule says_prod, simp only: prod.case)
  apply (rule says_if)
   apply (intro says_steps says_return, force)
  apply (intro says_steps says_return)
  apply (auto simp: answeredI)
  done

fun handover :: "task \<Rightarrow> bool" where
  "handover (TConnClose pc) = True"
| "handover (TConnDestroy pc) = True"
| "handover _ = False"

abbreviation handed :: "task list \<Rightarrow> task list" where
  "handed \<equiv> filter handover"

text \<open>
  \<open>proxied retries req r tr ts\<close>: what an attempt with a budget of \<open>retries\<close> has done when it ends in \<open>r\<close>.
  It fails only if no connection could be opened, or if all attempts have been used up.
\<close>

definition open_failed :: "go_err \<Rightarrow> bool" where
  "open_failed er \<longleftrightarrow> (\<exists>er'. er = Errorf ''dns_proxy: error opening upstream connection: err=%v'' (Some er'))"

definition proxied :: "nat \<Rightarrow> bytes \<Rightarrow> (bytes \<times> PersistentConn) gores \<Rightarrow> event list \<Rightarrow> task list \<Rightarrow> bool" where
  "proxied retries req r tr ts \<longleftrightarrow> (\<exists>ps. length ps \<le> Suc retries \<and>
     (case r of
        Ret (resp, pc) \<Rightarrow> handed ts = map TConnDestroy ps @ [TConnClose pc] \<and> length ps \<le> retries \<and> answered pc req resp tr
      | Fail er \<Rightarrow> handed ts = map TConnDestroy ps \<and> (open_failed er \<or> length ps = Suc retries)
      | _ \<Rightarrow> handed ts = map TConnDestroy ps \<and> length ps \<le> retries))"

lemma proxied_Fail:
  "handed ts = [] \<Longrightarrow> (\<And>x. r \<noteq> Ret x) \<Longrightarrow> (\<And>er. r = Fail er \<Longrightarrow> open_failed er) \<Longrightarrow> proxied n req r tr ts"
  unfolding proxied_def by (rule exI [of _ "[]"]) (auto split: gores.splits)

lemma proxied_retry:
  assumes "proxied n req r tr' ts'" "handed ts = TConnDestroy pc # handed ts'" "subseq tr' tr"
  shows "proxied (Suc n) req r tr ts"
proof -
  obtain ps where "length ps \<le> Suc n" "case r of
        Ret (resp, pc) \<Rightarrow> handed ts' = map TConnDestroy ps @ [TConnClose pc] \<and> length ps \<le> n \<and> answered pc req resp tr'
      | Fail er \<Rightarrow> handed ts' = map TConnDestroy ps \<and> (open_failed er \<or> length ps = Suc n)
      | _ \<Rightarrow> handed ts' = map TConnDestroy ps \<and> length ps \<le> n"
    using assms(1) unfolding proxied_def by blast
  then show ?thesis
    unfolding proxied_def using assms(2,3)
    by (intro exI [of _ "pc # ps"]) (auto split: gores.splits intro: answered_mono)
qed

lemma subseq_later:
  "subseq xs (zs @ xs)" "subseq xs ys \<Longrightarrow> subseq xs (z # ys)" "subseq xs ys \<Longrightarrow> subseq xs (zs @ ys)"
  "subseq xs ys \<Longrightarrow> subseq xs (ys @ zs)"
  by (blast intro: subseq_drop_many list_emb_Cons subseq_rev_drop_many subseq_order.refl)+

lemma subseq_middle: "subseq ys (xs @ z # ys @ ws)"
  by (rule subseq_later(3), rule subseq_later(2), rule subseq_later(4)) simp

lemma attempt_says:
  assumes conn: "says conn (\<lambda>r tr ts. handed ts = [])"
    and IH: "0 < retries \<Longrightarrow> says (proxyUpstream conn e h client req (retries - 1)) (proxied (retries - 1) req)"
  shows "says (proxyUpstream conn e h client req retries) (proxied retries req)"
proof (subst proxyUpstream.simps, rule says_bind [OF conn], goal_cases)
  case (1 r tr0 ts0)
  note 0 = this
  show ?case
  proof (cases r)
    case (Ret up)
    show ?thesis
      unfolding Ret gores.case
    proof (intro says_steps, rule says_bind [OF transact_says], elim conjE disjE exE, goal_cases)
      case (1 t tr1 ts1 er)
      show ?case
        unfolding \<open>t = Fail er\<close> gores.case
      proof (intro says_steps says_if, goal_cases)
        case 1
        have "proxied (retries - 1) req r' tr' ts' \<Longrightarrow>
            proxied (Suc (retries - 1)) req r' (tr0 @ zs @ tr1 @ ys @ tr') (ts0 @ ts1 @ TConnDestroy up # ts')" for r' tr' ts' zs ys
          using subseq_later(1) [of tr' "tr0 @ zs @ tr1 @ ys"]
          by (intro proxied_retry [where pc = up]) (simp_all add: 0 \<open>ts1 = []\<close>)
        from this [where zs = "[_]" and ys = "[_, _]"] 1 show ?case
          by (intro says_mono [OF IH [OF 1]]) simp
      next
        case 2
        then show ?case
          by (intro says_return) (auto simp: proxied_def 0 \<open>ts1 = []\<close> intro!: exI [of _ "[up]"])
      qed
    next
      case (2 t tr1 ts1 resp)
      show ?case
        unfolding 2(2) gores.case
        by (intro says_steps says_return)
          (auto simp: proxied_def 0 2 intro!: exI [of _ "[]"] answered_mono [OF 2(3)] subseq_middle)
    qed
  qed (use 1 in \<open>auto simp: open_failed_def intro!: says_return proxied_Fail\<close>)
qed

lemma proxyUpstream_says:
  assumes "says conn (\<lambda>r tr ts. handed ts = [])"
  shows "says (proxyUpstream conn e h client req retries) (proxied retries req)"
proof (induction retries)
  case 0
  show ?case by (rule attempt_says [OF assms]) simp
next
  case (Suc retries)
  show ?case by (rule attempt_says [OF assms]) (simp add: Suc)
qed

section \<open>The whole request\<close>

lemma env_ok_readfrom: "env_ok e \<Longrightarrow> e_readfrom e i c k = (b, a, er) \<Longrightarrow> length b \<le> k"
  by (metis env_ok_def fst_conv)

fun got :: "NetConn \<Rightarrow> bytes \<Rightarrow> event" where
  "got (NetTCP c) b = EvRead (tc_sock c) b"
| "got (NetUDP u) b = EvRecvFrom (uc_conn u) (uc_remote u) b"

fun gave :: "NetConn \<Rightarrow> bytes \<Rightarrow> event" where
  "gave (NetTCP c) b = EvWrote (tc_sock c) b"
| "gave (NetUDP u) b = EvSentTo (uc_conn u) (the (uc_remote u)) b"

fun same_socket :: "NetConn \<Rightarrow> NetConn \<Rightarrow> bool" where
  "same_socket (NetTCP c) (NetTCP c') = (c' = c)"
| "same_socket (NetUDP u) (NetUDP u') = (uc_conn u' = uc_conn u)"
| "same_socket _ _ = False"

lemma conn_Read_says:
  "says (conn_Read e client k) (\<lambda>((b, er), client') tr ts. ts = [] \<and> same_socket client client' \<and>
     (er = None \<longrightarrow> tr = [got client' b]) \<and> (env_ok e \<longrightarrow> length b \<le> k))"
proof (cases client)
  case (NetTCP c)
  then show ?thesis
    by (simp, intro says_bind [OF says_read] says_return) (auto split: prod.splits)
next
  case (NetUDP u)
  show ?thesis
    unfolding says_def
  proof (intro allI impI)
    fix s :: "'a pools_scheme" and r s' assume run: "run_state (conn_Read e client k) s = (r, s')"
    have "p_tasks s' = p_tasks s" using hushedD [OF hushed_conn(1) run] by (auto simp: quiet_def)
    moreover obtain b er u' where r: "r = ((b, er), NetUDP u')" "run_state (UDPConn_Read e u k) s = (((b, er), u'), s')"
      using run NetUDP by (auto split: prod.splits)
    have "uc_conn u' = uc_conn u \<and> (\<exists>tr. w_trace s' = w_trace s @ tr \<and>
        (er = None \<longrightarrow> tr = [EvRecvFrom (uc_conn u) (uc_remote u') b])) \<and> (env_ok e \<longrightarrow> length b \<le> k)"
      using r(2) by (auto simp: UDPConn_Read_def SetReadDeadline_def sock_readfrom_def
          split: if_splits option.splits prod.splits dest!: set_deadline_trace dest: env_ok_readfrom)
    ultimately show "\<exists>tr ts. w_trace s' = w_trace s @ tr \<and> p_tasks s' = p_tasks s @ ts \<and>
        (case r of (x, client') \<Rightarrow> (case x of (b, er) \<Rightarrow> \<lambda>client' tr ts. ts = [] \<and> same_socket client client' \<and>
          (er = None \<longrightarrow> tr = [got client' b]) \<and> (env_ok e \<longrightarrow> length b \<le> k)) client') tr ts"
      using NetUDP r(1) by auto
  qed
qed

lemma conn_Write_says:
  "says (conn_Write e client b) (\<lambda>(n, er) tr ts. ts = [] \<and> (er = None \<longrightarrow> tr = [gave client (take n b)] \<and>
     (\<forall>u. client = NetUDP u \<longrightarrow> uc_remote u \<noteq> None)))"
proof (cases client)
  case (NetTCP c)
  then show ?thesis using says_write [of e c b] by simp
next
  case (NetUDP u)
  show ?thesis
    unfolding says_def
  proof (intro allI impI)
    fix s :: "'a pools_scheme" and r s' assume run: "run_state (conn_Write e client b) s = (r, s')"
    have "p_tasks s' = p_tasks s" using hushedD [OF hushed_conn(2) run] by (auto simp: quiet_def)
    moreover have "\<exists>tr. w_trace s' = w_trace s @ tr \<and> (snd r = None \<longrightarrow>
        tr = [EvSentTo (uc_conn u) (the (uc_remote u)) (take (fst r) b)] \<and> uc_remote u \<noteq> None)"
      using run NetUDP by (auto simp: UDPConn_Write_def SetWriteDeadline_def sock_writeto_def
          split: if_splits option.splits prod.splits dest!: set_deadline_trace)
    ultimately show "\<exists>tr ts. w_trace s' = w_trace s @ tr \<and> p_tasks s' = p_tasks s @ ts \<and>
        (case r of (n, er) \<Rightarrow> \<lambda>tr ts. ts = [] \<and> (er = None \<longrightarrow> tr = [gave client (take n b)] \<and>
          (\<forall>u. client = NetUDP u \<longrightarrow> uc_remote u \<noteq> None))) tr ts"
      using NetUDP by (cases r) auto
  qed
qed

lemma says_option:
  "(x = None \<Longrightarrow> says m Q) \<Longrightarrow> (\<And>y. x = Some y \<Longrightarrow> says (f y) Q) \<Longrightarrow> says (case x of None \<Rightarrow> m | Some y \<Rightarrow> f y) Q"
  by (cases x) auto

lemma clientRead_says:
  "says (clientRead e h client) (\<lambda>(r, client') tr ts. ts = [] \<and> same_socket client client' \<and>
     ((\<exists>er. r = Fail er) \<or> (\<exists>b evs. r = Ret b \<and> tr = got client' b # evs \<and> (env_ok e \<longrightarrow> length b \<le> 1024))))"
  unfolding clientRead_def
  by (rule says_bind [OF conn_Read_says])
    (auto intro!: says_steps says_return says_option split: prod.splits)

lemma clientWrite_says:
  "says (clientWrite e h client b) (\<lambda>r tr ts. ts = [] \<and>
     ((\<exists>er. r = Fail er) \<or> (\<exists>evs. r = Ret () \<and> tr = gave client b # evs \<and>
        (\<forall>u. client = NetUDP u \<longrightarrow> uc_remote u \<noteq> None))))"
  unfolding clientWrite_def
  by (rule says_bind [OF conn_Write_says])
    (auto intro!: says_steps says_return says_option says_if split: prod.splits)

lemma report_says: "says (report e h client pc req resp) (\<lambda>_ tr ts. ts = [])"
  unfolding report_def by (intro says_steps says_emit) simp

definition exchanged :: "env \<Rightarrow> Transport \<Rightarrow> NetConn \<Rightarrow> nat \<Rightarrow> event list \<Rightarrow> task list \<Rightarrow> bool" where
  "exchanged e transport client retries tr ts \<longleftrightarrow>
     (\<exists>client' b pc hdr body ps. same_socket client client' \<and> (env_ok e \<longrightarrow> length b \<le> 1024) \<and>
        length hdr = 2 \<and> length body = unat (BigEndian_Uint16 hdr) \<and>
        (\<forall>u. client' = NetUDP u \<longrightarrow> uc_remote u \<noteq> None) \<and>
        handed ts = map TConnDestroy ps @ [TConnClose pc] \<and> length ps \<le> retries \<and>
        subseq [got client' b, EvWrote (tc_sock (pc_conn pc)) (frame transport b),
                EvRead (tc_sock (pc_conn pc)) hdr, EvRead (tc_sock (pc_conn pc)) body,
                gave client' (if transport = UDP then body else hdr @ body)] tr)"

definition handled :: "env \<Rightarrow> Transport \<Rightarrow> NetConn \<Rightarrow> nat \<Rightarrow> unit gores \<Rightarrow> event list \<Rightarrow> task list \<Rightarrow> bool" where
  "handled e transport client retries r tr ts \<longleftrightarrow>
     (r = Ret () \<longrightarrow> exchanged e transport client retries tr ts) \<and>
     (\<exists>ps cs. handed ts = map TConnDestroy ps @ map TConnClose cs \<and> length ps \<le> Suc retries \<and> length cs \<le> 1 \<and>
        (cs \<noteq> [] \<longrightarrow> length ps \<le> retries))"

lemma handled_error:
  assumes "proxied retries req p tr' ts" "r \<noteq> Ret ()"
  shows "handled e transport client retries r tr ts"
proof -
  obtain ps where ps: "length ps \<le> Suc retries" "case p of
      Ret (resp, pc) \<Rightarrow> handed ts = map TConnDestroy ps @ [TConnClose pc] \<and> length ps \<le> retries \<and> answered pc req resp tr'
    | Fail er \<Rightarrow> handed ts = map TConnDestroy ps \<and> (open_failed er \<or> length ps = Suc retries)
    | _ \<Rightarrow> handed ts = map TConnDestroy ps \<and> length ps \<le> retries"
    using assms(1) unfolding proxied_def by blast
  have "\<exists>cs. handed ts = map TConnDestroy ps @ map TConnClose cs \<and> length cs \<le> 1 \<and> (cs \<noteq> [] \<longrightarrow> length ps \<le> retries)"
  proof (cases p)
    case (Ret y)
    with ps(2) show ?thesis by (intro exI [of _ "[snd y]"]) (auto split: prod.splits)
  qed (use ps(2) in \<open>auto intro!: exI [of _ "[]"]\<close>)
  with ps(1) assms(2) show ?thesis unfolding handled_def by blast
qed

lemma handled_early: "r \<noteq> Ret () \<Longrightarrow> handled e transport client retries r tr []"
  by (rule handled_error [of _ "[]" Hang "[]"]) (auto intro: proxied_Fail)

lemma answered_unframe:
  assumes "answered pc req resp tr"
  shows "\<exists>out. unframe transport resp = Ret out"
  using assms by (auto simp: answered_def unframe_def)

lemma subseq_framed:
  "subseq ys tr \<Longrightarrow> subseq (x # ys @ [z]) (x # evs @ tr @ z # evs')"
proof -
  assume "subseq ys tr"
  then have "subseq (ys @ [z]) (tr @ z # evs')" by (intro list_emb_append_mono) simp_all
  then have "subseq (ys @ [z]) (evs @ tr @ z # evs')" by (rule subseq_later(3))
  then show ?thesis by simp
qed

lemma handled_done:
  assumes "same_socket client client'" "env_ok e \<longrightarrow> length b \<le> 1024"
    and "proxied retries (frame transport b) (Ret (resp, pc)) tr1 ts" "unframe transport resp = Ret out"
    and "\<forall>u. client' = NetUDP u \<longrightarrow> uc_remote u \<noteq> None"
  shows "handled e transport client retries (Ret ()) (got client' b # evs @ tr1 @ gave client' out # evs') ts"
proof -
  obtain ps where ps: "handed ts = map TConnDestroy ps @ [TConnClose pc]" "length ps \<le> retries"
      "answered pc (frame transport b) resp tr1"
    using assms(3) by (auto simp: proxied_def)
  obtain hdr body where hb: "resp = hdr @ body" "length hdr = 2" "length body = unat (BigEndian_Uint16 hdr)"
      "subseq [EvWrote (tc_sock (pc_conn pc)) (frame transport b), EvRead (tc_sock (pc_conn pc)) hdr,
         EvRead (tc_sock (pc_conn pc)) body] tr1"
    using ps(3) by (auto simp: answered_def)
  have out: "out = (if transport = UDP then body else hdr @ body)"
    using assms(4) hb by (auto simp: unframe_def split: if_splits)
  have "exchanged e transport client retries (got client' b # evs @ tr1 @ gave client' out # evs') ts"
    unfolding exchanged_def
    using assms(1,2,5) ps(1,2) hb(2,3) subseq_framed [OF hb(4), of "got client' b" "gave client' out" evs evs']
    unfolding out append.simps by blast
  then show ?thesis
    using ps(1,2) unfolding handled_def by (intro conjI impI exI [of _ ps] exI [of _ "[pc]"]) auto
qed

lemma Handle_says:
  assumes "says conn (\<lambda>r tr ts. handed ts = [])"
  shows "says (Handle conn e h transport client) (handled e transport client (maxRetries h))"
  unfolding Handle_def Let_def
proof (rule says_bind [OF clientRead_says], goal_cases)
  case (1 x tr0 ts0)
  obtain r client' where x: "x = (r, client')" by (rule prod.exhaust)
  with 1 have ts0: "ts0 = []" and same: "same_socket client client'"
    and r: "(\<exists>er. r = Fail er) \<or> (\<exists>b evs. r = Ret b \<and> tr0 = got client' b # evs \<and> (env_ok e \<longrightarrow> length b \<le> 1024))"
    by auto
  from r show ?case
    unfolding x ts0 prod.case
  proof (elim disjE exE conjE, goal_cases)
    case (1 er)
    then show ?case by (auto intro!: says_return handled_early)
  next
    case (2 b evs)
    note read = this
    show ?case
      unfolding read(1,2) gores.case
    proof (intro says_emit_bind, rule says_bind [OF proxyUpstream_says [OF assms]], goal_cases)
      case (1 up tr1 ts1)
      note up = this
      show ?case
      proof (cases up)
        case (Ret y)
        obtain resp pc where y: "y = (resp, pc)" by (rule prod.exhaust)
        have "answered pc (frame transport b) resp tr1" using up Ret y by (auto simp: proxied_def)
        then obtain out where out: "unframe transport resp = Ret out" using answered_unframe by blast
        have up': "proxied (maxRetries h) (frame transport b) (Ret (resp, pc)) tr1 ts1" using up Ret y by simp
        show ?thesis
          unfolding Ret y gores.case prod.case out
        proof (rule says_bind [OF clientWrite_says], elim conjE disjE exE, goal_cases)
          case (1 w tr2 ts2 er)
          then show ?case using handled_error [OF up'] by (auto intro!: says_return)
        next
          case (2 w tr2 ts2 evs')
          show ?case
            unfolding 2 gores.case
          proof (rule says_bind [OF report_says], rule says_return, goal_cases)
            case (1 u tr3 ts3)
            with handled_done [OF same read(3) up' out 2(4), of "evs @ [_]" "evs' @ tr3"] show ?case by simp
          qed
        qed
      qed (use handled_error [OF up] in \<open>auto intro!: says_return\<close>)
    qed
  qed
qed

section \<open>The handler touches no socket but those it is given\<close>

lemma hushed_prod2 [hushed_rules]:
  "(\<And>a b. hushed (f a b y)) \<Longrightarrow> hushed ((case x of (a, b) \<Rightarrow> f a b) y)"
  by (cases x) auto

lemma hushed_handler [hushed_rules]:
  "hushed (clientRead e h client)" "hushed (upstreamTransact e h client pc req)" "hushed (clientWrite e h client b)"
  "hushed (report e h client pc req b)" "hushed (ConsumeError tstr h transport er)"
  unfolding clientRead_def upstreamTransact_def clientWrite_def report_def ConsumeError_def Let_def
  by (intro hushed_rules; simp)+

lemma get_sock_tasks: "get_sock (s\<lparr>p_tasks := ts\<rparr>) c = get_sock s c"
  by (simp add: get_sock_def)

lemma transact_returns:
  "run_state (upstreamTransact e h client pc req) (s :: 'z pools_scheme) = (t, s') \<Longrightarrow> returns t"
  by (erule saysD [OF transact_says]) auto

section \<open>Properties\<close>

lemma uint16_decode: "BigEndian_Uint16 (BigEndian_PutUint16 v @ b) = v"
  unfolding BigEndian_PutUint16_def
  by (rule bit_word_eqI) (auto simp: bit_simps not_less less_Suc_eq_le dest: bit_imp_le_length)

lemma uint16_encode: "BigEndian_PutUint16 (BigEndian_Uint16 [x, y]) = [x, y]"
  unfolding BigEndian_PutUint16_def
  by (auto intro!: bit_word_eqI simp: bit_simps) (use bit_imp_le_length [of y] in fastforce)

text \<open>
  C33. The two-octet length header is right. Encoding and decoding of 16-bit lengths are
  inverse to each other; the header put before a UDP request of fewer than 65536
  octets, and a request is at most 1024 octets long, decodes to its length; and
  dropping the header from a framed message gives the message back.
\<close>

theorem frame_roundtrip:
  assumes "length b < 2 ^ 16"
  shows "unat (BigEndian_Uint16 (frame UDP b)) = length b \<and> unframe UDP (frame UDP b) = Ret b \<and>
    length (frame UDP b) = length b + 2 \<and> frame TCP b = b \<and>
    BigEndian_PutUint16 (BigEndian_Uint16 [x, y]) = [x, y] \<and> BigEndian_Uint16 (BigEndian_PutUint16 v) = v"
proof -
  have "unat (BigEndian_Uint16 (frame UDP b)) = length b"
    using assms by (simp add: frame_def uint16_decode unat_of_nat take_bit_nat_eq_self)
  then show ?thesis
    using uint16_decode [of v "[]"] uint16_encode [of x y]
    by (simp add: frame_def unframe_def) (simp add: BigEndian_PutUint16_def)
qed

theorem frame_roundtrip_witness:
  "unat (BigEndian_Uint16 (frame UDP (replicate 300 7))) = 300 \<and>
   BigEndian_Uint16 (BigEndian_PutUint16 0xABCD) = 0xABCD"
  using frame_roundtrip [of "replicate 300 7" 1 2 "0xABCD"] by simp

end
