(* ===== verification/Request_Phases.thy ===== *)
theory Request_Phases
  imports DNS_Proxy
begin

text \<open>
  The handler of \<^verbatim>\<open>src/internal/protocol/dns_proxy.go\<close> cut into phases at the points where a
  request touches what it shares with others: reading the request, acquiring an upstream
  connection, the exchange on it, the answer. The definitions repeat the bodies of
  \<open>Handle\<close> and \<open>proxyUpstream\<close>; run without interruption the phases are \<open>Handle\<close>, and this is
  proved. The locale \<open>dns_upstream\<close> is what the handler relies on in its upstream client;
  from it follows what each phase owns.
\<close>

section \<open>The phases of a request\<close>

datatype phase =
    Reading NetConn
  | Acquiring NetConn bytes nat
  | Exchanging NetConn bytes nat PersistentConn
  | Answering NetConn bytes PersistentConn bytes
  | Finished "unit gores"

fun phase_step ::
    "('z pools_scheme, PersistentConn gores) state \<Rightarrow> env \<Rightarrow> DNSProxyHandler \<Rightarrow> Transport \<Rightarrow> phase \<Rightarrow>
     ('z pools_scheme, phase) state" where
  "phase_step conn e h transport (Reading client) = do {
     (req, client) \<leftarrow> clientRead e h client;
     case req of
       Fail er \<Rightarrow> pass (Finished (Fail er)) | Panic q \<Rightarrow> pass (Finished (Panic q)) | Hang \<Rightarrow> pass (Finished Hang)
     | Ret clientReq \<Rightarrow> do {
         emit (EvLog Debug ''dns_proxy: read request from client: request_bytes=%d transport=%s'');
         pass (Acquiring client (frame transport clientReq) (maxRetries h)) }
   }"
| "phase_step conn e h transport (Acquiring client clientReq retries) = do {
     r \<leftarrow> conn;
     case r of
       Fail er \<Rightarrow> pass (Finished (Fail (Errorf ''dns_proxy: error opening upstream connection: err=%v'' (Some er))))
     | Panic q \<Rightarrow> pass (Finished (Panic q)) | Hang \<Rightarrow> pass (Finished Hang)
     | Ret upstream \<Rightarrow> do {
         emit (EvLog Debug ''dns_proxy: created upstream connection: conn=%v'');
         pass (Exchanging client clientReq retries upstream) }
   }"
| "phase_step conn e h transport (Exchanging client clientReq retries upstream) = do {
     t \<leftarrow> upstreamTransact e h client upstream clientReq;
     case t of
       Fail er \<Rightarrow> do {
         spawn (TConnDestroy upstream);
         if retries > 0 then do {
           a \<leftarrow> TCPConn_RemoteAddr (pc_conn upstream);
           emit (EvIO (UpstreamCxIOHook h) (IORetry a));
           emit (EvLog Debug ''dns_proxy: upstream I/O failed; retrying: retry=%d'');
           pass (Acquiring client clientReq (retries - 1)) }
         else do {
           emit (EvLog Debug ''dns_proxy: upstream I/O failed; available retries exhausted'');
           pass (Finished (Fail er)) } }
     | Panic q \<Rightarrow> pass (Finished (Panic q)) | Hang \<Rightarrow> pass (Finished Hang)
     | Ret resp \<Rightarrow> do {
         spawn (TConnClose upstream);
         emit (EvLog Debug ''dns_proxy: completed upstream proxy: response_bytes=%d'');
         pass (Answering client clientReq upstream resp) }
   }"
| "phase_step conn e h transport (Answering client clientReq upstream resp) =
     (case unframe transport resp of
        Fail er \<Rightarrow> pass (Finished (Fail er)) | Panic q \<Rightarrow> pass (Finished (Panic q)) | Hang \<Rightarrow> pass (Finished Hang)
      | Ret upstreamResp \<Rightarrow> do {
          w \<leftarrow> clientWrite e h client upstreamResp;
          case w of
            Fail er \<Rightarrow> pass (Finished (Fail er)) | Panic q \<Rightarrow> pass (Finished (Panic q)) | Hang \<Rightarrow> pass (Finished Hang)
          | Ret _ \<Rightarrow> do {
              report e h client upstream clientReq upstreamResp;
              pass (Finished (Ret ())) } })"
| "phase_step conn e h transport (Finished r) = pass (Finished r)"

fun run_phases ::
    "('z pools_scheme, PersistentConn gores) state \<Rightarrow> env \<Rightarrow> DNSProxyHandler \<Rightarrow> Transport \<Rightarrow> nat \<Rightarrow> phase \<Rightarrow>
     ('z pools_scheme, phase) state" where
  "run_phases conn e h transport 0 ph = pass ph"
| "run_phases conn e h transport (Suc k) ph = do {
     ph' \<leftarrow> phase_step conn e h transport ph;
     run_phases conn e h transport k ph' }"

lemma run_phases_Finished [simp]: "run_phases conn e h transport k (Finished r) = pass (Finished r)"
  by (induction k) simp_all

section \<open>Without interruption the phases are the handler\<close>

text \<open>What remains of \<open>Handle\<close> at each phase.\<close>

definition answer ::
    "env \<Rightarrow> DNSProxyHandler \<Rightarrow> Transport \<Rightarrow> NetConn \<Rightarrow> bytes \<Rightarrow> (bytes \<times> PersistentConn) gores \<Rightarrow>
     ('z pools_scheme, unit gores) state" where
  "answer e h transport client clientReq res = (case res of
      Fail er \<Rightarrow> pass (Fail er) | Panic q \<Rightarrow> pass (Panic q) | Hang \<Rightarrow> pass Hang
    | Ret (resp, upstream) \<Rightarrow>
        (case unframe transport resp of
           Fail er \<Rightarrow> pass (Fail er) | Panic q \<Rightarrow> pass (Panic q) | Hang \<Rightarrow> pass Hang
         | Ret upstreamResp \<Rightarrow> do {
             w \<leftarrow> clientWrite e h client upstreamResp;
             case w of
               Fail er \<Rightarrow> pass (Fail er) | Panic q \<Rightarrow> pass (Panic q) | Hang \<Rightarrow> pass Hang
             | Ret _ \<Rightarrow> do { report e h client upstream clientReq upstreamResp; pass (Ret ()) } }))"

definition exchange ::
    "('z pools_scheme, PersistentConn gores) state \<Rightarrow> env \<Rightarrow> DNSProxyHandler \<Rightarrow> NetConn \<Rightarrow> bytes \<Rightarrow> nat \<Rightarrow>
     PersistentConn \<Rightarrow> ('z pools_scheme, (bytes \<times> PersistentConn) gores) state" where
  "exchange conn e h client clientReq retries upstream = do {
     t \<leftarrow> upstreamTransact e h client upstream clientReq;
     case t of
       Fail er \<Rightarrow> do {
         spawn (TConnDestroy upstream);
         if retries > 0 then do {
           a \<leftarrow> TCPConn_RemoteAddr (pc_conn upstream);
           emit (EvIO (UpstreamCxIOHook h) (IORetry a));
           emit (EvLog Debug ''dns_proxy: upstream I/O failed; retrying: retry=%d'');
           proxyUpstream conn e h client clientReq (retries - 1) }
         else do {
           emit (EvLog Debug ''dns_proxy: upstream I/O failed; available retries exhausted'');
           pass (Fail er) } }
     | Panic q \<Rightarrow> pass (Panic q)
     | Hang \<Rightarrow> pass Hang
     | Ret resp \<Rightarrow> do {
         spawn (TConnClose upstream);
         emit (EvLog Debug ''dns_proxy: completed upstream proxy: response_bytes=%d'');
         pass (Ret (resp, upstream)) }
   }"

fun remainder ::
    "('z pools_scheme, PersistentConn gores) state \<Rightarrow> env \<Rightarrow> DNSProxyHandler \<Rightarrow> Transport \<Rightarrow> phase \<Rightarrow>
     ('z pools_scheme, unit gores) state" where
  "remainder conn e h transport (Reading client) = Handle conn e h transport client"
| "remainder conn e h transport (Acquiring client clientReq retries) =
     do { res \<leftarrow> proxyUpstream conn e h client clientReq retries; answer e h transport client clientReq res }"
| "remainder conn e h transport (Exchanging client clientReq retries upstream) =
     do { res \<leftarrow> exchange conn e h client clientReq retries upstream; answer e h transport client clientReq res }"
| "remainder conn e h transport (Answering client clientReq upstream resp) =
     answer e h transport client clientReq (Ret (resp, upstream))"
| "remainder conn e h transport (Finished r) = pass r"

lemma bind_cong_all: "(\<And>a. f a = g a) \<Longrightarrow> State_Monad.bind m f = State_Monad.bind m g"
  by presburger

lemma answer_no_Ret [simp]:
  "answer e h transport client req (Fail er) = pass (Fail er)"
  "answer e h transport client req (Panic q) = pass (Panic q)"
  "answer e h transport client req Hang = pass Hang"
  by (simp_all add: answer_def)

lemma Handle_answer:
  "Handle conn e h transport client = do {
     (req, client) \<leftarrow> clientRead e h client;
     case req of
       Fail er \<Rightarrow> pass (Fail er) | Panic q \<Rightarrow> pass (Panic q) | Hang \<Rightarrow> pass Hang
     | Ret clientReq \<Rightarrow> do {
         emit (EvLog Debug ''dns_proxy: read request from client: request_bytes=%d transport=%s'');
         res \<leftarrow> proxyUpstream conn e h client (frame transport clientReq) (maxRetries h);
         answer e h transport client (frame transport clientReq) res } }"
  unfolding Handle_def answer_def Let_def ..

lemma proxyUpstream_exchange:
  "proxyUpstream conn e h client clientReq retries = do {
     r \<leftarrow> conn;
     case r of
       Fail er \<Rightarrow> pass (Fail (Errorf ''dns_proxy: error opening upstream connection: err=%v'' (Some er)))
     | Panic q \<Rightarrow> pass (Panic q)
     | Hang \<Rightarrow> pass Hang
     | Ret upstream \<Rightarrow> do {
         emit (EvLog Debug ''dns_proxy: created upstream connection: conn=%v'');
         exchange conn e h client clientReq retries upstream } }"
  unfolding exchange_def by (rule proxyUpstream.simps)

lemma step_then_remainder:
  "do { ph' \<leftarrow> phase_step conn e h transport ph; remainder conn e h transport ph' } = remainder conn e h transport ph"
proof (cases ph)
  case (Reading client)
  show ?thesis
    unfolding Reading remainder.simps(1) Handle_answer phase_step.simps bind_assoc
  proof (rule bind_cong_all, goal_cases)
    case (1 x)
    show ?case by (cases x; cases "fst x") simp_all
  qed
next
  case (Acquiring client req retries)
  show ?thesis
    unfolding Acquiring remainder.simps(2) phase_step.simps proxyUpstream_exchange [of _ _ _ _ _ retries] bind_assoc
  proof (rule bind_cong_all, goal_cases)
    case (1 r)
    show ?case by (cases r) simp_all
  qed
next
  case (Exchanging client req retries pc)
  show ?thesis
    unfolding Exchanging remainder.simps(3) phase_step.simps exchange_def bind_assoc
  proof (rule bind_cong_all, goal_cases)
    case (1 t)
    show ?case by (cases t; cases "0 < retries") simp_all
  qed
next
  case (Answering client req pc resp)
  show ?thesis
  proof (cases "unframe transport resp")
    case (Ret out)
    show ?thesis
      unfolding Answering remainder.simps(4) phase_step.simps answer_def gores.case prod.case Ret bind_assoc
    proof (rule bind_cong_all, goal_cases)
      case (1 w)
      show ?case by (cases w) simp_all
    qed
  qed (simp_all add: Answering answer_def)
qed simp

lemma run_phases_remainder:
  "do { ph' \<leftarrow> run_phases conn e h transport k ph; remainder conn e h transport ph' } = remainder conn e h transport ph"
proof (induction k arbitrary: ph)
  case (Suc k)
  have "do { ph' \<leftarrow> run_phases conn e h transport (Suc k) ph; remainder conn e h transport ph' } =
      do { ph' \<leftarrow> phase_step conn e h transport ph; remainder conn e h transport ph' }"
    by (simp add: Suc.IH)
  then show ?case by (simp only: step_then_remainder)
qed simp

text \<open>Every phase brings the end nearer.\<close>

fun distance :: "nat \<Rightarrow> phase \<Rightarrow> nat" where
  "distance m (Reading client) = 2 * m + 4"
| "distance m (Acquiring client req retries) = 2 * retries + 3"
| "distance m (Exchanging client req retries pc) = 2 * retries + 2"
| "distance m (Answering client req pc resp) = 1"
| "distance m (Finished r) = 0"

lemma phase_step_nearer:
  "run_state (phase_step conn e h transport ph) s = (ph', s') \<Longrightarrow> distance (maxRetries h) ph' \<le> distance (maxRetries h) ph - 1"
  by (cases ph) (auto split: prod.splits gores.splits if_splits)

lemma run_phases_distance:
  "run_state (run_phases conn e h transport k ph) s = (ph', s') \<Longrightarrow>
   distance (maxRetries h) ph' \<le> distance (maxRetries h) ph - k"
proof (induction k arbitrary: ph s)
  case (Suc k)
  obtain ph1 s1 where step: "run_state (phase_step conn e h transport ph) s = (ph1, s1)" by (rule prod.exhaust)
  with Suc have "distance (maxRetries h) ph' \<le> distance (maxRetries h) ph1 - k" by simp
  with phase_step_nearer [OF step] show ?case by simp
qed simp

lemma distance_0: "distance m ph = 0 \<longleftrightarrow> (\<exists>r. ph = Finished r)"
  by (cases ph) auto

lemma run_phases_Handle:
  assumes "2 * maxRetries h + 4 \<le> k" "run_state (Handle conn e h transport client) s = (r, s')"
  shows "run_state (run_phases conn e h transport k (Reading client)) s = (Finished r, s')"
proof -
  obtain ph s1 where run: "run_state (run_phases conn e h transport k (Reading client)) s = (ph, s1)" by (rule prod.exhaust)
  have "distance (maxRetries h) ph = 0" using run_phases_distance [OF run] assms(1) by simp
  then obtain r1 where r1: "ph = Finished r1" by (auto simp: distance_0)
  have "run_state (Handle conn e h transport client) s = (r1, s1)"
    using arg_cong [OF run_phases_remainder [of conn e h transport k "Reading client"], of "\<lambda>m. run_state m s"] run r1
    by simp
  with run r1 assms(2) show ?thesis by simp
qed

section \<open>What a request owns\<close>

fun phase_socks :: "phase \<Rightarrow> cid multiset" where
  "phase_socks (Exchanging client req retries pc) = {#tc_sock (pc_conn pc)#}"
| "phase_socks _ = {#}"

fun phase_ok :: "nat \<Rightarrow> phase \<Rightarrow> bool" where
  "phase_ok n (Exchanging client req retries pc) \<longleftrightarrow> pc_pool pc < n \<and> \<not> pc_destroyed pc"
| "phase_ok n (Answering client req pc resp) \<longleftrightarrow> 2 \<le> length resp"
| "phase_ok n (Finished r) \<longleftrightarrow> returns r"
| "phase_ok n _ \<longleftrightarrow> True"

lemma transact_cases:
  assumes "run_state (upstreamTransact e h client pc req) (s :: 'z pools_scheme) = (t, s')"
  obtains er where "t = Fail er" | resp where "t = Ret resp" "2 \<le> length resp"
proof -
  obtain tr where "(\<exists>er. t = Fail er) \<or> (\<exists>resp. t = Ret resp \<and> answered pc req resp tr)"
    by (rule saysD [OF transact_says assms]) blast
  with that show thesis by (auto simp: answered_def)
qed

lemma clientRead_cases:
  assumes "run_state (clientRead e h client) (s :: 'z pools_scheme) = ((r, client'), s')"
  obtains er where "r = Fail er" | b where "r = Ret b"
  by (rule saysD [OF clientRead_says assms]) (use that in auto)

lemma clientWrite_cases:
  assumes "run_state (clientWrite e h client b) (s :: 'z pools_scheme) = (w, s')"
  obtains er where "w = Fail er" | "w = Ret ()"
  by (rule saysD [OF clientWrite_says assms]) (use that in auto)

locale dns_upstream =
  fixes e :: env
    and conn :: "('z pools_scheme, PersistentConn gores) state"
    and J :: "int list \<Rightarrow> nat \<Rightarrow> cid multiset \<Rightarrow> 'z pools_scheme \<Rightarrow> bool"
  assumes conn_hands_nothing: "says conn (\<lambda>r tr ts. handed ts = [])"
    and conn_owns: "env_ok e \<Longrightarrow> J K b X s \<Longrightarrow> run_state conn s = (r, s') \<Longrightarrow>
      (\<exists>pc. r = Ret pc \<and> pc_pool pc < length K \<and> \<not> pc_destroyed pc \<and> J K b (add_mset (tc_sock (pc_conn pc)) X) s') \<or>
      (\<exists>er. r = Fail er) \<and> J K b X s' \<or> r = Hang"
    and J_quiet: "J K b X s \<Longrightarrow> quiet s s' \<Longrightarrow> J K b X s'"
    and J_spawn: "J K b (task_socks t + X) s \<Longrightarrow> task_ok (length K) t \<Longrightarrow> task_fills t = 0 \<Longrightarrow>
      J K b X (s\<lparr>p_tasks := p_tasks s @ [t]\<rparr>)"
begin

lemma J_emits:
  assumes "J K b X s" "\<forall>c. EvClose c \<notin> set evs"
  shows "J K b X (s\<lparr>w_trace := w_trace s @ evs\<rparr>)"
  using J_quiet [OF assms(1)] quiet_upd [of "w_socks s" s evs "w_tick s"] assms(2) by simp

lemma J_hands_over:
  assumes "J K b (add_mset (tc_sock (pc_conn pc)) X) s" "t = TConnClose pc \<or> t = TConnDestroy pc"
    and "pc_pool pc < length K" "\<not> pc_destroyed pc" "\<forall>c. EvClose c \<notin> set evs"
  shows "J K b X (s\<lparr>p_tasks := p_tasks s @ [t], w_trace := w_trace s @ evs\<rparr>)"
proof -
  have "J K b X (s\<lparr>p_tasks := p_tasks s @ [t]\<rparr>)" using assms(1-4) by (auto intro!: J_spawn)
  from J_emits [OF this assms(5)] show ?thesis by simp
qed

lemma phase_step_owns:
  assumes "env_ok e" "J K b (phase_socks ph + X) s" "phase_ok (length K) ph"
    and "run_state (phase_step conn e h transport ph) s = (ph', s')"
  shows "ph' = Finished Hang \<or> phase_ok (length K) ph' \<and> J K b (phase_socks ph' + X) s'"
proof (cases ph)
  case (Reading client)
  obtain r client' s1 where rd: "run_state (clientRead e h client) s = ((r, client'), s1)" by (metis prod.exhaust)
  have "J K b X s1" using assms(2) Reading by (intro J_quiet [OF _ hushedD [OF hushed_handler(1) rd]]) simp
  with assms(4) Reading rd show ?thesis
    by (cases rule: clientRead_cases [OF rd]) (auto intro!: J_emits)
next
  case (Acquiring client req retries)
  obtain r s1 where c: "run_state conn s = (r, s1)" by (rule prod.exhaust)
  with assms(2) Acquiring conn_owns [OF assms(1) _ c, of K b X] have "(\<exists>pc. r = Ret pc \<and> pc_pool pc < length K \<and>
      \<not> pc_destroyed pc \<and> J K b (add_mset (tc_sock (pc_conn pc)) X) s1) \<or> (\<exists>er. r = Fail er) \<and> J K b X s1 \<or> r = Hang"
    by simp
  with assms(4) Acquiring c show ?thesis by (elim disjE) (auto intro!: J_emits)
next
  case (Exchanging client req retries pc)
  obtain t s1 where tx: "run_state (upstreamTransact e h client pc req) s = (t, s1)" by (rule prod.exhaust)
  have J1: "J K b (add_mset (tc_sock (pc_conn pc)) X) s1"
    using assms(2) Exchanging by (intro J_quiet [OF _ hushedD [OF hushed_handler(2) tx]]) simp
  have pc: "pc_pool pc < length K" "\<not> pc_destroyed pc" using assms(3) Exchanging by simp_all
  show ?thesis
  proof (cases rule: transact_cases [OF tx])
    case (1 er)
    with assms(4) Exchanging tx J_hands_over [OF J1 _ pc, of "TConnDestroy pc"] show ?thesis
      by (cases "0 < retries") (auto simp: TCPConn_RemoteAddr_def)
  next
    case (2 resp)
    with assms(4) Exchanging tx J_hands_over [OF J1 _ pc, of "TConnClose pc"] show ?thesis by auto
  qed
next
  case (Answering client req pc resp)
  obtain out where out: "unframe transport resp = Ret out"
    using assms(3) Answering by (cases "transport = UDP") (auto simp: unframe_def)
  obtain w s1 where wr: "run_state (clientWrite e h client out) s = (w, s1)" by (rule prod.exhaust)
  obtain u s2 where rp: "run_state (report e h client pc req out) s1 = (u, s2)" by (rule prod.exhaust)
  have "J K b X s1" using assms(2) Answering by (intro J_quiet [OF _ hushedD [OF hushed_handler(3) wr]]) simp
  moreover from this have "J K b X s2" by (rule J_quiet [OF _ hushedD [OF hushed_handler(4) rp]])
  ultimately show ?thesis using assms(4) Answering out wr rp by (cases rule: clientWrite_cases [OF wr]) auto
qed (use assms in auto)

end

text \<open>A phase does not return only when acquiring a connection does not.\<close>

lemma phase_step_Hang:
  assumes "run_state (phase_step conn e h transport ph) (s :: 'z pools_scheme) = (Finished Hang, s')" "ph \<noteq> Finished Hang"
  obtains client req retries s1 where "ph = Acquiring client req retries" "run_state conn s = (Hang, s1)"
proof (cases ph)
  case (Reading client)
  obtain r client' s1 where rd: "run_state (clientRead e h client) s = ((r, client'), s1)" by (metis prod.exhaust)
  with assms(1) Reading show thesis by (cases rule: clientRead_cases [OF rd]) auto
next
  case (Acquiring client req retries)
  with assms(1) that show thesis by (auto split: prod.splits gores.splits)
next
  case (Exchanging client req retries pc)
  obtain t s1 where tx: "run_state (upstreamTransact e h client pc req) s = (t, s1)" by (rule prod.exhaust)
  with assms(1) Exchanging show thesis
    by (cases rule: transact_cases [OF tx]; cases "0 < retries") (auto simp: TCPConn_RemoteAddr_def)
next
  case (Answering client req pc resp)
  show thesis
  proof (cases "unframe transport resp")
    case (Ret out)
    obtain w s1 where wr: "run_state (clientWrite e h client out) s = (w, s1)" by (rule prod.exhaust)
    with assms(1) Answering Ret show thesis by (cases rule: clientWrite_cases [OF wr]) (auto split: prod.splits)
  qed (use assms(1) Answering in \<open>auto simp: unframe_def split: if_splits\<close>)
qed (use assms in auto)

text \<open>An upstream client whose calls return.\<close>

locale prompt_upstream = dns_upstream +
  assumes conn_returns: "env_ok e \<Longrightarrow> J K b X s \<Longrightarrow> run_state conn s = (r, s') \<Longrightarrow> r \<noteq> Hang"
begin

lemma phase_step_returns:
  assumes "env_ok e" "J K b (phase_socks ph + X) s" "phase_ok (length K) ph"
    and "run_state (phase_step conn e h transport ph) s = (ph', s')"
  shows "ph' \<noteq> Finished Hang \<and> J K b (phase_socks ph' + X) s'"
proof -
  have "ph' \<noteq> Finished Hang"
  proof
    assume "ph' = Finished Hang"
    with assms(4) have run: "run_state (phase_step conn e h transport ph) s = (Finished Hang, s')" by simp
    have "ph \<noteq> Finished Hang" using assms(3) by auto
    then obtain client req retries s1 where "ph = Acquiring client req retries" "run_state conn s = (Hang, s1)"
      by (rule phase_step_Hang [OF run])
    with assms(2) conn_returns [OF assms(1), of K b X s Hang s1] show False by simp
  qed
  with phase_step_owns [OF assms] show ?thesis by blast
qed

end

section \<open>What a request has behind it\<close>

text \<open>
  \<open>story e transport client0 ph tr\<close>: the trace \<open>tr\<close> contains, in order, what a request that came in
  on \<open>client0\<close> has done up to phase \<open>ph\<close>.
\<close>

definition asked :: "env \<Rightarrow> Transport \<Rightarrow> NetConn \<Rightarrow> NetConn \<Rightarrow> bytes \<Rightarrow> bytes \<Rightarrow> bool" where
  "asked e transport client0 client req b \<longleftrightarrow> same_socket client0 client \<and> req = frame transport b \<and>
     (env_ok e \<longrightarrow> length b \<le> 1024)"

definition told :: "PersistentConn \<Rightarrow> bytes \<Rightarrow> bytes \<Rightarrow> bytes \<Rightarrow> event list" where
  "told pc req hdr body = [EvWrote (tc_sock (pc_conn pc)) req, EvRead (tc_sock (pc_conn pc)) hdr,
     EvRead (tc_sock (pc_conn pc)) body]"

definition completed :: "env \<Rightarrow> Transport \<Rightarrow> NetConn \<Rightarrow> event list \<Rightarrow> bool" where
  "completed e transport client0 tr \<longleftrightarrow> (\<exists>client b pc hdr body.
     asked e transport client0 client (frame transport b) b \<and> length hdr = 2 \<and>
     length body = unat (BigEndian_Uint16 hdr) \<and> (\<forall>u. client = NetUDP u \<longrightarrow> uc_remote u \<noteq> None) \<and>
     subseq (got client b # told pc (frame transport b) hdr body @
       [gave client (if transport = UDP then body else hdr @ body)]) tr)"

fun story :: "env \<Rightarrow> Transport \<Rightarrow> NetConn \<Rightarrow> phase \<Rightarrow> event list \<Rightarrow> bool" where
  "story e transport client0 (Reading client) tr \<longleftrightarrow> same_socket client0 client"
| "story e transport client0 (Acquiring client req retries) tr \<longleftrightarrow>
     (\<exists>b. asked e transport client0 client req b \<and> subseq [got client b] tr)"
| "story e transport client0 (Exchanging client req retries pc) tr \<longleftrightarrow>
     (\<exists>b. asked e transport client0 client req b \<and> subseq [got client b] tr)"
| "story e transport client0 (Answering client req pc resp) tr \<longleftrightarrow>
     (\<exists>b hdr body. asked e transport client0 client req b \<and> resp = hdr @ body \<and> length hdr = 2 \<and>
        length body = unat (BigEndian_Uint16 hdr) \<and> subseq (got client b # told pc req hdr body) tr)"
| "story e transport client0 (Finished r) tr \<longleftrightarrow> (r = Ret () \<longrightarrow> completed e transport client0 tr)"

lemma same_socket_trans: "same_socket a b \<Longrightarrow> same_socket b c \<Longrightarrow> same_socket a c"
  by (cases a; cases b; cases c) auto

lemma same_socket_refl [simp]: "same_socket a a"
  by (cases a) auto

lemma completed_mono: "completed e transport client0 tr \<Longrightarrow> completed e transport client0 (tr @ tr')"
  unfolding completed_def by (elim exE conjE) (intro exI conjI; (assumption | rule subseq_later(4)))

lemma story_mono: "story e transport client0 ph tr \<Longrightarrow> story e transport client0 ph (tr @ tr')"
  by (cases ph) (auto intro: completed_mono subseq_later(4))

lemma told_subseq: "subseq [x] tr \<Longrightarrow> subseq ys tr' \<Longrightarrow> subseq (x # ys) (tr @ tr')"
  using list_emb_append_mono [of "(=)" "[x]" tr ys tr'] by simp

text \<open>Each phase continues the story.\<close>

abbreviation continues ::
    "env \<Rightarrow> Transport \<Rightarrow> NetConn \<Rightarrow> event list \<Rightarrow> ('z pools_scheme, phase) state \<Rightarrow> bool" where
  "continues e transport client0 tr0 m \<equiv> says m (\<lambda>ph tr ts. story e transport client0 ph (tr0 @ tr))"

lemma reading_continues:
  assumes "story e transport client0 (Reading client) tr0"
  shows "continues e transport client0 tr0 (phase_step conn e h transport (Reading client))"
  unfolding phase_step.simps
proof (rule says_bind [OF clientRead_says], goal_cases)
  case (1 x tr ts)
  obtain r client' where x: "x = (r, client')" by (rule prod.exhaust)
  from 1 assms have same: "same_socket client0 client'" by (auto simp: x intro: same_socket_trans)
  have "(\<exists>er. r = Fail er) \<or> (\<exists>b evs. r = Ret b \<and> tr = got client' b # evs \<and> (env_ok e \<longrightarrow> length b \<le> 1024))"
    using 1 by (simp add: x)
  then show ?case
  proof (elim disjE exE conjE, goal_cases)
    case (2 b evs)
    have "subseq [got client' b] (tr0 @ (got client' b # evs) @ zs)" for zs
      by (rule subseq_later(3)) simp
    with same 2 show ?case by (auto simp: x asked_def intro!: says_steps says_return exI [of _ b])
  qed (auto simp: x intro!: says_return)
qed

lemma acquiring_continues:
  assumes conn: "says conn (\<lambda>r tr ts. handed ts = [])"
    and st: "story e transport client0 (Acquiring client req retries) tr0"
  shows "continues e transport client0 tr0 (phase_step conn e h transport (Acquiring client req retries))"
proof -
  obtain b where b: "asked e transport client0 client req b" "subseq [got client b] tr0" using st by auto
  show ?thesis
    unfolding phase_step.simps
  proof (rule says_bind [OF conn], goal_cases)
    case (1 r tr ts)
    show ?case
      using b by (cases r) (auto intro!: says_steps says_return exI [of _ b] subseq_later(4))
  qed
qed

lemma exchanging_continues:
  assumes st: "story e transport client0 (Exchanging client req retries pc) tr0"
  shows "continues e transport client0 tr0 (phase_step conn e h transport (Exchanging client req retries pc))"
proof -
  obtain b where b: "asked e transport client0 client req b" "subseq [got client b] tr0" using st by auto
  show ?thesis
    unfolding phase_step.simps
  proof (rule says_bind [OF transact_says], elim conjE disjE exE, goal_cases)
    case (1 t tr ts er)
    with b show ?case
      by (auto intro!: says_steps says_return says_if exI [of _ b] subseq_later(4))
  next
    case (2 t tr ts resp)
    obtain hdr body where hb: "resp = hdr @ body" "length hdr = 2" "length body = unat (BigEndian_Uint16 hdr)"
        "subseq (told pc req hdr body) tr"
      using 2(3) by (auto simp: answered_def told_def)
    have "subseq (got client b # told pc req hdr body) (tr0 @ tr @ zs)" for zs
      using told_subseq [OF b(2) hb(4)] subseq_later(4) [of _ "tr0 @ tr" zs] by simp
    with b(1) hb(1-3) have st': "story e transport client0 (Answering client req pc resp) (tr0 @ tr @ zs)" for zs
      unfolding story.simps by blast
    show ?case unfolding 2(2) gores.case
      by (intro says_steps says_return) (use st' in simp)
  qed
qed

lemma answering_continues:
  assumes st: "story e transport client0 (Answering client req pc resp) tr0"
  shows "continues e transport client0 tr0 (phase_step conn e h transport (Answering client req pc resp))"
proof -
  obtain b hdr body where hb: "asked e transport client0 client req b" "resp = hdr @ body" "length hdr = 2"
      "length body = unat (BigEndian_Uint16 hdr)" "subseq (got client b # told pc req hdr body) tr0"
    using st by auto
  define out where "out = (if transport = UDP then body else hdr @ body)"
  have unframe: "unframe transport resp = Ret out"
    using hb(2,3) by (simp add: unframe_def out_def)
  have fin: "completed e transport client0 (tr0 @ (gave client out # evs) @ zs)"
    if "\<forall>u. client = NetUDP u \<longrightarrow> uc_remote u \<noteq> None" for evs zs
  proof -
    have "subseq ((got client b # told pc req hdr body) @ [gave client out]) (tr0 @ (gave client out # evs) @ zs)"
      by (rule list_emb_append_mono [OF hb(5)]) simp
    moreover have "req = frame transport b" using hb(1) by (simp add: asked_def)
    ultimately show ?thesis using hb(1,3,4) that unfolding completed_def out_def by fastforce
  qed
  show ?thesis
    unfolding phase_step.simps unframe gores.case
  proof (rule says_bind [OF clientWrite_says], elim conjE disjE exE, goal_cases)
    case (1 w tr ts er)
    then show ?case by (auto intro!: says_return)
  next
    case (2 w tr ts evs)
    show ?case
      unfolding 2 gores.case
      by (rule says_bind [OF report_says]) (use fin [OF 2(4)] in \<open>auto intro!: says_return\<close>)
  qed
qed

lemma phase_step_says:
  assumes "says conn (\<lambda>r tr ts. handed ts = [])" "story e transport client0 ph tr0"
  shows "continues e transport client0 tr0 (phase_step conn e h transport ph)"
proof (cases ph)
  case (Finished r)
  with assms(2) show ?thesis by (auto intro!: says_return story_mono)
qed (use assms reading_continues acquiring_continues exchanging_continues answering_continues in simp_all)

section \<open>Properties\<close>



end
