(* ===== verification/Server.thy ===== *)
theory Server
  imports Request_Phases Pool_System
begin

text \<open>
  \<^verbatim>\<open>src/internal/network/server.go\<close>: the UDP and TCP servers, with the handler of
  \<^verbatim>\<open>dns_proxy.go\<close> that the program installs in both. The state of the program is
  \<open>dotproxy\<close>: the network package's state with the sharded client. Listeners are sockets
  of the world.

  Proved here, for every environment that keeps the contract of Go's packages: a request
  that runs to its end alone is answered faithfully and gives back every connection it
  used; an accepted connection is always closed. How requests run together is the
  subject of theory \<open>Live_System\<close>.
\<close>

section \<open>The state of the program\<close>

record dotproxy = sys +
  d_shard :: "nat ShardedClient"

text \<open>The method \<open>Conn\<close> of the handler's upstream: the sharded client over the TLS clients.\<close>

definition upstream_Conn :: "env \<Rightarrow> nat \<Rightarrow> ('z dotproxy_scheme, PersistentConn gores) state" where
  "upstream_Conn e fuel = do {
     sc \<leftarrow> reads d_shard;
     (r, sc') \<leftarrow> ShardedClient_Conn e (TLSClient_Conn e) TLSClient_Stats fuel sc;
     update_st (\<lambda>s. s\<lparr>d_shard := sc'\<rparr>);
     pass r
   }"

section \<open>The UDP server\<close>

record UDPServerOpts =
  MaxConcurrentConnections :: int
  udp_ReadTimeout :: duration
  udp_WriteTimeout :: duration

record UDPServer =
  us_addr :: string
  us_opts :: UDPServerOpts

definition NewUDPServer :: "string \<Rightarrow> UDPServerOpts \<Rightarrow> UDPServer" where
  "NewUDPServer a opts =
     \<lparr>us_addr = a, us_opts = (if MaxConcurrentConnections opts \<le> 0 then opts\<lparr>MaxConcurrentConnections := 16\<rparr> else opts)\<rparr>"

definition net_listen :: "env \<Rightarrow> string \<Rightarrow> ('z world_scheme, go_err + cid) state" where
  "net_listen e a = do {
     i \<leftarrow> stamp;
     case e_listen e i a of
       Inl er \<Rightarrow> pass (Inl er)
     | Inr l \<Rightarrow> do { c \<leftarrow> new_sock l (OtherAddr ''''); pass (Inr c) }
   }"

text \<open>The result: the shared socket and the number of worker goroutines started.\<close>

definition UDPServer_ListenAndServe :: "env \<Rightarrow> UDPServer \<Rightarrow> ('z world_scheme, (cid \<times> nat) gores) state" where
  "UDPServer_ListenAndServe e srv = do {
     r \<leftarrow> net_listen e (us_addr srv);
     pass (case r of
       Inl er \<Rightarrow> Fail (Errorf ''server: failed to listen on UDP socket: err=%v'' (Some er))
     | Inr c \<Rightarrow> Ret (c, nat (MaxConcurrentConnections (us_opts srv))))
   }"

text \<open>What both servers do with the handler's result.\<close>

definition consume ::
    "(Transport \<Rightarrow> string) \<Rightarrow> DNSProxyHandler \<Rightarrow> Transport \<Rightarrow> unit gores \<Rightarrow> ('z world_scheme, unit gores) state" where
  "consume tstr h transport r = (case r of
       Fail er \<Rightarrow> do { ConsumeError tstr h transport er; pass (Ret ()) }
     | _ \<Rightarrow> pass r)"

text \<open>One iteration of a worker's loop.\<close>

definition udp_worker ::
    "('z pools_scheme, PersistentConn gores) state \<Rightarrow> env \<Rightarrow> (Transport \<Rightarrow> string) \<Rightarrow> DNSProxyHandler \<Rightarrow>
     UDPServer \<Rightarrow> cid \<Rightarrow> ('z pools_scheme, unit gores) state" where
  "udp_worker conn e tstr h srv sock = do {
     let udpConn = NewUDPConn sock (udp_ReadTimeout (us_opts srv)) (udp_WriteTimeout (us_opts srv));
     r \<leftarrow> Handle conn e h UDP (NetUDP udpConn);
     consume tstr h UDP r
   }"

section \<open>The TCP server\<close>

record TCPServerOpts =
  tcp_ReadTimeout :: duration
  tcp_WriteTimeout :: duration

record TCPServer =
  ts_addr :: string
  ts_cxHook :: lifecycle_hook
  ts_opts :: TCPServerOpts

definition NewTCPServer :: "string \<Rightarrow> lifecycle_hook \<Rightarrow> TCPServerOpts \<Rightarrow> TCPServer" where
  "NewTCPServer a hook opts = \<lparr>ts_addr = a, ts_cxHook = hook, ts_opts = opts\<rparr>"

definition TCPServer_Listen :: "env \<Rightarrow> TCPServer \<Rightarrow> ('z world_scheme, cid gores) state" where
  "TCPServer_Listen e srv = do {
     r \<leftarrow> net_listen e (ts_addr srv);
     pass (case r of
       Inl er \<Rightarrow> Fail (Errorf ''server: failed to listen on TCP socket: err=%v'' (Some er))
     | Inr c \<Rightarrow> Ret c)
   }"

text \<open>One iteration of the accept loop; the result is the connection a goroutine is started for.\<close>

definition tcp_accept ::
    "env \<Rightarrow> (Transport \<Rightarrow> string) \<Rightarrow> DNSProxyHandler \<Rightarrow> TCPServer \<Rightarrow> cid \<Rightarrow> ('z world_scheme, TCPConn option) state" where
  "tcp_accept e tstr h srv lis = do {
     i \<leftarrow> stamp;
     case e_accept e i lis of
       Inl er \<Rightarrow> do {
         emit (EvLifecycle (ts_cxHook srv) CxError);
         ConsumeError tstr h TCP er;
         pass None }
     | Inr (l, r) \<Rightarrow> do {
         c \<leftarrow> new_sock l r;
         let tcpConn = NewTCPConn c (tcp_ReadTimeout (ts_opts srv)) (tcp_WriteTimeout (ts_opts srv));
         a \<leftarrow> TCPConn_RemoteAddr tcpConn;
         emit (EvLifecycle (ts_cxHook srv) (CxOpen 0 a));
         pass (Some tcpConn) }
   }"

text \<open>
  The goroutine of an accepted connection: what follows the handler, with the deferred
  function, which runs whatever happened, and the whole.
\<close>

definition tcp_finish ::
    "env \<Rightarrow> (Transport \<Rightarrow> string) \<Rightarrow> DNSProxyHandler \<Rightarrow> TCPServer \<Rightarrow> TCPConn \<Rightarrow> unit gores \<Rightarrow>
     ('z world_scheme, unit gores) state" where
  "tcp_finish e tstr h srv c r = do {
     r \<leftarrow> consume tstr h TCP r;
     if r = Hang then pass Hang
     else do {
       a \<leftarrow> TCPConn_RemoteAddr c;
       emit (EvLifecycle (ts_cxHook srv) (CxClose a));
       _ \<leftarrow> TCPConn_Close e c;
       pass r }
   }"

definition tcp_serve ::
    "('z pools_scheme, PersistentConn gores) state \<Rightarrow> env \<Rightarrow> (Transport \<Rightarrow> string) \<Rightarrow> DNSProxyHandler \<Rightarrow>
     TCPServer \<Rightarrow> TCPConn \<Rightarrow> ('z pools_scheme, unit gores) state" where
  "tcp_serve conn e tstr h srv c = do {
     r \<leftarrow> Handle conn e h TCP (NetTCP c);
     tcp_finish e tstr h srv c r
   }"

section \<open>The sharded client meets the handler's contract\<close>

definition dot_inv :: "nat \<Rightarrow> int list \<Rightarrow> nat \<Rightarrow> cid multiset \<Rightarrow> 'z dotproxy_scheme \<Rightarrow> bool" where
  "dot_inv n K b X s \<longleftrightarrow> clients_inv n (K, b, X) s \<and> shard_ok {..<n} (d_shard s)"

text \<open>
  \<open>spawns P m\<close>: the program \<open>m\<close> only adds to the trace and to the goroutines, and the
  goroutines it starts satisfy \<open>P\<close>. A discreet program starts none that returns or destroys
  a connection.
\<close>

named_theorems spawns_rules

definition spawns :: "(task \<Rightarrow> bool) \<Rightarrow> ('z pools_scheme, 'a) state \<Rightarrow> bool" where
  "spawns P m \<longleftrightarrow> says m (\<lambda>_ _ ts. \<forall>t \<in> set ts. P t)"

abbreviation discreet :: "('z pools_scheme, 'a) state \<Rightarrow> bool" where
  "discreet m \<equiv> spawns (\<lambda>t. \<not> handover t) m"

lemma spawns_bind [spawns_rules]:
  "spawns P m \<Longrightarrow> (\<And>a. spawns P (f a)) \<Longrightarrow> spawns P (State_Monad.bind m f)"
  unfolding spawns_def by (rule says_bind, erule says_mono, erule meta_allE, erule says_mono) auto

lemma spawns_basic [spawns_rules]:
  "spawns P (State_Monad.return x)" "spawns P (reads g)" "P t \<Longrightarrow> spawns P (spawn t)"
  "spawns P (new_sock l r)" "spawns P (conns_Pop p)"
  by (auto simp: spawns_def says_def conns_Pop_def set_conns_def split: prod.splits)

lemma spawns_hushed: "hushed m \<Longrightarrow> spawns P m"
  by (fastforce simp: spawns_def says_def quiet_def dest: hushedD)

lemma spawns_case [spawns_rules]:
  "(b \<Longrightarrow> spawns P m) \<Longrightarrow> (\<not> b \<Longrightarrow> spawns P n) \<Longrightarrow> spawns P (if b then m else n)"
  "spawns P n \<Longrightarrow> (\<And>y. spawns P (f y)) \<Longrightarrow> spawns P (case x of None \<Rightarrow> n | Some y \<Rightarrow> f y)"
  "(\<And>a b. spawns P (g a b)) \<Longrightarrow> spawns P (case y of (a, b) \<Rightarrow> g a b)"
  "(\<And>a. spawns P (k a)) \<Longrightarrow> (\<And>b. spawns P (k' b)) \<Longrightarrow> spawns P (case z of Inl a \<Rightarrow> k a | Inr b \<Rightarrow> k' b)"
  "(\<And>v. spawns P (g1 v)) \<Longrightarrow> (\<And>er. spawns P (g2 er)) \<Longrightarrow> (\<And>q. spawns P (g3 q)) \<Longrightarrow> spawns P l \<Longrightarrow>
   spawns P (case w of Ret v \<Rightarrow> g1 v | Fail er \<Rightarrow> g2 er | Panic q \<Rightarrow> g3 q | Hang \<Rightarrow> l)"
  by (simp_all split: option.split prod.split sum.split gores.split)

lemmas spawns_quiet [spawns_rules] =
  hushed_stamp [THEN spawns_hushed] hushed_time_now [THEN spawns_hushed] hushed_elapsed [THEN spawns_hushed]
  hushed_lifecycle [THEN spawns_hushed] hushed_deadlines [THEN spawns_hushed] hushed_io [THEN spawns_hushed]
  hushed_TCPConn [THEN spawns_hushed] hushed_pick [THEN spawns_hushed] hushed_select [THEN spawns_hushed]
  hushed_mark_failed [THEN spawns_hushed]

lemma spawns_goroutines [spawns_rules]:
  "spawns P (sock_close e c)" "spawns P (conns_Push e p tc)" "spawns P (record_stats i ok)"
proof -
  show "spawns P (sock_close e c)"
    unfolding spawns_def says_def using sock_close_effect by fastforce
  have "spawns P (State (\<lambda>s. case MRUQueue_Push now tc (conns (p_pools s ! p)) of (ok, q) \<Rightarrow> (ok, set_conns p q s)))" for now
    by (auto simp: spawns_def says_def set_conns_def split: prod.splits)
  then show "spawns P (conns_Push e p tc)" unfolding conns_Push_def by (intro spawns_rules)
  show "spawns P (record_stats i ok)" by (simp add: spawns_def says_def record_stats_def)
qed

lemma discreet_TLSClient [spawns_rules]: "discreet (TLSClient_Conn e i)" "discreet (TLSClient_Stats i)"
  unfolding TLSClient_Conn_def TLSClient_Stats_def PersistentConnPool_Conn_def pool_dial_def tls_dial_def tlsDialer_def
    sock_dial_def
  by (intro spawns_rules; simp)+

lemma spawns_loops [spawns_rules]:
  "(\<And>i. spawns P (conn i)) \<Longrightarrow> spawns P (Failover_loop conn cs)"
  "(\<And>i. spawns P (stats i)) \<Longrightarrow> spawns P (fewest stats cs cl)"
  "(\<And>i. spawns P (conn i)) \<Longrightarrow> spawns P (Availability_Conn e conn fuel c)"
proof -
  show "spawns P (Failover_loop conn cs)" if "\<And>i. spawns P (conn i)"
    by (induction cs) (auto intro!: spawns_rules that)
  show "spawns P (fewest stats cs cl)" if "\<And>i. spawns P (stats i)"
    by (induction cs arbitrary: cl) (auto intro!: spawns_rules that split: option.splits)
  show "spawns P (Availability_Conn e conn fuel c)" if "\<And>i. spawns P (conn i)"
    by (induction fuel arbitrary: c) (auto intro!: spawns_rules that)
qed

lemma discreet_sharded:
  "discreet (ShardedClient_Conn e (TLSClient_Conn e) TLSClient_Stats fuel sc)"
  by (cases sc) (auto simp: RoundRobin_Conn_def Random_Conn_def Historical_Conn_def Failover_Conn_def intro!: spawns_rules)

lemma discreet_upstream: "discreet (upstream_Conn e fuel)"
proof -
  have "discreet (update_st (\<lambda>s. s\<lparr>d_shard := sc\<rparr>))" for sc
    by (simp add: spawns_def says_def)
  then show ?thesis unfolding upstream_Conn_def by (intro spawns_rules discreet_sharded)
qed

lemma dot_inv_shard: "clients_post n (K, b, X) r s \<Longrightarrow> clients_post n (K, b, X) r (s\<lparr>d_shard := sc\<rparr>)"
  by (simp add: clients_post_def conn_post_def clients_ok_def good_def pools_ok_def accounts_def owned_def fills_def)

interpretation sharded: dns_upstream e "upstream_Conn e fuel" "dot_inv n" for e fuel n
proof
  show "says (upstream_Conn e fuel :: ('a dotproxy_scheme, _) state) (\<lambda>r tr ts. handed ts = [])"
    using discreet_upstream by (simp add: spawns_def filter_empty_conv)
next
  fix K b X and s s' :: "'a dotproxy_scheme" and r
  assume env: "env_ok e" and inv: "dot_inv n K b X s" and run: "run_state (upstream_Conn e fuel) s = (r, s')"
  obtain sc' s1 where run1: "run_state (ShardedClient_Conn e (TLSClient_Conn e) TLSClient_Stats fuel (d_shard s)) s = ((r, sc'), s1)"
      and s': "s' = s1\<lparr>d_shard := sc'\<rparr>"
    using run by (auto simp: upstream_Conn_def split: prod.splits)
  from inv have "shard_ok {..<n} (d_shard s)" "clients_inv n (K, b, X) s" by (simp_all add: dot_inv_def)
  from tls_client.ShardedClient_post [OF this(1) env this(2) run1]
  have "shard_ok {..<n} (d_shard s')" "clients_post n (K, b, X) r s' \<or> r = Hang"
    using dot_inv_shard by (auto simp: s')
  then show "(\<exists>pc. r = Ret pc \<and> pc_pool pc < length K \<and> \<not> pc_destroyed pc \<and>
        dot_inv n K b (add_mset (tc_sock (pc_conn pc)) X) s') \<or> (\<exists>er. r = Fail er) \<and> dot_inv n K b X s' \<or> r = Hang"
    by (auto simp: clients_post_def conn_post_def dot_inv_def clients_inv_def)
next
  fix K b X and s s' :: "'a dotproxy_scheme"
  assume inv: "dot_inv n K b X s" and q: "quiet s s'"
  then have "d_shard s' = d_shard s" by (auto simp: quiet_def)
  with inv clients_inv_quiet [OF _ q] show "dot_inv n K b X s'" by (simp add: dot_inv_def)
next
  fix K b t X and s :: "'a dotproxy_scheme"
  assume inv: "dot_inv n K b (task_socks t + X) s" and t: "task_ok (length K) t" "task_fills t = 0"
  have "good K (b + task_fills t) X (s\<lparr>p_tasks := p_tasks s @ [t]\<rparr>)"
    using yieldsD [OF spawn_good [OF t(1), of b X], of s] inv by (simp add: dot_inv_def clients_inv_def)
  with inv t(2) show "dot_inv n K b X (s\<lparr>p_tasks := p_tasks s @ [t]\<rparr>)"
    by (simp add: dot_inv_def clients_inv_def clients_ok_def)
qed

section \<open>The servers keep the invariant\<close>

lemma dot_inv_quiet: "hushed m \<Longrightarrow> dot_inv n K b X s \<Longrightarrow> run_state m s = (r, s') \<Longrightarrow> dot_inv n K b X s'"
  by (rule sharded.J_quiet [OF _ hushedD])

lemma hushed_consume [hushed_rules]: "hushed (consume tstr h transport r)"
  unfolding consume_def by (intro hushed_rules)

lemma consume_inv:
  assumes "r = Hang \<or> returns r \<and> dot_inv n K b X s" "run_state (consume tstr h transport r) s = (r', s')"
  shows "r' = Hang \<or> r' = Ret () \<and> dot_inv n K b X s'"
  using assms dot_inv_quiet [OF hushed_consume _ assms(2)]
  by (cases r) (auto simp: consume_def split: prod.splits)

lemma sock_close_inv:
  assumes "dot_inv n K b (add_mset c X) s" "run_state (sock_close e c) s = (r, s')"
  shows "dot_inv n K b X s'"
proof -
  have "good K b X s'" using yieldsD [OF close_good _ assms(2)] assms(1) by (simp add: dot_inv_def clients_inv_def)
  moreover obtain k ks tr where "s' = s\<lparr>w_tick := k, w_socks := ks, w_trace := tr\<rparr>"
    using sock_close_effect [OF assms(2)] by blast
  ultimately show ?thesis using assms(1) by (simp add: dot_inv_def clients_inv_def clients_ok_def)
qed

lemma tcp_finish_cases:
  assumes "run_state (tcp_finish e tstr h srv c r) s = (r', s')" "run_state (consume tstr h TCP r) s = (r1, s1)"
  obtains "r' = Hang" "r1 = Hang"
  | a x where "r' = r1" "run_state (sock_close e (tc_sock c))
      (s1\<lparr>w_trace := w_trace s1 @ [EvLifecycle (ts_cxHook srv) (CxClose a)]\<rparr>) = (x, s')"
proof (cases "r1 = Hang")
  case True
  with assms that(1) show thesis by (simp add: tcp_finish_def)
next
  case False
  define s2 where "s2 = s1\<lparr>w_trace := w_trace s1 @
    [EvLifecycle (ts_cxHook srv) (CxClose (map_option s_remote (get_sock s1 (tc_sock c))))]\<rparr>"
  obtain x s3 where cl: "run_state (sock_close e (tc_sock c)) s2 = (x, s3)" by (rule prod.exhaust)
  have "r' = r1" "s3 = s'"
    using assms False cl by (simp_all add: tcp_finish_def TCPConn_RemoteAddr_def TCPConn_Close_def s2_def [symmetric])
  with that(2) cl show thesis by (auto simp: s2_def)
qed

lemma tcp_finish_inv:
  assumes "r = Hang \<or> returns r \<and> dot_inv n K b (add_mset (tc_sock c) X) s"
    and "run_state (tcp_finish e tstr h srv c r) s = (r', s')"
  shows "r' = Hang \<or> r' = Ret () \<and> dot_inv n K b X s'"
proof -
  obtain r1 s1 where m: "run_state (consume tstr h TCP r) s = (r1, s1)" by (rule prod.exhaust)
  have r1: "r1 = Hang \<or> r1 = Ret () \<and> dot_inv n K b (add_mset (tc_sock c) X) s1" by (rule consume_inv [OF assms(1) m])
  show ?thesis
  proof (rule tcp_finish_cases [OF assms(2) m])
    fix a x
    let ?s = "s1\<lparr>w_trace := w_trace s1 @ [EvLifecycle (ts_cxHook srv) (CxClose a)]\<rparr>"
    assume r: "r' = r1" and cl: "run_state (sock_close e (tc_sock c)) ?s = (x, s')"
    have "dot_inv n K b X s'" if "dot_inv n K b (add_mset (tc_sock c) X) s1"
      by (rule sock_close_inv [OF sharded.J_quiet [OF that quiet_trace] cl]) simp
    with r r1 show ?thesis by blast
  qed simp
qed

lemma new_sock_inv:
  assumes "dot_inv n K b X s" "run_state (new_sock l r) s = (c, s')"
  shows "dot_inv n K b (add_mset c X) s'"
proof -
  have "good K b (add_mset c X) s'"
    using yieldsD [OF new_sock_good _ assms(2)] assms(1) by (simp add: dot_inv_def clients_inv_def)
  with assms show ?thesis by (auto simp: dot_inv_def clients_inv_def clients_ok_def)
qed

lemma tcp_accept_inv:
  assumes "dot_inv n K b X s" "run_state (tcp_accept e tstr h srv lis) s = (r, s')"
  shows "case r of None \<Rightarrow> dot_inv n K b X s' | Some c \<Rightarrow> dot_inv n K b (add_mset (tc_sock c) X) s'"
proof -
  let ?s = "s\<lparr>w_tick := Suc (w_tick s)\<rparr>"
  have inv: "dot_inv n K b X ?s" by (rule sharded.J_quiet [OF assms(1)]) simp
  show ?thesis
  proof (cases "e_accept e (w_tick s) lis")
    case (Inl er)
    let ?m = "do { emit (EvLifecycle (ts_cxHook srv) CxError); ConsumeError tstr h TCP er; pass (None :: TCPConn option) }"
    have hm: "hushed ?m" by (intro hushed_rules)
    from Inl assms(2) have run: "run_state ?m ?s = (r, s')" by (simp add: tcp_accept_def del: bind_assoc)
    then have "r = None" by (auto split: prod.splits)
    with dot_inv_quiet [OF hm inv run] show ?thesis by simp
  next
    case (Inr lr)
    obtain l rm where lr: "lr = (l, rm)" by (rule prod.exhaust)
    obtain c s1 where c: "run_state (new_sock l rm) ?s = (c, s1)" by (rule prod.exhaust)
    have inv1: "dot_inv n K b (add_mset c X) s1" by (rule new_sock_inv [OF inv c])
    have r: "r = Some (NewTCPConn c (tcp_ReadTimeout (ts_opts srv)) (tcp_WriteTimeout (ts_opts srv)))"
      "\<exists>ev. s' = s1\<lparr>w_trace := w_trace s1 @ [EvLifecycle (ts_cxHook srv) ev]\<rparr>"
      using assms(2) Inr lr c by (auto simp: tcp_accept_def TCPConn_RemoteAddr_def Let_def simp del: run_new_sock)
    have "dot_inv n K b (add_mset c X) s'"
      using r(2) by (auto intro!: sharded.J_quiet [OF inv1] quiet_trace)
    with r(1) show ?thesis by (simp add: NewTCPConn_def)
  qed
qed

lemma goroutine_shard:
  assumes "run_state (run_task e t) (take_task k s) = (r, s')"
  shows "d_shard s' = d_shard s"
proof (cases "\<exists>i ok. t = TStats i ok")
  case True
  with assms show ?thesis by (auto simp: record_stats_def take_task_def)
next
  case False
  with run_task_more [OF assms] have "pools.more s' = pools.more (take_task k s)" by blast
  then show ?thesis by (cases s; cases s') (simp add: take_task_def)
qed

lemma goroutine_inv:
  assumes "dot_inv n K b X s" "k < length (p_tasks s)"
    and "run_state (run_task e (p_tasks s ! k)) (take_task k s) = (r, s')"
  shows "\<exists>L b'. size L + b' \<le> b \<and> dot_inv n K b' (L + X) s'"
proof -
  have inv: "good K b X s" "clients_ok s" "length (sys_clients s) = n" "shard_ok {..<n} (d_shard s)"
    using assms(1) by (simp_all add: dot_inv_def clients_inv_def)
  obtain L b' where L: "size L + b' \<le> b" "good K b' (L + X) s'"
    using goroutine_good [OF inv(1) assms(2,3)] by blast
  have ok: "clients_ok s'" by (rule goroutine_clients_ok [OF inv(2,1) L(2) assms(3)])
  have "length (map c_pool (sys_clients s')) = length (map c_pool (sys_clients s))"
    using run_task_clients [OF assms(3)] by (simp add: take_task_def)
  moreover have "d_shard s' = d_shard s" by (rule goroutine_shard [OF assms(3)])
  ultimately have "dot_inv n K b' (L + X) s'" using L(2) ok inv(3,4) by (simp add: dot_inv_def clients_inv_def)
  with L(1) show ?thesis by blast
qed

section \<open>Properties\<close>

text \<open>
  C1. A request is answered faithfully, end to end. When the handler reports success, the
  trace of the run contains, in this order: the request \<open>b\<close> read from the client, at
  most 1024 octets; the request written in full to an upstream connection, behind its
  two-octet length when it came over UDP; a two-octet header and a body of the
  announced length read from the same connection; and the answer sent to the client,
  over UDP to the address the request came from and without the header, over TCP on
  the same connection and with it.
\<close>

theorem exchange_is_faithful:
  assumes "env_ok e" "run_state (Handle (upstream_Conn e fuel) e h transport client) s = (Ret (), s')"
  shows "\<exists>client' b (pc :: PersistentConn) hdr body tr. same_socket client client' \<and> length b \<le> 1024 \<and>
    (\<forall>u. client' = NetUDP u \<longrightarrow> uc_remote u \<noteq> None) \<and>
    length hdr = 2 \<and> length body = unat (BigEndian_Uint16 hdr) \<and> w_trace s' = w_trace s @ tr \<and>
    subseq [got client' b, EvWrote (tc_sock (pc_conn pc)) (frame transport b),
            EvRead (tc_sock (pc_conn pc)) hdr, EvRead (tc_sock (pc_conn pc)) body,
            gave client' (if transport = UDP then body else hdr @ body)] tr"
proof -
  obtain tr ts where tr: "w_trace s' = w_trace s @ tr" "handled e transport client (maxRetries h) (Ret ()) tr ts"
    by (rule saysD [OF Handle_says [OF sharded.conn_hands_nothing] assms(2)])
  then have "exchanged e transport client (maxRetries h) tr ts" by (simp add: handled_def)
  with tr(1) assms(1) show ?thesis unfolding exchanged_def by blast
qed

definition demo_handler :: DNSProxyHandler where
  "demo_handler = \<lparr>ClientCxIOHook = NoopIO, UpstreamCxIOHook = NoopIO, ProxyHook = NoopProxy, MaxUpstreamRetries = 0\<rparr>"

definition demo_proxy :: dotproxy where
  "demo_proxy = \<lparr>w_tick = 0, w_socks = w_socks udp_listener, w_trace = [], p_pools = p_pools idle_sys, p_tasks = [],
     sys_clients = sys_clients idle_sys, d_shard = NewFailoverShardedClient [0, 1]\<rparr>"

lemmas demo_handle_defs = Handle_def clientRead_def UDPConn_Read_def NewUDPConn_def sock_readfrom_def demo_proxy_def
  udp_listener_def get_sock_def io_ready_def expired_def Let_def upstream_Conn_def NewFailoverShardedClient_def
  Failover_Conn_def TLSClient_Conn_def PersistentConnPool_Conn_def conns_Pop_def MRUQueue_Pop_def pool_dial_def
  tls_dial_def tlsDialer_def sock_dial_def tls_handshake_def idle_pool_def idle_sys_def NewMRUQueue_def heap_Init_def
  Len_def set_conns_def NewPersistentConn_def NewTCPConn_def TCPConn_RemoteAddr_def upstreamTransact_def
  TCPConn_Write_def sock_write_def TCPConn_Read_def sock_read_def clientWrite_def UDPConn_Write_def sock_writeto_def
  report_def frame_def unframe_def BigEndian_PutUint16_def proxyUpstream.simps UDPConn_RemoteAddr_def

lemma demo_exchange:
  "\<exists>s'. run_state (Handle (upstream_Conn calm_env 1) calm_env demo_handler UDP (NetUDP (NewUDPConn 0 0 0))) demo_proxy = (Ret (), s')"
  by (simp add: demo_handle_defs)

theorem exchange_is_faithful_witness:
  "\<exists>s' client' b (pc :: PersistentConn) hdr body tr.
    run_state (Handle (upstream_Conn calm_env 1) calm_env demo_handler UDP (NetUDP (NewUDPConn 0 0 0))) demo_proxy = (Ret (), s') \<and>
    length body = unat (BigEndian_Uint16 hdr) \<and> w_trace s' = w_trace demo_proxy @ tr \<and>
    subseq [got client' b, EvWrote (tc_sock (pc_conn pc)) (frame UDP b), EvRead (tc_sock (pc_conn pc)) hdr,
            EvRead (tc_sock (pc_conn pc)) body, gave client' body] tr"
proof -
  obtain s' where run: "run_state (Handle (upstream_Conn calm_env 1) calm_env demo_handler UDP (NetUDP (NewUDPConn 0 0 0)))
      demo_proxy = (Ret (), s')" using demo_exchange by blast
  from exchange_is_faithful [OF calm_env_ok run] run show ?thesis unfolding if_P [OF refl] by blast
qed



text \<open>
  C11. The retries mask failures of single connections. \<open>proxyUpstream\<close> with a budget of \<open>retries\<close>
  gives up only if no connection can be opened, or after \<open>retries + 1\<close> connections have
  failed and been destroyed; when it succeeds, at most \<open>retries\<close> had failed before, and
  the connection that answered is the one returned to its pool. No connection is returned
  after a failure.
\<close>

theorem failure_only_after_retries:
  assumes "run_state (proxyUpstream (upstream_Conn e fuel) e h client req retries) s = (r, s')"
  shows "\<exists>ts ps. p_tasks s' = p_tasks s @ ts \<and>
    (\<forall>er. r = Fail er \<longrightarrow> handed ts = map TConnDestroy ps \<and>
       ((\<exists>er'. er = Errorf ''dns_proxy: error opening upstream connection: err=%v'' (Some er') \<and> length ps \<le> Suc retries) \<or>
        length ps = retries + 1)) \<and>
    (\<forall>resp pc. r = Ret (resp, pc) \<longrightarrow> handed ts = map TConnDestroy ps @ [TConnClose pc] \<and> length ps \<le> retries)"
proof -
  obtain tr ts where ts: "p_tasks s' = p_tasks s @ ts" "proxied retries req r tr ts"
    by (rule saysD [OF proxyUpstream_says [OF sharded.conn_hands_nothing] assms])
  then obtain ps where "length ps \<le> Suc retries" "case r of
      Ret (resp, pc) \<Rightarrow> handed ts = map TConnDestroy ps @ [TConnClose pc] \<and> length ps \<le> retries \<and> answered pc req resp tr
    | Fail er \<Rightarrow> handed ts = map TConnDestroy ps \<and> (open_failed er \<or> length ps = Suc retries)
    | _ \<Rightarrow> handed ts = map TConnDestroy ps \<and> length ps \<le> retries"
    unfolding proxied_def by blast
  with ts(1) show ?thesis by (intro exI [of _ ts] exI [of _ ps]) (auto simp: open_failed_def)
qed

text \<open>
  C31. The goroutine of an accepted TCP connection always closes it: whether the handler
  succeeds, fails or panics, when it ends the socket is closed, and the last things it
  did were to report the closure to the lifecycle hook and to close the socket.
\<close>

theorem tcp_client_closed:
  assumes "run_state (tcp_serve conn e tstr h srv c) s = (r, s')" "r \<noteq> Hang"
  shows "tc_sock c \<notin> open_set s' \<and>
    (\<exists>tr a. w_trace s' = tr @ [EvLifecycle (ts_cxHook srv) (CxClose a), EvClose (tc_sock c)])"
proof -
  obtain r1 s1 where run1: "run_state (Handle conn e h TCP (NetTCP c)) s = (r1, s1)" by (rule prod.exhaust)
  obtain r2 s2 where run2: "run_state (consume tstr h TCP r1) s1 = (r2, s2)" by (rule prod.exhaust)
  have "run_state (tcp_finish e tstr h srv c r1) s1 = (r, s')" using assms(1) run1 by (simp add: tcp_serve_def)
  then show ?thesis
  proof (rule tcp_finish_cases [OF _ run2])
    fix a x
    let ?s = "s2\<lparr>w_trace := w_trace s2 @ [EvLifecycle (ts_cxHook srv) (CxClose a)]\<rparr>"
    assume cl: "run_state (sock_close e (tc_sock c)) ?s = (x, s')"
    obtain n ks where s': "s' = ?s\<lparr>w_tick := n, w_socks := ks, w_trace := w_trace ?s @ [EvClose (tc_sock c)]\<rparr>"
        and ks: "open_ids ks = open_set ?s - {tc_sock c}"
      using sock_close_effect [OF cl] by blast
    have "w_trace s' = w_trace s2 @ [EvLifecycle (ts_cxHook srv) (CxClose a), EvClose (tc_sock c)]"
      unfolding s' by simp
    moreover have "tc_sock c \<notin> open_set s'" unfolding s' using ks by simp
    ultimately show ?thesis by blast
  qed (use assms(2) in simp)
qed

definition demo_tcp_server :: TCPServer where
  "demo_tcp_server = NewTCPServer '':53'' NoopLifecycle \<lparr>tcp_ReadTimeout = 0, tcp_WriteTimeout = 0\<rparr>"

text \<open>The client hangs up before it sends a request.\<close>

definition hangup_env :: env where
  "hangup_env = calm_env\<lparr>e_read := \<lambda>i c n. ([], Some (ErrEnv ''EOF''))\<rparr>"

lemma hangup_fails:
  "\<exists>er s'. run_state (Handle conn hangup_env demo_handler TCP (NetTCP (NewTCPConn 0 0 0))) demo_proxy = (Fail er, s')"
  by (simp add: hangup_env_def demo_handle_defs)

theorem tcp_client_closed_witness:
  "\<exists>r s'. run_state (tcp_serve (upstream_Conn hangup_env 1) hangup_env (\<lambda>_. ''TCP'') demo_handler demo_tcp_server
      (NewTCPConn 0 0 0)) demo_proxy = (r, s') \<and> 0 \<in> open_set demo_proxy \<and> 0 \<notin> open_set s'"
proof -
  let ?m = "tcp_serve (upstream_Conn hangup_env 1) hangup_env (\<lambda>_. ''TCP'') demo_handler demo_tcp_server (NewTCPConn 0 0 0)"
  obtain r s' where run: "run_state ?m demo_proxy = (r, s')" by (rule prod.exhaust)
  have "r \<noteq> Hang"
    using run hangup_fails [of "upstream_Conn hangup_env 1"]
    by (auto simp: tcp_serve_def tcp_finish_def consume_def split: prod.splits)
  moreover have "0 \<in> open_set demo_proxy" by (simp add: demo_proxy_def udp_listener_def open_ids_def)
  ultimately show ?thesis using tcp_client_closed [OF run] run by (auto simp: NewTCPConn_def)
qed

definition hangup_error :: go_err where
  "hangup_error = Errorf ''dns_proxy: error reading header from upstream: err=%v bytes=%d'' (Some (ErrEnv ''EOF''))"

lemma hangup_exchange:
  "\<exists>s'. run_state (proxyUpstream (upstream_Conn hangup_env 1) hangup_env demo_handler (NetTCP (NewTCPConn 0 0 0)) [0, 0] 1) demo_proxy
    = (Fail hangup_error, s')"
  by (simp add: hangup_env_def hangup_error_def demo_handle_defs)

theorem failure_only_after_retries_witness:
  "\<exists>s' ts ps. run_state (proxyUpstream (upstream_Conn hangup_env 1) hangup_env demo_handler (NetTCP (NewTCPConn 0 0 0)) [0, 0] 1)
      demo_proxy = (Fail hangup_error, s') \<and>
    p_tasks s' = p_tasks demo_proxy @ ts \<and> handed ts = map TConnDestroy ps \<and> length ps = 2"
proof -
  obtain s' where run: "run_state (proxyUpstream (upstream_Conn hangup_env 1) hangup_env demo_handler
      (NetTCP (NewTCPConn 0 0 0)) [0, 0] 1) demo_proxy = (Fail hangup_error, s')" using hangup_exchange by blast
  from failure_only_after_retries [OF run] obtain ts ps where
      "p_tasks s' = p_tasks demo_proxy @ ts" "handed ts = map TConnDestroy ps" "length ps = 2"
    by (auto simp: hangup_error_def)
  with run show ?thesis by blast
qed

end
