(* ===== verification/Client_Stats.thy ===== *)
theory Client_Stats
  imports Server
begin

text \<open>
  The statistics of \<^verbatim>\<open>src/internal/network/client.go\<close> and \<^verbatim>\<open>sharding.go\<close>. A call of \<open>Conn\<close> does not
  update the counters itself: it starts a goroutine that does, under a lock. Proved here:
  a counter and the goroutines still to come add up to the number of calls with that
  outcome, however the goroutines run; so when none is due, the statistics of a
  client and of a sharded client are exact, in 64-bit arithmetic.
\<close>

section \<open>The system with a log of calls\<close>

text \<open>
  \<open>counted\<close> is the system of theory \<open>Pool_System\<close> with a log of the calls of \<open>Conn\<close> that have
  returned: the client, and whether it returned a connection.
\<close>

type_synonym call_log = "(nat \<times> bool) list"

inductive counted :: "env \<Rightarrow> lifecycle_hook \<Rightarrow> server_conf list \<Rightarrow> call_log \<Rightarrow> config \<Rightarrow> bool" for e hook cs where
  start: "counted e hook cs [] (new_clients hook cs empty_sys, [])"
| acquire: "counted e hook cs calls (s, H) \<Longrightarrow> i < length (sys_clients s) \<Longrightarrow>
    run_state (TLSClient_Conn e i) s = (Ret pc, s') \<Longrightarrow> counted e hook cs (calls @ [(i, True)]) (s', pc # H)"
| refused: "counted e hook cs calls (s, H) \<Longrightarrow> i < length (sys_clients s) \<Longrightarrow>
    run_state (TLSClient_Conn e i) s = (Fail er, s') \<Longrightarrow> counted e hook cs (calls @ [(i, False)]) (s', H)"
| io: "counted e hook cs calls (s, H) \<Longrightarrow> quiet s s' \<Longrightarrow> counted e hook cs calls (s', H)"
| hand_over: "counted e hook cs calls (s, H) \<Longrightarrow> k < length H \<Longrightarrow> t \<in> {TConnClose (H ! k), TConnDestroy (H ! k)} \<Longrightarrow>
    run_state (spawn t) s = (r, s') \<Longrightarrow> counted e hook cs calls (s', remove_nth k H)"
| goroutine: "counted e hook cs calls (s, H) \<Longrightarrow> k < length (p_tasks s) \<Longrightarrow>
    run_state (run_task e (p_tasks s ! k)) (take_task k s) = (r, s') \<Longrightarrow> counted e hook cs calls (s', H)"

lemma counted_reachable: "counted e hook cs calls c \<Longrightarrow> reachable e hook cs c"
proof (induction rule: counted.induct)
  case (hand_over calls s H k t r s')
  then show ?case using reachable.step sys_step.release sys_step.discard by (metis insertE singletonD)
qed (blast intro: reachable.intros sys_step.intros)+

lemma reachable_counted: "reachable e hook cs c \<Longrightarrow> \<exists>calls. counted e hook cs calls c"
proof (induction rule: reachable.induct)
  case (step c c')
  then obtain calls where "counted e hook cs calls c" by blast
  with step(2) show ?case by (induction rule: sys_step.induct) (blast intro: counted.intros)+
qed (blast intro: counted.start)

section \<open>What each step does to the books\<close>

fun tally :: "bool \<Rightarrow> Stats \<Rightarrow> int" where
  "tally True st = SuccessfulConnections st"
| "tally False st = FailedConnections st"

definition due :: "nat \<Rightarrow> bool \<Rightarrow> 'z pools_scheme \<Rightarrow> nat" where
  "due i ok s = count_list (p_tasks s) (TStats i ok)"

definition books :: "call_log \<Rightarrow> 'z sys_scheme \<Rightarrow> bool" where
  "books calls s \<longleftrightarrow> (\<forall>i < length (sys_clients s). \<forall>ok. in64 (tally ok (c_stats (sys_clients s ! i))) \<and>
     wrap64 (tally ok (c_stats (sys_clients s ! i)) + int (due i ok s)) = wrap64 (int (count_list calls (i, ok))))"

lemma tally_bump: "tally ok (bump ok' st) = (if ok = ok' then wrap64 (tally ok st + 1) else tally ok st)"
  by (cases ok; cases ok') (simp_all add: bump_def)

lemma books_cong:
  assumes "books calls s" "sys_clients s' = sys_clients s" "\<And>i ok. due i ok s' = due i ok s"
  shows "books calls s'"
  using assms by (simp add: books_def)

abbreviation counts_nothing :: "task \<Rightarrow> bool" where
  "counts_nothing t \<equiv> \<forall>i ok. t \<noteq> TStats i ok"

lemma uncounted_due:
  assumes "\<forall>t \<in> set ts. counts_nothing t" "p_tasks s' = p_tasks s @ ts"
  shows "due i ok s' = due i ok s"
proof -
  have "TStats i ok \<notin> set ts" using assms(1) by blast
  then show ?thesis by (simp add: due_def assms(2) count_notin)
qed

lemma wrap64_one_more:
  assumes "wrap64 (x + int n) = wrap64 (int m)"
  shows "wrap64 (x + int (Suc n)) = wrap64 (int (Suc m))"
proof -
  have "wrap64 (x + int (Suc n)) = wrap64 (wrap64 (x + int n) + 1)" by (simp add: wrap64_add) (simp add: ac_simps)
  also have "\<dots> = wrap64 (int (Suc m))" unfolding assms by (simp add: wrap64_add) (simp add: ac_simps)
  finally show ?thesis .
qed

lemma books_call:
  assumes "books calls s" "sys_clients s' = sys_clients s" "p_tasks s' = p_tasks s @ ts @ [TStats i ok]"
    and "\<forall>t \<in> set ts. counts_nothing t"
  shows "books (calls @ [(i, ok)]) s'"
proof -
  have due: "due j ok' s' = (if (j, ok') = (i, ok) then Suc (due j ok' s) else due j ok' s)" for j ok'
  proof -
    have "TStats j ok' \<notin> set ts" using assms(4) by blast
    then show ?thesis by (auto simp: due_def assms(3) count_notin)
  qed
  have calls: "count_list (calls @ [(i, ok)]) (j, ok') =
      (if (j, ok') = (i, ok) then Suc (count_list calls (j, ok')) else count_list calls (j, ok'))" for j ok' by auto
  show ?thesis
    unfolding books_def assms(2)
  proof (intro allI impI)
    fix j ok' assume "j < length (sys_clients s)"
    then have "in64 (tally ok' (c_stats (sys_clients s ! j)))"
      "wrap64 (tally ok' (c_stats (sys_clients s ! j)) + int (due j ok' s)) = wrap64 (int (count_list calls (j, ok')))"
      using assms(1) by (simp_all add: books_def)
    then show "in64 (tally ok' (c_stats (sys_clients s ! j))) \<and> wrap64 (tally ok' (c_stats (sys_clients s ! j)) + int (due j ok' s')) =
        wrap64 (int (count_list (calls @ [(i, ok)]) (j, ok')))"
      unfolding due calls by (cases "(j, ok') = (i, ok)") (simp_all only: if_True if_False wrap64_one_more simp_thms)
  qed
qed

lemma Conn_books:
  assumes "books calls s" "run_state (TLSClient_Conn e i) s = (r, s')" "(\<exists>pc. r = Ret pc) \<and> ok \<or> (\<exists>er. r = Fail er) \<and> \<not> ok"
  shows "books (calls @ [(i, ok)]) s'"
proof -
  let ?m = "PersistentConnPool_Conn (tls_dial e) e (c_pool (sys_clients s ! i))"
  obtain r1 s1 where run: "run_state ?m s = (r1, s1)" by (rule prod.exhaust)
  have "spawns counts_nothing ?m"
    unfolding PersistentConnPool_Conn_def pool_dial_def tls_dial_def tlsDialer_def sock_dial_def by (intro spawns_rules; simp)
  then obtain ts where ts: "p_tasks s1 = p_tasks s @ ts" "\<forall>t \<in> set ts. counts_nothing t"
    using run unfolding spawns_def by (rule saysD) blast
  have "p_tasks s' = p_tasks s @ ts @ [TStats i ok]"
    using assms(2,3) run ts(1) by (auto simp: TLSClient_Conn_def split: gores.splits)
  from books_call [OF assms(1) TLSClient_Conn_clients [OF assms(2)] this ts(2)] show ?thesis .
qed

lemma take_due:
  assumes "k < length (p_tasks s)"
  shows "due i ok s = due i ok (take_task k s) + (if p_tasks s ! k = TStats i ok then 1 else 0)"
  by (simp add: due_def take_task_def flip: count_mset mset_remove_nth [OF assms])

lemma record_books:
  assumes "books calls s" "k < length (p_tasks s)" "p_tasks s ! k = TStats j ok"
    and "run_state (record_stats j ok) (take_task k s) = (r, s')"
  shows "books calls s'"
  unfolding books_def
proof (intro allI impI)
  fix i ok' assume i: "i < length (sys_clients s')"
  let ?st = "c_stats (sys_clients s ! i)"
  have s': "sys_clients s' = (sys_clients s)[j := (sys_clients s ! j)\<lparr>c_stats := bump ok (c_stats (sys_clients s ! j))\<rparr>]"
    "p_tasks s' = p_tasks (take_task k s)"
    using assms(4) by (auto simp: record_stats_def take_task_def)
  with i have b: "in64 (tally ok' ?st)" "wrap64 (tally ok' ?st + int (due i ok' s)) = wrap64 (int (count_list calls (i, ok')))"
    using assms(1) by (simp_all add: books_def)
  show "in64 (tally ok' (c_stats (sys_clients s' ! i))) \<and>
      wrap64 (tally ok' (c_stats (sys_clients s' ! i)) + int (due i ok' s')) = wrap64 (int (count_list calls (i, ok')))"
  proof (cases "i = j \<and> ok' = ok")
    case True
    then have "c_stats (sys_clients s' ! i) = bump ok ?st" "due i ok' s = Suc (due i ok' s')"
      using s' i take_due [OF assms(2), of i ok'] assms(3) by (auto simp: due_def)
    moreover have "wrap64 (wrap64 (x + 1) + int n) = wrap64 (x + int (Suc n))" for x n by (simp add: wrap64_add add.assoc)
    ultimately show ?thesis using b(2) True by (simp add: tally_bump)
  next
    case False
    have "c_stats (sys_clients s' ! i) = (if i = j then bump ok ?st else ?st)" using s'(1) i by (simp add: nth_list_update)
    with False have "tally ok' (c_stats (sys_clients s' ! i)) = tally ok' ?st" by (auto simp: tally_bump)
    moreover have "due i ok' s = due i ok' s'"
      using s'(2) take_due [OF assms(2), of i ok'] assms(3) False by (auto simp: due_def)
    ultimately show ?thesis using b by simp
  qed
qed

lemma task_books:
  assumes "books calls s" "k < length (p_tasks s)" "run_state (run_task e (p_tasks s ! k)) (take_task k s) = (r, s')"
  shows "books calls s'"
proof (cases "counts_nothing (p_tasks s ! k)")
  case True
  let ?t = "p_tasks s ! k"
  have "spawns counts_nothing (run_task e ?t)"
    using True by (cases ?t)
      (auto simp: populate_step_def tls_dial_def tlsDialer_def sock_dial_def PersistentConn_Close_def
        PersistentConn_Destroy_def closer_def pool_put_def TCPConn_Close_def intro!: spawns_rules)
  then obtain ts where ts: "p_tasks s' = p_tasks (take_task k s) @ ts" "\<forall>t \<in> set ts. counts_nothing t"
    using assms(3) unfolding spawns_def by (rule saysD) blast
  show ?thesis
  proof (rule books_cong [OF assms(1)])
    show "sys_clients s' = sys_clients s"
      using same_more [OF run_task_more [OF assms(3)]] True by (simp add: take_task_def)
    show "due i ok s' = due i ok s" for i ok
      using uncounted_due [OF ts(2,1)] take_due [OF assms(2)] True by simp
  qed
next
  case False
  then obtain j ok where t: "p_tasks s ! k = TStats j ok" by blast
  with assms(3) have "run_state (record_stats j ok) (take_task k s) = (r, s')" by simp
  from record_books [OF assms(1,2) t this] show ?thesis .
qed

lemma new_clients_books:
  assumes "books [] s" "\<forall>t \<in> set (p_tasks s). counts_nothing t"
  shows "books [] (new_clients hook cs s)"
  using assms
proof (induction cs arbitrary: s)
  case (Cons c cs)
  obtain a sn opts where c: "c = (a, sn, opts)" by (cases c) auto
  let ?s = "snd (run_state (NewTLSClient a sn hook opts) s)"
  obtain c1 where s: "sys_clients ?s = sys_clients s @ [c1]" "\<And>ok. tally ok (c_stats c1) = 0"
      "\<exists>p n. p_tasks ?s = p_tasks s @ [TPopulate p n]"
    by (simp add: NewTLSClient_def NewPersistentConnPool_def) (metis (full_types) TLSClient.select_convs(3) Stats.select_convs tally.simps)
  then have uncounted: "\<forall>t \<in> set (p_tasks ?s). counts_nothing t" using Cons.prems(2) by (auto; blast)
  then have "due i ok ?s = 0" "due i ok s = 0" for i ok
    using Cons.prems(2) unfolding due_def by (blast intro: count_notin)+
  moreover have "in64 0" "wrap64 0 = 0" by (simp_all add: in64_def)
  ultimately have "books [] ?s" using Cons.prems(1) s(1,2) by (simp add: books_def nth_append less_Suc_eq) (metis wrap64_id)
  with uncounted show ?case using Cons.IH [of ?s] by (simp add: c)
qed simp

lemma counted_books: "counted e hook cs calls c \<Longrightarrow> books calls (fst c)"
proof (induction rule: counted.induct)
  case start
  show ?case unfolding fst_conv by (rule new_clients_books) (simp_all add: books_def empty_sys_def)
next
  case (acquire calls s H i pc s')
  then show ?case using Conn_books [OF _ acquire(3), of calls True] by simp
next
  case (refused calls s H i er s')
  then show ?case using Conn_books [OF _ refused(3), of calls False] by simp
next
  case (io calls s H s')
  from io(2) have "sys_clients s' = sys_clients s" "p_tasks s' = p_tasks s" by (auto simp: quiet_def)
  with io(3) show ?case by (auto intro: books_cong simp: due_def)
next
  case (hand_over calls s H k t r s')
  then have "sys_clients s' = sys_clients s" "p_tasks s' = p_tasks s @ [t]" "counts_nothing t" by auto
  with hand_over(5) uncounted_due [of "[t]" s' s] show ?case by (auto intro: books_cong)
next
  case (goroutine calls s H k r s')
  then show ?case using task_books by simp
qed

lemma wrap64_sum_list: "wrap64 (\<Sum>x \<leftarrow> xs. wrap64 (f x)) = wrap64 (\<Sum>x \<leftarrow> xs. f x)"
proof (induction xs)
  case (Cons x xs)
  have "wrap64 (wrap64 (f x) + (\<Sum>x \<leftarrow> xs. wrap64 (f x))) = wrap64 (wrap64 (\<Sum>x \<leftarrow> xs. wrap64 (f x)) + f x)"
    by (simp add: wrap64_add) (simp add: add.commute)
  also have "\<dots> = wrap64 (f x + (\<Sum>x \<leftarrow> xs. f x))" unfolding Cons by (simp add: wrap64_add) (simp add: add.commute)
  finally show ?case by simp
qed simp

lemma books_settled:
  assumes "books calls s" "p_tasks s = []" "i < length (sys_clients s)"
  shows "tally ok (c_stats (sys_clients s ! i)) = wrap64 (int (count_list calls (i, ok)))"
proof -
  have "in64 (tally ok (c_stats (sys_clients s ! i)))"
    "wrap64 (tally ok (c_stats (sys_clients s ! i)) + int (due i ok s)) = wrap64 (int (count_list calls (i, ok)))"
    using assms(1,3) by (simp_all add: books_def)
  then show ?thesis using assms(2) by (simp add: due_def)
qed

section \<open>Properties\<close>

text \<open>
  C27. The statistics are exact. However requests and goroutines interleave, a client's
  counter together with the goroutines that have still to count equals the number of
  calls of \<open>Conn\<close> on it with that outcome, as a 64-bit integer: no call is lost and none
  counted twice. When no goroutine is pending, the statistics of a sharded client are the
  numbers of successful and failed calls on all its clients, and reading them changes nothing.
\<close>

theorem statistics_count_calls:
  assumes "counted e hook cs calls (s, H)" "set (shard_clients sc) \<subseteq> {..<length (sys_clients s)}"
  shows "(\<forall>i < length (sys_clients s). \<forall>ok.
      wrap64 (tally ok (c_stats (sys_clients s ! i)) + int (due i ok s)) = wrap64 (int (count_list calls (i, ok)))) \<and>
    (p_tasks s = [] \<longrightarrow> run_state (ShardedClient_Stats TLSClient_Stats sc) s =
      (\<lparr>SuccessfulConnections = wrap64 (\<Sum>c \<leftarrow> shard_clients sc. int (count_list calls (c, True))),
        FailedConnections = wrap64 (\<Sum>c \<leftarrow> shard_clients sc. int (count_list calls (c, False)))\<rparr>, s))"
proof (intro conjI impI)
  have books: "books calls s" using counted_books [OF assms(1)] by simp
  then show "\<forall>i < length (sys_clients s). \<forall>ok.
      wrap64 (tally ok (c_stats (sys_clients s ! i)) + int (due i ok s)) = wrap64 (int (count_list calls (i, ok)))"
    by (simp add: books_def)
  assume "p_tasks s = []"
  then have tally: "tally ok (c_stats (sys_clients s ! c)) = wrap64 (int (count_list calls (c, ok)))"
    if "c \<in> set (shard_clients sc)" for c ok using that assms(2) by (intro books_settled [OF books]) auto
  have "(\<Sum>c \<leftarrow> shard_clients sc. tally ok (c_stats (sys_clients s ! c))) =
      (\<Sum>c \<leftarrow> shard_clients sc. wrap64 (int (count_list calls (c, ok))))" for ok
    by (intro arg_cong [where f = sum_list] map_cong refl tally)
  from this [of True] this [of False] show "run_state (ShardedClient_Stats TLSClient_Stats sc) s =
      (\<lparr>SuccessfulConnections = wrap64 (\<Sum>c \<leftarrow> shard_clients sc. int (count_list calls (c, True))),
        FailedConnections = wrap64 (\<Sum>c \<leftarrow> shard_clients sc. int (count_list calls (c, False)))\<rparr>, s)"
    by (simp add: stats_are_summed wrap64_sum_list)
qed

lemma first_call_counted: "\<exists>s pc. counted calm_env NoopLifecycle [demo_conf] [(0, True)] (s, [pc]) \<and> length (sys_clients s) = 1"
proof -
  let ?s = "new_clients NoopLifecycle [demo_conf] empty_sys"
  obtain pc s where "run_state (TLSClient_Conn calm_env 0) ?s = (Ret pc, s)" "length (sys_clients ?s) = 1" "length (sys_clients s) = 1"
    by (auto simp: demo_defs)
  with counted.acquire [OF counted.start, of 0 NoopLifecycle "[demo_conf]" calm_env pc s] show ?thesis by auto
qed

theorem statistics_count_calls_witness:
  "(\<exists>s pc. counted calm_env NoopLifecycle [demo_conf] [(0, True)] (s, [pc]) \<and>
      wrap64 (tally True (c_stats (sys_clients s ! 0)) + int (due 0 True s)) = 1) \<and>
    (\<exists>calls. counted calm_env NoopLifecycle [demo_conf] calls leak_run \<and>
      run_state (ShardedClient_Stats TLSClient_Stats (NewRoundRobinShardedClient [0])) (fst leak_run) =
        (\<lparr>SuccessfulConnections = wrap64 (int (count_list calls (0, True))),
          FailedConnections = wrap64 (int (count_list calls (0, False)))\<rparr>, fst leak_run))"
proof (rule conjI)
  let ?sc = "NewRoundRobinShardedClient [0]"
  obtain s pc where s: "counted calm_env NoopLifecycle [demo_conf] [(0, True)] (s, [pc])" "length (sys_clients s) = 1"
    using first_call_counted by blast
  then have "set (shard_clients ?sc) \<subseteq> {..<length (sys_clients s)}" by (simp add: NewRoundRobinShardedClient_def)
  note all = statistics_count_calls [OF s(1) this, THEN conjunct1, rule_format]
  from all [of 0 True] s(2) have "wrap64 (tally True (c_stats (sys_clients s ! 0)) + int (due 0 True s)) = wrap64 1" by simp
  with s(1) show "\<exists>s pc. counted calm_env NoopLifecycle [demo_conf] [(0, True)] (s, [pc]) \<and>
      wrap64 (tally True (c_stats (sys_clients s ! 0)) + int (due 0 True s)) = 1" by (auto simp: in64_def)
  obtain calls where calls: "counted calm_env NoopLifecycle [demo_conf] calls (fst leak_run, snd leak_run)"
    using reachable_counted [OF leak_run_reachable] by blast
  from statistics_count_calls [OF this, of ?sc] leak_run_facts(2,5) calls
  show "\<exists>calls. counted calm_env NoopLifecycle [demo_conf] calls leak_run \<and>
      run_state (ShardedClient_Stats TLSClient_Stats ?sc) (fst leak_run) =
        (\<lparr>SuccessfulConnections = wrap64 (int (count_list calls (0, True))),
          FailedConnections = wrap64 (int (count_list calls (0, False)))\<rparr>, fst leak_run)"
    by (auto simp: NewRoundRobinShardedClient_def)
qed

end
