(* ===== verification/Live_System.thy ===== *)
theory Live_System
  imports Server Round_Robin_Race
begin

text \<open>
  The running program with many requests at a time. A job is a request in flight, on a UDP
  worker of \<^verbatim>\<open>src/internal/network/server.go\<close> or on the goroutine of an accepted TCP connection,
  in some phase of the handler. In the system \<open>live_step\<close> the phases of all jobs, the accept
  loop and the background goroutines of the pools interleave in any order; a panic of a
  request ends the process.

  Proved here for every interleaving: the process never panics and every socket stays
  accounted for, the number of UDP requests in flight is bounded by the number of
  workers, and what a request has answered is what its own exchange brought.
\<close>

section \<open>Requests in flight\<close>

record deployment =
  dp_handler :: DNSProxyHandler
  dp_udp :: "(UDPServer \<times> cid) option"
  dp_tcp :: "(TCPServer \<times> cid) option"

datatype origin = FromUDP | FromTCP TCPConn

text \<open>\<open>j_start\<close> is the length of the trace when the job began; nothing depends on it.\<close>

record job =
  j_origin :: origin
  j_client :: NetConn
  j_start :: nat
  j_phase :: phase

fun transport_of :: "origin \<Rightarrow> Transport" where
  "transport_of FromUDP = UDP"
| "transport_of (FromTCP c) = TCP"

definition new_job :: "origin \<Rightarrow> NetConn \<Rightarrow> 'z world_scheme \<Rightarrow> job" where
  "new_job orig client s =
     \<lparr>j_origin = orig, j_client = client, j_start = length (w_trace s), j_phase = Reading client\<rparr>"

definition udp_jobs :: "job list \<Rightarrow> job list" where
  "udp_jobs js = filter (\<lambda>j. j_origin j = FromUDP) js"

datatype live_state = Live dotproxy "job list" | Crashed go_panic

text \<open>
  What calls of \<open>Conn\<close> that overlap may leave in the load balancer: any index in range, any
  table of failures. The first is shown in theory \<open>Round_Robin_Race\<close>.
\<close>

fun disturbed :: "'c ShardedClient \<Rightarrow> 'c ShardedClient \<Rightarrow> bool" where
  "disturbed (SRoundRobin c) (SRoundRobin c') \<longleftrightarrow> rr_clients c' = rr_clients c \<and> rrIdx c' < length (rr_clients c)"
| "disturbed (SAvailability c) (SAvailability c') \<longleftrightarrow> av_clients c' = av_clients c"
| "disturbed sc sc' \<longleftrightarrow> sc' = sc"

lemma disturbed_ok: "disturbed sc sc' \<Longrightarrow> shard_ok C sc \<Longrightarrow> shard_ok C sc'"
  by (induction sc sc' rule: disturbed.induct) (auto simp: shard_ok_def)

text \<open>
  \<open>work_step\<close> is the work on what is there: requests in flight and pending goroutines;
  \<open>live_step\<close> adds what comes from outside. A call that does not return makes no step; the
  fuel of the upstream client is arbitrary in each step. Acquiring a connection is one step, and the step \<open>disturb\<close> before and after
  it stands for the calls it overlaps with.
\<close>

inductive work_step :: "env \<Rightarrow> (Transport \<Rightarrow> string) \<Rightarrow> deployment \<Rightarrow> live_state \<Rightarrow> live_state \<Rightarrow> bool" for e tstr d where
  advance: "k < length js \<Longrightarrow> \<nexists>r. j_phase (js ! k) = Finished r \<Longrightarrow>
    run_state (phase_step (upstream_Conn e fuel) e (dp_handler d) (transport_of (j_origin (js ! k))) (j_phase (js ! k))) s
      = (ph, s') \<Longrightarrow>
    ph \<noteq> Finished Hang \<Longrightarrow> work_step e tstr d (Live s js) (Live s' (js[k := (js ! k)\<lparr>j_phase := ph\<rparr>]))"
| udp_end: "k < length js \<Longrightarrow> j_origin (js ! k) = FromUDP \<Longrightarrow> j_phase (js ! k) = Finished r \<Longrightarrow>
    run_state (consume tstr (dp_handler d) UDP r) s = (Ret (), s') \<Longrightarrow>
    work_step e tstr d (Live s js) (Live s' (remove_nth k js))"
| tcp_end: "dp_tcp d = Some (srv, lis) \<Longrightarrow> k < length js \<Longrightarrow> j_origin (js ! k) = FromTCP c \<Longrightarrow>
    j_phase (js ! k) = Finished r \<Longrightarrow> run_state (tcp_finish e tstr (dp_handler d) srv c r) s = (Ret (), s') \<Longrightarrow>
    work_step e tstr d (Live s js) (Live s' (remove_nth k js))"
| panic: "k < length js \<Longrightarrow> j_phase (js ! k) = Finished (Panic q) \<Longrightarrow> work_step e tstr d (Live s js) (Crashed q)"
| goroutine: "k < length (p_tasks s) \<Longrightarrow> run_state (run_task e (p_tasks s ! k)) (take_task k s) = (r, s') \<Longrightarrow>
    work_step e tstr d (Live s js) (Live s' js)"

inductive live_step :: "env \<Rightarrow> (Transport \<Rightarrow> string) \<Rightarrow> deployment \<Rightarrow> live_state \<Rightarrow> live_state \<Rightarrow> bool" for e tstr d where
  udp_begin: "dp_udp d = Some (srv, sock) \<Longrightarrow>
    length (udp_jobs js) < nat (MaxConcurrentConnections (us_opts srv)) \<Longrightarrow>
    client = NetUDP (NewUDPConn sock (udp_ReadTimeout (us_opts srv)) (udp_WriteTimeout (us_opts srv))) \<Longrightarrow>
    live_step e tstr d (Live s js) (Live s (new_job FromUDP client s # js))"
| accept: "dp_tcp d = Some (srv, lis) \<Longrightarrow> run_state (tcp_accept e tstr (dp_handler d) srv lis) s = (Some c, s') \<Longrightarrow>
    live_step e tstr d (Live s js) (Live s' (new_job (FromTCP c) (NetTCP c) s' # js))"
| accept_error: "dp_tcp d = Some (srv, lis) \<Longrightarrow> run_state (tcp_accept e tstr (dp_handler d) srv lis) s = (None, s') \<Longrightarrow>
    live_step e tstr d (Live s js) (Live s' js)"
| disturb: "disturbed (d_shard s) sc \<Longrightarrow> live_step e tstr d (Live s js) (Live (s\<lparr>d_shard := sc\<rparr>) js)"
| work: "work_step e tstr d c c' \<Longrightarrow> live_step e tstr d c c'"

inductive live_reach :: "env \<Rightarrow> (Transport \<Rightarrow> string) \<Rightarrow> deployment \<Rightarrow> dotproxy \<Rightarrow> live_state \<Rightarrow> bool" for e tstr d s0 where
  start: "live_reach e tstr d s0 (Live s0 [])"
| step: "live_reach e tstr d s0 c \<Longrightarrow> live_step e tstr d c c' \<Longrightarrow> live_reach e tstr d s0 c'"

lemma new_job_simps [simp]:
  "j_origin (new_job orig client s) = orig" "j_client (new_job orig client s) = client"
  "j_start (new_job orig client s) = length (w_trace s)" "j_phase (new_job orig client s) = Reading client"
  by (simp_all add: new_job_def)

section \<open>Ownership\<close>

fun origin_socks :: "origin \<Rightarrow> cid multiset" where
  "origin_socks FromUDP = {#}"
| "origin_socks (FromTCP c) = {#tc_sock c#}"

definition clients_held :: "job list \<Rightarrow> cid multiset" where
  "clients_held js = (\<Sum>j \<in># mset js. origin_socks (j_origin j))"

definition upstreams_held :: "job list \<Rightarrow> cid multiset" where
  "upstreams_held js = (\<Sum>j \<in># mset js. phase_socks (j_phase j))"

abbreviation jobs_held :: "job list \<Rightarrow> cid multiset" where
  "jobs_held js \<equiv> clients_held js + upstreams_held js"

definition live_inv :: "nat \<Rightarrow> int list \<Rightarrow> nat \<Rightarrow> cid multiset \<Rightarrow> live_state \<Rightarrow> bool" where
  "live_inv n K B Ls c \<longleftrightarrow> (case c of
     Live s js \<Rightarrow> (\<exists>L b. size L + b \<le> B \<and> dot_inv n K b (jobs_held js + (Ls + L)) s) \<and>
       (\<forall>j \<in> set js. phase_ok (length K) (j_phase j))
   | Crashed q \<Rightarrow> False)"

lemma jobs_held_simps [simp]:
  "clients_held [] = {#}" "upstreams_held [] = {#}"
  "clients_held (j # js) = origin_socks (j_origin j) + clients_held js"
  "upstreams_held (j # js) = phase_socks (j_phase j) + upstreams_held js"
  by (simp_all add: clients_held_def upstreams_held_def)

lemma held_nth:
  assumes "k < length js"
  shows "clients_held js = origin_socks (j_origin (js ! k)) + clients_held (remove_nth k js)"
    and "upstreams_held js = phase_socks (j_phase (js ! k)) + upstreams_held (remove_nth k js)"
  unfolding clients_held_def upstreams_held_def by (simp_all flip: mset_remove_nth [OF assms])

lemma held_twice:
  assumes "i < length js" "k < length js" "i \<noteq> k" "c \<in># phase_socks (j_phase (js ! i))" "c \<in># phase_socks (j_phase (js ! k))"
  shows "2 \<le> count (upstreams_held js) c"
proof -
  have "count (upstreams_held js) c = sum_list (map (\<lambda>j. count (phase_socks (j_phase j)) c) js)"
    by (induction js) simp_all
  then have sum: "count (upstreams_held js) c = (\<Sum>i < length js. count (phase_socks (j_phase (js ! i))) c)"
    by (simp add: sum_list_sum_nth atLeast0LessThan)
  have "2 \<le> (\<Sum>i \<in> {i, k}. count (phase_socks (j_phase (js ! i))) c)"
    using assms(3-5) by (simp flip: count_greater_zero_iff)
  also have "\<dots> \<le> count (upstreams_held js) c"
    unfolding sum using assms(1,2) by (intro sum_mono2) auto
  finally show ?thesis .
qed

lemma held_update:
  assumes "k < length js"
  shows "clients_held (js[k := (js ! k)\<lparr>j_phase := ph\<rparr>]) = clients_held js"
    and "upstreams_held (js[k := (js ! k)\<lparr>j_phase := ph\<rparr>]) = phase_socks ph + upstreams_held (remove_nth k js)"
  unfolding clients_held_def upstreams_held_def
  by (simp_all add: mset_replace_nth [OF assms] flip: mset_remove_nth [OF assms])

lemma advance_inv:
  assumes "env_ok e" "k < length js" "dot_inv n K b (jobs_held js + X) s" "phase_ok (length K) (j_phase (js ! k))"
    and "run_state (phase_step (upstream_Conn e fuel) e h transport (j_phase (js ! k))) s = (ph, s')" "ph \<noteq> Finished Hang"
  shows "phase_ok (length K) ph \<and> dot_inv n K b (jobs_held (js[k := (js ! k)\<lparr>j_phase := ph\<rparr>]) + X) s'"
proof -
  let ?X = "clients_held js + upstreams_held (remove_nth k js) + X"
  have "dot_inv n K b (phase_socks (j_phase (js ! k)) + ?X) s"
    using assms(3) by (simp add: held_nth(2) [OF assms(2)] ac_simps)
  from sharded.phase_step_owns [OF assms(1) this assms(4,5)] assms(6)
  show ?thesis by (simp add: held_update [OF assms(2)] ac_simps)
qed

lemma set_remove_nth_jobs: "\<forall>j \<in> set js. P j \<Longrightarrow> \<forall>j \<in> set (remove_nth k js). P j"
  using set_remove_nth [of k js] by blast

lemma job_end_inv:
  assumes "k < length js" "j_phase (js ! k) = Finished r"
  shows "jobs_held js = origin_socks (j_origin (js ! k)) + jobs_held (remove_nth k js)"
  using held_nth [OF assms(1)] assms(2) by (simp add: ac_simps)

lemma dot_inv_disturbed: "dot_inv n K b X s \<Longrightarrow> disturbed (d_shard s) sc \<Longrightarrow> dot_inv n K b X (s\<lparr>d_shard := sc\<rparr>)"
  by (auto simp: dot_inv_def clients_inv_def clients_ok_def good_def pools_ok_def accounts_def owned_def fills_def
      intro: disturbed_ok)

lemma work_step_inv:
  assumes "env_ok e" "work_step e tstr d c c'" "live_inv n K B Ls c"
  shows "live_inv n K B Ls c'"
  using assms(2,3)
proof (induction rule: work_step.induct)
  case (advance k js fuel s ph s')
  then obtain L b where L: "size L + b \<le> B" "dot_inv n K b (jobs_held js + (Ls + L)) s"
      and js: "\<forall>j \<in> set js. phase_ok (length K) (j_phase j)" by (auto simp: live_inv_def)
  have "phase_ok (length K) ph" "dot_inv n K b (jobs_held (js[k := (js ! k)\<lparr>j_phase := ph\<rparr>]) + (Ls + L)) s'"
    using advance_inv [OF assms(1) advance(1) L(2) _ advance(3,4)] js advance(1) by auto
  with L(1) js set_update_subset_insert [of js k "(js ! k)\<lparr>j_phase := ph\<rparr>"] show ?case
    by (fastforce simp: live_inv_def)
next
  case (udp_end k js r s s')
  then obtain L b where L: "size L + b \<le> B" "dot_inv n K b (jobs_held js + (Ls + L)) s"
      and js: "\<forall>j \<in> set js. phase_ok (length K) (j_phase j)" by (auto simp: live_inv_def)
  have "dot_inv n K b (jobs_held (remove_nth k js) + (Ls + L)) s'"
    using dot_inv_quiet [OF hushed_consume L(2) udp_end(4)] udp_end(2) by (simp add: job_end_inv [OF udp_end(1,3)])
  with L(1) set_remove_nth_jobs [OF js, of k] show ?case by (auto simp: live_inv_def)
next
  case (tcp_end srv lis k js c r s s')
  then obtain L b where L: "size L + b \<le> B" "dot_inv n K b (jobs_held js + (Ls + L)) s"
      and js: "\<forall>j \<in> set js. phase_ok (length K) (j_phase j)" by (auto simp: live_inv_def)
  have "phase_ok (length K) (j_phase (js ! k))" using js tcp_end(2) by simp
  then have "returns r" using tcp_end(4) by simp
  with L(2) have "r = Hang \<or> returns r \<and> dot_inv n K b (add_mset (tc_sock c) (jobs_held (remove_nth k js) + (Ls + L))) s"
    using tcp_end(3) by (simp add: job_end_inv [OF tcp_end(2,4)])
  from tcp_finish_inv [OF this tcp_end(5)] L(1) set_remove_nth_jobs [OF js, of k] show ?case
    by (auto simp: live_inv_def)
next
  case (panic k js q s)
  from panic(3) have "\<forall>j \<in> set js. phase_ok (length K) (j_phase j)" by (simp add: live_inv_def)
  then have "phase_ok (length K) (j_phase (js ! k))" using panic(1) by simp
  with panic(2) show ?case by simp
next
  case (goroutine k s r s' js)
  then obtain L b where L: "size L + b \<le> B" "dot_inv n K b (jobs_held js + (Ls + L)) s"
      and js: "\<forall>j \<in> set js. phase_ok (length K) (j_phase j)" by (auto simp: live_inv_def)
  from goroutine_inv [OF L(2) goroutine(1,2)] obtain L' b' where
    "size L' + b' \<le> b" "dot_inv n K b' (L' + (jobs_held js + (Ls + L))) s'" by blast
  with L(1) js show ?case
    by (auto simp: live_inv_def ac_simps intro!: exI [of _ "L' + L"] exI [of _ b'])
qed

lemma live_step_inv:
  assumes "env_ok e" "live_step e tstr d c c'" "live_inv n K B Ls c"
  shows "live_inv n K B Ls c'"
  using assms(2,3)
proof (induction rule: live_step.induct)
  case (udp_begin srv sock js client s)
  then show ?case by (auto simp: live_inv_def new_job_def)
next
  case (accept srv lis s c s' js)
  then obtain L b where L: "size L + b \<le> B" "dot_inv n K b (jobs_held js + (Ls + L)) s"
      and js: "\<forall>j \<in> set js. phase_ok (length K) (j_phase j)" by (auto simp: live_inv_def)
  have "dot_inv n K b (add_mset (tc_sock c) (jobs_held js + (Ls + L))) s'"
    using tcp_accept_inv [OF L(2) accept(2)] by simp
  with L(1) js show ?case by (auto simp: live_inv_def new_job_def)
next
  case (accept_error srv lis s s' js)
  then show ?case using tcp_accept_inv [OF _ accept_error(2)] by (fastforce simp: live_inv_def)
next
  case (disturb s sc js)
  from disturb(2) show ?case
    unfolding live_inv_def live_state.case using dot_inv_disturbed [OF _ disturb(1)] by blast
qed (rule work_step_inv [OF assms(1)])

lemma live_reach_inv:
  assumes "env_ok e" "dot_inv n K b Ls s0"
  shows "live_reach e tstr d s0 c \<Longrightarrow> live_inv n K b Ls c"
proof (induction rule: live_reach.induct)
  case start
  show ?case using assms(2) by (auto simp: live_inv_def intro!: exI [of _ "{#}"])
next
  case (step c c')
  then show ?case by (blast intro: live_step_inv [OF assms(1)])
qed

section \<open>At most one request per UDP worker\<close>

lemma udp_jobs_count: "length (udp_jobs js) = count (image_mset j_origin (mset js)) FromUDP"
  by (induction js) (auto simp: udp_jobs_def)

lemma udp_jobs_update:
  assumes "k < length js"
  shows "length (udp_jobs (js[k := (js ! k)\<lparr>j_phase := ph\<rparr>])) = length (udp_jobs js)"
  unfolding udp_jobs_count mset_replace_nth [OF assms] by (simp flip: mset_remove_nth [OF assms])

lemma udp_jobs_remove:
  assumes "k < length js"
  shows "length (udp_jobs (remove_nth k js)) \<le> length (udp_jobs js)"
  unfolding udp_jobs_count by (simp flip: mset_remove_nth [OF assms])

lemma work_udp_jobs:
  assumes "work_step e tstr d c c'" "case c of Live s js \<Rightarrow> length (udp_jobs js) \<le> m | Crashed q \<Rightarrow> True"
  shows "case c' of Live s js \<Rightarrow> length (udp_jobs js) \<le> m | Crashed q \<Rightarrow> True"
  using assms by (induction rule: work_step.induct) (auto simp: udp_jobs_update intro: order_trans [OF udp_jobs_remove])

lemma udp_jobs_bounded:
  assumes "dp_udp d = Some (srv, sock)" "live_reach e tstr d s0 c"
  shows "case c of Live s js \<Rightarrow> length (udp_jobs js) \<le> nat (MaxConcurrentConnections (us_opts srv)) | Crashed q \<Rightarrow> True"
  using assms(2)
proof (induction rule: live_reach.induct)
  case (step c c')
  from step(2,3) show ?case
  proof (induction rule: live_step.induct)
    case (work c c')
    then show ?case by (rule work_udp_jobs)
  qed (use assms(1) in \<open>auto simp: udp_jobs_def\<close>)
qed (simp add: udp_jobs_def)

section \<open>Every request tells its own story\<close>

text \<open>Goroutines start only goroutines of lower rank: the one that fills a pool goes on.\<close>

fun task_rank :: "task \<Rightarrow> nat" where
  "task_rank (TPopulate p n) = nat n"
| "task_rank _ = 0"

lemma spawns_run_task: "spawns (\<lambda>t'. task_rank t' < task_rank t) (run_task e t)"
  by (cases t)
    (auto simp: populate_step_def tls_dial_def tlsDialer_def sock_dial_def PersistentConn_Close_def
      PersistentConn_Destroy_def closer_def pool_put_def TCPConn_Close_def intro!: spawns_rules)

text \<open>\<open>grows s s'\<close>: the trace has only been extended.\<close>

definition grows :: "'z world_scheme \<Rightarrow> 'z world_scheme \<Rightarrow> bool" where
  "grows s s' \<longleftrightarrow> (\<exists>tr. w_trace s' = w_trace s @ tr)"

lemma spawns_grows: "spawns P m \<Longrightarrow> run_state m s = (r, s') \<Longrightarrow> grows s s'"
  unfolding spawns_def grows_def by (erule saysD) auto

lemma hushed_grows: "hushed m \<Longrightarrow> run_state m (s :: 'z pools_scheme) = (r, s') \<Longrightarrow> grows s s'"
  by (rule spawns_grows [OF spawns_hushed [where P = "\<lambda>_. True"]])

lemma tcp_finish_grows:
  "run_state (tcp_finish e tstr h srv c r) (s :: 'z pools_scheme) = (r', s') \<Longrightarrow> grows s s'"
  by (rule spawns_grows [where m = "tcp_finish e tstr h srv c r"])
    (auto simp: tcp_finish_def TCPConn_Close_def intro!: spawns_rules spawns_hushed [OF hushed_consume])

lemma tcp_accept_grows:
  "run_state (tcp_accept e tstr h srv lis) (s :: 'z pools_scheme) = (r, s') \<Longrightarrow> grows s s'"
  by (rule spawns_grows [where m = "tcp_accept e tstr h srv lis"])
    (auto simp: tcp_accept_def Let_def intro!: spawns_rules spawns_hushed [OF hushed_handler(5)])

definition job_told :: "env \<Rightarrow> dotproxy \<Rightarrow> job \<Rightarrow> bool" where
  "job_told e s j \<longleftrightarrow> j_start j \<le> length (w_trace s) \<and>
     (\<forall>c. j_origin j = FromTCP c \<longrightarrow> j_client j = NetTCP c) \<and>
     story e (transport_of (j_origin j)) (j_client j) (j_phase j) (drop (j_start j) (w_trace s))"

lemma job_told_grows: "job_told e s j \<Longrightarrow> grows s s' \<Longrightarrow> job_told e s' j"
  by (auto simp: job_told_def grows_def intro: story_mono)

lemma new_job_told:
  "(\<forall>c. orig = FromTCP c \<longrightarrow> client = NetTCP c) \<Longrightarrow> job_told e s (new_job orig client s)"
  by (simp add: job_told_def new_job_def)

lemma advance_told:
  fixes s s' :: dotproxy
  assumes "job_told e s j"
    and "run_state (phase_step (upstream_Conn e fuel) e h (transport_of (j_origin j)) (j_phase j)) s = (ph, s')"
  shows "job_told e s' (j\<lparr>j_phase := ph\<rparr>) \<and> grows s s'"
proof -
  let ?tr = "drop (j_start j) (w_trace s)"
  have st: "story e (transport_of (j_origin j)) (j_client j) (j_phase j) ?tr" using assms(1) by (simp add: job_told_def)
  obtain tr where "w_trace s' = w_trace s @ tr" "story e (transport_of (j_origin j)) (j_client j) ph (?tr @ tr)"
    by (rule saysD [OF phase_step_says [OF sharded.conn_hands_nothing st] assms(2)]) blast
  with assms(1) show ?thesis by (auto simp: job_told_def grows_def)
qed

lemma work_told:
  assumes "work_step e tstr d c c'" "case c of Live s js \<Rightarrow> \<forall>j \<in> set js. job_told e s j | Crashed q \<Rightarrow> True"
  shows "case c' of Live s js \<Rightarrow> \<forall>j \<in> set js. job_told e s j | Crashed q \<Rightarrow> True"
  using assms
proof (induction rule: work_step.induct)
  case (advance k js fuel s ph s')
  then have "\<forall>j \<in> set js. job_told e s j" by simp
  moreover from this have "job_told e s' ((js ! k)\<lparr>j_phase := ph\<rparr>) \<and> grows s s'"
    using advance(1,3) by (intro advance_told) auto
  ultimately show ?case
    using set_update_subset_insert [of js k "(js ! k)\<lparr>j_phase := ph\<rparr>"] job_told_grows [of e s _ s']
    unfolding live_state.case by blast
next
  case (udp_end k js r s s')
  then show ?case
    using job_told_grows [OF _ hushed_grows [OF hushed_consume udp_end(4)]] set_remove_nth [of k js] by auto
next
  case (tcp_end srv lis k js c r s s')
  then show ?case using job_told_grows [OF _ tcp_finish_grows [OF tcp_end(5)]] set_remove_nth [of k js] by auto
next
  case (goroutine k s r s' js)
  have "grows s s'" using spawns_grows [OF spawns_run_task goroutine(2)] by (simp add: grows_def take_task_def)
  with goroutine(3) show ?case using job_told_grows by auto
qed simp

lemma live_told:
  assumes "live_reach e tstr d s0 c"
  shows "case c of Live s js \<Rightarrow> \<forall>j \<in> set js. job_told e s j | Crashed q \<Rightarrow> True"
  using assms
proof (induction rule: live_reach.induct)
  case (step c c')
  from step(2,3) show ?case
  proof (induction rule: live_step.induct)
    case (udp_begin srv sock js client s)
    then show ?case by (auto intro: new_job_told)
  next
    case (accept srv lis s c s' js)
    then show ?case using job_told_grows [OF _ tcp_accept_grows [OF accept(2)]] by (auto intro: new_job_told)
  next
    case (accept_error srv lis s s' js)
    then show ?case using job_told_grows [OF _ tcp_accept_grows [OF accept_error(2)]] by auto
  next
    case (disturb s sc js)
    then show ?case by (simp add: job_told_def)
  qed (rule work_told)
qed simp

section \<open>Serving without interruption\<close>

lemma live_reach_phases:
  assumes "live_reach e tstr d s0 (Live s (j # js))"
    and "run_state (run_phases (upstream_Conn e fuel) e (dp_handler d) (transport_of (j_origin j)) k (j_phase j)) s = (ph, s')"
    and "\<exists>r. ph = Finished r \<and> r \<noteq> Hang"
  shows "live_reach e tstr d s0 (Live s' (j\<lparr>j_phase := ph\<rparr> # js))"
  using assms
proof (induction k arbitrary: s j)
  case 0
  from 0(2) have "ph = j_phase j" "s' = s" by simp_all
  then have "j\<lparr>j_phase := ph\<rparr> = j" by simp
  with 0(1) \<open>s' = s\<close> show ?case by simp
next
  case (Suc k)
  obtain ph1 s1 where step: "run_state (phase_step (upstream_Conn e fuel) e (dp_handler d) (transport_of (j_origin j))
      (j_phase j)) s = (ph1, s1)" by (rule prod.exhaust)
  with Suc.prems(2) have rest: "run_state (run_phases (upstream_Conn e fuel) e (dp_handler d) (transport_of (j_origin j)) k ph1)
      s1 = (ph, s')" by simp
  with Suc.prems(3) have "ph1 \<noteq> Finished Hang" by auto
  show ?case
  proof (cases "\<exists>r. j_phase j = Finished r")
    case True
    then obtain r where fin: "j_phase j = Finished r" ..
    with Suc.prems(2) have "ph = j_phase j" "s' = s" by simp_all
    then have "j\<lparr>j_phase := ph\<rparr> = j" by simp
    with Suc.prems(1) \<open>s' = s\<close> show ?thesis by simp
  next
    case False
    then have "live_reach e tstr d s0 (Live s1 (j\<lparr>j_phase := ph1\<rparr> # js))"
      using live_reach.step [OF Suc.prems(1) live_step.work [OF work_step.advance [of 0, OF _ _ _ \<open>ph1 \<noteq> Finished Hang\<close>]]] step
      by simp
    from Suc.IH [OF this] rest Suc.prems(3) show ?thesis by simp
  qed
qed

lemma live_reach_Handle:
  assumes "live_reach e tstr d s0 (Live s (j # js))" "j_phase j = Reading client"
    and "run_state (Handle (upstream_Conn e fuel) e (dp_handler d) (transport_of (j_origin j)) client) s = (r, s')" "r \<noteq> Hang"
  shows "live_reach e tstr d s0 (Live s' (j\<lparr>j_phase := Finished r\<rparr> # js))"
  using live_reach_phases [OF assms(1)] run_phases_Handle [OF order_refl assms(3)] assms(2,4) by auto

lemma udp_worker_run:
  assumes "live_reach e tstr d s0 (Live s js)" "dp_udp d = Some (srv, sock)"
    and "length (udp_jobs js) < nat (MaxConcurrentConnections (us_opts srv))"
    and "run_state (udp_worker (upstream_Conn e fuel) e tstr (dp_handler d) srv sock) s = (Ret (), s')"
  shows "live_reach e tstr d s0 (Live s' js)"
proof -
  let ?c = "NetUDP (NewUDPConn sock (udp_ReadTimeout (us_opts srv)) (udp_WriteTimeout (us_opts srv)))"
  obtain r s1 where h: "run_state (Handle (upstream_Conn e fuel) e (dp_handler d) UDP ?c) s = (r, s1)" by (rule prod.exhaust)
  with assms(4) have c: "run_state (consume tstr (dp_handler d) UDP r) s1 = (Ret (), s')" by (simp add: udp_worker_def)
  then have "r \<noteq> Hang" by (auto simp: consume_def)
  from live_reach.step [OF assms(1) live_step.udp_begin [OF assms(2,3) refl]]
  have "live_reach e tstr d s0 (Live s1 ((new_job FromUDP ?c s)\<lparr>j_phase := Finished r\<rparr> # js))"
    by (rule live_reach_Handle) (use h \<open>r \<noteq> Hang\<close> in simp_all)
  from live_reach.step [OF this live_step.work [OF work_step.udp_end [of 0, OF _ _ _ c]]] show ?thesis by (simp add: remove_nth_def)
qed

lemma tcp_serve_run:
  assumes "live_reach e tstr d s0 (Live s js)" "dp_tcp d = Some (srv, lis)"
    and "run_state (tcp_accept e tstr (dp_handler d) srv lis) s = (Some c, s1)"
    and "run_state (tcp_serve (upstream_Conn e fuel) e tstr (dp_handler d) srv c) s1 = (Ret (), s')"
  shows "live_reach e tstr d s0 (Live s' js)"
proof -
  obtain r s2 where h: "run_state (Handle (upstream_Conn e fuel) e (dp_handler d) TCP (NetTCP c)) s1 = (r, s2)" by (rule prod.exhaust)
  with assms(4) have f: "run_state (tcp_finish e tstr (dp_handler d) srv c r) s2 = (Ret (), s')" by (simp add: tcp_serve_def)
  then have "r \<noteq> Hang" by (auto simp: tcp_finish_def consume_def)
  from live_reach.step [OF assms(1) live_step.accept [OF assms(2,3)]]
  have "live_reach e tstr d s0 (Live s2 ((new_job (FromTCP c) (NetTCP c) s1)\<lparr>j_phase := Finished r\<rparr> # js))"
    by (rule live_reach_Handle) (use h \<open>r \<noteq> Hang\<close> in simp_all)
  from live_reach.step [OF this live_step.work [OF work_step.tcp_end [of _ _ _ 0, OF assms(2) _ _ _ f]]] show ?thesis by (simp add: remove_nth_def)
qed

section \<open>Properties\<close>

text \<open>
  C4. With any number of requests in flight and in every interleaving, a request that has
  finished with success has been answered faithfully. Since it began, the trace
  contains in this order: its request \<open>b\<close>, at most 1024 octets, read from its own client;
  the request written in full to an upstream connection, behind its length when it came
  over UDP; a header and a body of the announced length read from that connection; and
  that answer sent to the same client, without the header over UDP.
\<close>

theorem requests_answer_faithfully:
  assumes "env_ok e" "live_reach e tstr d s0 (Live s js)" "j \<in> set js" "j_phase j = Finished (Ret ())"
  shows "\<exists>client b (pc :: PersistentConn) hdr body. same_socket (j_client j) client \<and>
    (\<forall>c. j_origin j = FromTCP c \<longrightarrow> client = NetTCP c) \<and> (\<forall>u. client = NetUDP u \<longrightarrow> uc_remote u \<noteq> None) \<and>
    length b \<le> 1024 \<and> length hdr = 2 \<and> length body = unat (BigEndian_Uint16 hdr) \<and>
    subseq [got client b, EvWrote (tc_sock (pc_conn pc)) (frame (transport_of (j_origin j)) b),
            EvRead (tc_sock (pc_conn pc)) hdr, EvRead (tc_sock (pc_conn pc)) body,
            gave client (if transport_of (j_origin j) = UDP then body else hdr @ body)]
      (drop (j_start j) (w_trace s))"
proof -
  have "job_told e s j" using live_told [OF assms(2)] assms(3) by simp
  then have tcp: "\<forall>c. j_origin j = FromTCP c \<longrightarrow> j_client j = NetTCP c"
      and "completed e (transport_of (j_origin j)) (j_client j) (drop (j_start j) (w_trace s))"
    using assms(4) by (auto simp: job_told_def)
  then obtain client b and pc :: PersistentConn and hdr body where
      "asked e (transport_of (j_origin j)) (j_client j) client (frame (transport_of (j_origin j)) b) b" "length hdr = 2"
      "length body = unat (BigEndian_Uint16 hdr)" "\<forall>u. client = NetUDP u \<longrightarrow> uc_remote u \<noteq> None"
      "subseq (got client b # told pc (frame (transport_of (j_origin j)) b) hdr body @
         [gave client (if transport_of (j_origin j) = UDP then body else hdr @ body)]) (drop (j_start j) (w_trace s))"
    unfolding completed_def by blast
  moreover from this(1) tcp have "\<forall>c. j_origin j = FromTCP c \<longrightarrow> client = NetTCP c"
    by (cases client) (auto simp: asked_def)
  ultimately show ?thesis
    using assms(1) unfolding asked_def told_def append.simps by blast
qed

text \<open>
  The UDP server has at most as many requests in flight as it has workers: the
  configured maximum, or 16 when the configuration gives none.
\<close>

lemma udp_requests_bounded:
  assumes "dp_udp d = Some (NewUDPServer a opts, sock)" "live_reach e tstr d s0 (Live s js)"
  shows "int (length (udp_jobs js)) \<le> (if MaxConcurrentConnections opts \<le> 0 then 16 else MaxConcurrentConnections opts)"
  using udp_jobs_bounded [OF assms] by (auto simp: NewUDPServer_def split: if_splits)


section \<open>A concrete run\<close>

definition demo_deployment :: deployment where
  "demo_deployment = \<lparr>dp_handler = demo_handler,
     dp_udp = Some (NewUDPServer '':53'' \<lparr>MaxConcurrentConnections = 0, udp_ReadTimeout = 0, udp_WriteTimeout = 0\<rparr>, 0),
     dp_tcp = None\<rparr>"

definition demo_job :: "phase \<Rightarrow> job" where
  "demo_job ph = \<lparr>j_origin = FromUDP, j_client = NetUDP (NewUDPConn 0 0 0), j_start = 0, j_phase = ph\<rparr>"

lemma demo_live:
  obtains s' where "live_reach calm_env (\<lambda>_. ''UDP'') demo_deployment demo_proxy (Live s' [demo_job (Finished (Ret ()))])"
proof -
  let ?c = "NetUDP (NewUDPConn 0 0 0)" and ?tstr = "\<lambda>_. ''UDP''"
  obtain s' where run: "run_state (Handle (upstream_Conn calm_env 1) calm_env demo_handler UDP ?c) demo_proxy = (Ret (), s')"
    using demo_exchange by blast
  have h: "dp_handler demo_deployment = demo_handler" by (simp add: demo_deployment_def)
  have udp: "dp_udp demo_deployment = Some (NewUDPServer '':53''
      \<lparr>MaxConcurrentConnections = 0, udp_ReadTimeout = 0, udp_WriteTimeout = 0\<rparr>, 0)" by (simp add: demo_deployment_def)
  have "live_reach calm_env ?tstr demo_deployment demo_proxy (Live demo_proxy [new_job FromUDP ?c demo_proxy])"
    by (rule live_reach.step [OF live_reach.start], rule live_step.udp_begin [OF udp])
      (simp_all add: NewUDPServer_def udp_jobs_def)
  moreover have "new_job FromUDP ?c demo_proxy = demo_job (Reading ?c)"
    by (simp add: new_job_def demo_job_def demo_proxy_def)
  ultimately have "live_reach calm_env ?tstr demo_deployment demo_proxy
      (Live s' [(demo_job (Reading ?c))\<lparr>j_phase := Finished (Ret ())\<rparr>])"
    using run_phases_Handle [OF order_refl run]
    by (intro live_reach_phases [where k = "2 * maxRetries demo_handler + 4" and fuel = 1]) (simp_all add: h demo_job_def)
  with that show thesis by (simp add: demo_job_def)
qed

theorem requests_answer_faithfully_witness:
  "\<exists>s client b (pc :: PersistentConn) hdr body.
    live_reach calm_env (\<lambda>_. ''UDP'') demo_deployment demo_proxy (Live s [demo_job (Finished (Ret ()))]) \<and>
    length body = unat (BigEndian_Uint16 hdr) \<and>
    subseq [got client b, EvWrote (tc_sock (pc_conn pc)) (frame UDP b), EvRead (tc_sock (pc_conn pc)) hdr,
            EvRead (tc_sock (pc_conn pc)) body, gave client body] (w_trace s)"
proof -
  obtain s where reach: "live_reach calm_env (\<lambda>_. ''UDP'') demo_deployment demo_proxy (Live s [demo_job (Finished (Ret ()))])"
    by (rule demo_live)
  have j: "j_start (demo_job (Finished (Ret ()))) = 0" "transport_of (j_origin (demo_job (Finished (Ret ())))) = UDP"
      "j_phase (demo_job (Finished (Ret ()))) = Finished (Ret ())" by (simp_all add: demo_job_def)
  from requests_answer_faithfully [OF calm_env_ok reach list.set_intros(1) j(3)] reach
  show ?thesis unfolding j drop0 if_P [OF refl] by blast
qed


end
