(* ===== verification/Timeouts.thy ===== *)
theory Timeouts
  imports Server
begin

text \<open>
  The timeouts of connections. A dialer gives a connection the timeouts of the configuration
  (\<open>tlsDialer\<close> of \<^verbatim>\<open>src/internal/network/client.go\<close>); pools hand connections out and take them
  back. Proved here: as long as every dialer has timeouts of at least \<open>T\<close>, so has every
  connection in a pool, on its way back to one, or handed out, whatever the environment
  does; and the TLS clients meet the contract of theory \<open>Sharding\<close> with this invariant.
\<close>

section \<open>Connections keep their timeouts\<close>

text \<open>
  \<open>fits T s\<close>: every dialer, every cached connection and every connection on its way back to a
  pool has timeouts of at least \<open>T\<close>. All operations keep it.
\<close>

definition timely :: "duration \<Rightarrow> TCPConn \<Rightarrow> bool" where
  "timely T c \<longleftrightarrow> T \<le> tc_readTimeout c \<and> T \<le> tc_writeTimeout c"

definition dialer_timely :: "duration \<Rightarrow> dialer_env \<Rightarrow> bool" where
  "dialer_timely T d \<longleftrightarrow> T \<le> d_readTimeout d \<and> T \<le> d_writeTimeout d \<and>
     (d_handshakeTimeout d \<le> 0 \<or> T \<le> d_handshakeTimeout d)"

definition queue_timely :: "duration \<Rightarrow> TCPConn MRUQueue \<Rightarrow> bool" where
  "queue_timely T q \<longleftrightarrow> mru_inv q \<and> (\<forall>x \<in># cached q. timely T (fst x))"

definition fits :: "duration \<Rightarrow> 'z pools_scheme \<Rightarrow> bool" where
  "fits T s \<longleftrightarrow> (\<forall>pool \<in> set (p_pools s). dialer_timely T (dialer pool) \<and> queue_timely T (conns pool)) \<and>
     (\<forall>pc. TConnClose pc \<in> set (p_tasks s) \<longrightarrow> timely T (pc_conn pc))"

lemma fits_pool:
  assumes "fits T s" "p < length (p_pools s)"
  shows "dialer_timely T (dialer (p_pools s ! p))" "queue_timely T (conns (p_pools s ! p))"
  using assms by (simp_all add: fits_def)

lemma fits_cong: "fits T s \<Longrightarrow> p_pools s' = p_pools s \<Longrightarrow> p_tasks s' = p_tasks s \<Longrightarrow> fits T s'"
  by (simp add: fits_def)

lemma fits_set_conns:
  assumes "fits T s" "p < length (p_pools s) \<Longrightarrow> queue_timely T q"
  shows "fits T (set_conns p q s)"
proof (cases "p < length (p_pools s)")
  case True
  have "\<forall>pool \<in> set ((p_pools s)[p := (p_pools s ! p)\<lparr>conns := q\<rparr>]). dialer_timely T (dialer pool) \<and> queue_timely T (conns pool)"
    using assms(1) assms(2) [OF True] fits_pool(1) [OF assms(1) True]
    by (auto simp: fits_def dest!: set_update_subset_insert [THEN subsetD])
  with assms(1) show ?thesis by (simp add: fits_def set_conns_def)
qed (use assms(1) in \<open>simp add: fits_def set_conns_def list_update_beyond\<close>)

lemma queue_timely_pop: "queue_timely T q \<Longrightarrow> queue_timely T (snd (MRUQueue_Pop q))"
  by (rule mru.pop_cases [of q]) (auto simp: queue_timely_def)

lemma queue_timely_push: "queue_timely T q \<Longrightarrow> timely T c \<Longrightarrow> queue_timely T (snd (MRUQueue_Push now c q))"
  by (rule mru.push_cases [of q now c]) (auto simp: queue_timely_def)

lemma fits_hushed: "hushed m \<Longrightarrow> keeps (fits T) m"
  by (rule keepsI, erule fits_cong) (fastforce simp: quiet_def dest: hushedD)+

lemmas fits_quiet [keeps_rules] =
  hushed_stamp [THEN fits_hushed] hushed_time_now [THEN fits_hushed] hushed_elapsed [THEN fits_hushed]
  hushed_emit [THEN fits_hushed] hushed_deadlines [THEN fits_hushed] hushed_io [THEN fits_hushed]
  hushed_TCPConn [THEN fits_hushed] hushed_handler [THEN fits_hushed] hushed_consume [THEN fits_hushed]

lemma fits_basic [keeps_rules]:
  "(\<And>pc. t = TConnClose pc \<Longrightarrow> timely T (pc_conn pc)) \<Longrightarrow> keeps (fits T) (spawn t)" "keeps (fits T) (new_sock l r)"
  "keeps (fits T) (sock_close e c)" "keeps (fits T) (record_stats i ok)"
proof -
  show "keeps (fits T) (spawn t)" if "\<And>pc. t = TConnClose pc \<Longrightarrow> timely T (pc_conn pc)"
    using that by (intro keepsI) (auto simp: fits_def)
  show "keeps (fits T) (new_sock l r)" by (rule keepsI) (auto simp: fits_def)
  show "keeps (fits T) (record_stats i ok)" by (rule keepsI) (auto simp: fits_def record_stats_def)
  show "keeps (fits T) (sock_close e c)"
    by (rule keepsI, erule fits_cong) (use sock_close_effect in fastforce)+
qed

lemma fits_Pop [keeps_rules]: "keeps (fits T) (conns_Pop p)"
proof (rule keepsI)
  fix s r s' assume "fits T s" "run_state (conns_Pop p) s = (r, s')"
  then show "fits T s'"
    using fits_set_conns [of T s p "snd (MRUQueue_Pop (conns (p_pools s ! p)))"] queue_timely_pop fits_pool(2) [of T s p]
    by (auto simp: conns_Pop_def split_beta)
qed

lemma fits_TLSClient: "keeps (fits T) (TLSClient_Conn e i)"
  unfolding TLSClient_Conn_def PersistentConnPool_Conn_def pool_dial_def tls_dial_def tlsDialer_def sock_dial_def
  by (intro keeps_rules; simp)

lemma fits_Push:
  assumes "fits T s" "p < length (p_pools s) \<Longrightarrow> timely T c" "run_state (conns_Push e p c) s = (r, s')"
  shows "fits T s'"
proof -
  have "fits T (s\<lparr>w_tick := Suc (w_tick s)\<rparr>)" by (rule fits_cong [OF assms(1)]) simp_all
  with assms(2,3) show ?thesis
    by (auto simp: conns_Push_def time_now_def split_beta intro!: fits_set_conns queue_timely_push dest: fits_pool(2))
qed

lemma dial_pools:
  assumes "run_state (tls_dial e p) s = (r, s')"
  shows "p_pools s' = p_pools s"
proof -
  let ?I = "\<lambda>s'. p_pools s' = p_pools s"
  have hushed: "keeps ?I m" if "hushed m" for m :: "('z pools_scheme, 'b) state"
    using hushedD [OF that] by (intro keepsI) (fastforce simp: quiet_def)
  have "keeps ?I (spawn t)" "keeps ?I (new_sock l x)" for t l x by (auto intro!: keepsI)
  then have "keeps ?I (tls_dial e p)"
    unfolding tls_dial_def tlsDialer_def sock_dial_def
    by (intro keeps_rules hushed_stamp [THEN hushed] hushed_time_now [THEN hushed] hushed_deadlines [THEN hushed]
        hushed_io [THEN hushed])
  from keepsD [OF this _ assms] show ?thesis by simp
qed

lemma dial_timely:
  assumes "fits T s" "run_state (tls_dial e p) s = (Ret c, s')" "p < length (p_pools s)"
  shows "timely T c"
  using assms(2) fits_pool(1) [OF assms(1,3)]
  by (auto simp: tls_dial_def tlsDialer_def timely_def dialer_timely_def NewTCPConn_def split: sum.splits option.splits prod.splits if_splits)

lemma fits_populate: "keeps (fits T) (populate_step (tls_dial e) e p n)"
proof (cases "n \<le> 0")
  case True
  then show ?thesis by (simp add: populate_step_def keeps_return)
next
  case False
  have dial: "keeps (fits T) (tls_dial e p)"
    unfolding tls_dial_def tlsDialer_def sock_dial_def by (intro keeps_rules; simp)
  let ?P = "\<lambda>c s. fits T s \<and> (p < length (p_pools s) \<longrightarrow> timely T c)"
  have push: "yields (?P c) (conns_Push e p c) (\<lambda>_. fits T)" for c by (rule yieldsI, rule fits_Push) auto
  have hushed: "yields (?P c) m (\<lambda>_. ?P c)" if "hushed m" for c m
    using keepsD [OF fits_hushed [OF that]] hushedD [OF that] by (intro yieldsI) (fastforce simp: quiet_def)
  have opened: "yields (?P c) (do { latency \<leftarrow> elapsed e; a \<leftarrow> TCPConn_RemoteAddr c;
      emit (EvLifecycle hook (CxOpen latency a)); _ \<leftarrow> conns_Push e p c; pass () }) (\<lambda>_. fits T)" for c hook
    by (intro yields_bind [OF hushed] yields_bind [OF push] hushed_rules yields_return; simp)
  have "yields (fits T) (tls_dial e p) (\<lambda>r s. case r of Ret c \<Rightarrow> ?P c s | _ \<Rightarrow> fits T s)"
    using keepsD [OF dial] dial_timely dial_pools by (intro yieldsI) (fastforce split: gores.split)
  note dialled = yields_bind [OF this]
  have spawned: "yields (fits T) (spawn (TPopulate p (n - 1))) (\<lambda>_. fits T)"
    using fits_basic(1) [of "TPopulate p (n - 1)"] by (simp add: keeps_def)
  have "yields (case r of Ret c \<Rightarrow> ?P c | _ \<Rightarrow> fits T) (case r of
      Ret c \<Rightarrow> do { latency \<leftarrow> elapsed e; a \<leftarrow> TCPConn_RemoteAddr c; emit (EvLifecycle hook (CxOpen latency a)); _ \<leftarrow> conns_Push e p c; pass () }
    | Fail er \<Rightarrow> emit (EvLifecycle hook CxError) | Panic q \<Rightarrow> pass () | Hang \<Rightarrow> pass ()) (\<lambda>_. fits T)" for r hook
    using opened fits_hushed [OF hushed_emit, of "EvLifecycle hook CxError"]
    by (cases r) (auto simp: keeps_def intro: yields_return)
  note filled = yields_bind [OF this spawned]
  show ?thesis
    unfolding populate_step_def keeps_def if_not_P [OF False]
    by (rule yields_bind [OF keeps_reads [unfolded keeps_def] dialled], rule yields_weaken [OF filled]) (auto split: gores.splits)
qed

lemma fits_Close [keeps_rules]: "timely T (pc_conn pc) \<Longrightarrow> keeps (fits T) (PersistentConn_Close e pc)"
  unfolding PersistentConn_Close_def closer_def pool_put_def TCPConn_Close_def
  by (intro keeps_rules keepsI [where m = "conns_Push e (pc_pool pc) (pc_conn pc)"]; simp add: fits_Push)

lemma fits_Destroy [keeps_rules]: "keeps (fits T) (PersistentConn_Destroy e pc)"
proof -
  have "keeps (fits T) (closer e p c True)" for p c
    unfolding closer_def TCPConn_Close_def if_P [OF TrueI] by (intro keeps_rules; simp)
  then show ?thesis by (simp add: PersistentConn_Destroy_def PersistentConn_Close_def)
qed

lemma fits_run_task: "(\<And>pc. t = TConnClose pc \<Longrightarrow> timely T (pc_conn pc)) \<Longrightarrow> keeps (fits T) (run_task e t)"
  by (cases t) (simp_all add: keeps_rules fits_populate)

lemma fits_goroutine:
  assumes "fits T s" "k < length (p_tasks s)" "run_state (run_task e (p_tasks s ! k)) (take_task k s) = (r, s')"
  shows "fits T s'"
proof -
  have "timely T (pc_conn pc)" if "p_tasks s ! k = TConnClose pc" for pc
    using assms(1,2) that nth_mem by (fastforce simp: fits_def)
  moreover have "fits T (take_task k s)" using assms(1) set_remove_nth [of k "p_tasks s"] by (auto simp: fits_def take_task_def)
  ultimately show ?thesis using keepsD [OF fits_run_task] assms(3) by blast
qed

text \<open>TLS clients keep a stronger contract than the one of theory \<open>Sharding\<close>.\<close>

interpretation timed_client: client_contract "TLSClient_Conn e" TLSClient_Stats "\<lambda>c s. c_stats (sys_clients s ! c)" "{..<n}"
    "\<lambda>x s. clients_inv n x s \<and> fits T s" "\<lambda>x r s. clients_post n x r s \<and> fits T s" for e n T
proof
  show "run_state (TLSClient_Stats c) s = (c_stats (sys_clients s ! c), s)" for c and s :: "'a sys_scheme"
    by (rule tls_client.stats_view)
  show "(clients_post n x (Fail er) s \<and> fits T s) = (clients_inv n x s \<and> fits T s)" for x er and s :: "'a sys_scheme"
    by (simp add: tls_client.post_Fail)
  show "clients_post n x r s \<and> fits T s \<Longrightarrow> returns r" for x r and s :: "'a sys_scheme"
    using tls_client.post_returns by blast
  show "clock_free (\<lambda>s :: 'a sys_scheme. clients_inv n x s \<and> fits T s)" for x
    using tls_client.I_clock [of n x] by (auto simp: clock_free_def elim: fits_cong)
  show "c \<in> {..<n} \<Longrightarrow> yields (\<lambda>s. clients_inv n x s \<and> fits T s) (TLSClient_Conn e c :: ('a sys_scheme, _) state)
      (\<lambda>r s. clients_post n x r s \<and> fits T s)" for c x
    using yieldsD [OF tls_client.conn_ok] keepsD [OF fits_TLSClient] by (intro yieldsI) blast
qed

end
