(* ===== verification/Drain.thy ===== *)
theory Drain
  imports Live_System
begin

text \<open>
  What becomes of the running program when nothing new comes in: the requests in flight and the
  goroutines of \<open>work_step\<close> come to an end. Every step makes progress in a well-founded order,
  so no scheduler can keep the program busy; and a state in which nothing can be done has
  no request and no goroutine left, unless the policy is the one whose calls need not
  return (theory \<open>Availability_Policy\<close>).
\<close>

section \<open>Every step makes progress\<close>

definition jobs_left :: "DNSProxyHandler \<Rightarrow> job list \<Rightarrow> nat" where
  "jobs_left h js = (\<Sum>j \<in># mset js. Suc (distance (maxRetries h) (j_phase j)))"

lemma jobs_left_nth:
  assumes "k < length js"
  shows "jobs_left h js = Suc (distance (maxRetries h) (j_phase (js ! k))) + jobs_left h (remove_nth k js)"
    and "jobs_left h (js[k := (js ! k)\<lparr>j_phase := ph\<rparr>]) =
      Suc (distance (maxRetries h) ph) + jobs_left h (remove_nth k js)"
  unfolding jobs_left_def by (simp_all add: mset_replace_nth [OF assms] flip: mset_remove_nth [OF assms])

fun work_left :: "deployment \<Rightarrow> live_state \<Rightarrow> nat \<times> nat multiset" where
  "work_left d (Live s js) = (Suc (jobs_left (dp_handler d) js), image_mset task_rank (mset (p_tasks s)))"
| "work_left d (Crashed q) = (0, {#})"

lemma goroutine_ranks:
  assumes "k < length (p_tasks s)" "run_state (run_task e (p_tasks s ! k)) (take_task k s) = (r, s')"
  shows "(image_mset task_rank (mset (p_tasks s')), image_mset task_rank (mset (p_tasks s))) \<in> mult less_than"
proof -
  let ?t = "p_tasks s ! k" and ?R = "image_mset task_rank (mset (remove_nth k (p_tasks s)))"
  obtain ts where ts: "p_tasks s' = remove_nth k (p_tasks s) @ ts" "\<forall>t \<in> set ts. task_rank t < task_rank ?t"
    by (rule saysD [OF spawns_run_task [unfolded spawns_def] assms(2)]) (simp add: take_task_def)
  have "(?R + image_mset task_rank (mset ts), ?R + {#task_rank ?t#}) \<in> mult less_than"
    using ts(2) by (intro one_step_implies_mult) auto
  then show ?thesis by (simp add: ts(1) flip: mset_remove_nth [OF assms(1)])
qed

lemma work_step_progress:
  assumes "work_step e tstr d c c'"
  shows "(work_left d c', work_left d c) \<in> less_than <*lex*> mult less_than"
  using assms
proof (induction rule: work_step.induct)
  case (advance k js fuel s ph s')
  have "distance (maxRetries (dp_handler d)) (j_phase (js ! k)) \<noteq> 0" using advance(2) by (auto simp: distance_0)
  with phase_step_nearer [OF advance(3)]
  have "distance (maxRetries (dp_handler d)) ph < distance (maxRetries (dp_handler d)) (j_phase (js ! k))" by simp
  then show ?case by (simp add: jobs_left_nth [OF advance(1)])
next
  case (udp_end k js r s s')
  then show ?case by (simp add: jobs_left_nth(1))
next
  case (tcp_end srv lis k js c r s s')
  then show ?case by (simp add: jobs_left_nth(1))
next
  case (goroutine k s r s' js)
  then show ?case using goroutine_ranks by simp
qed simp

lemma wf_work_step: "wf {(c', c). work_step e tstr d c c'}"
proof (rule wf_subset)
  show "wf (inv_image (less_than <*lex*> mult less_than) (work_left d))"
    by (intro wf_inv_image wf_lex_prod wf_less_than wf_mult)
  show "{(c', c). work_step e tstr d c c'} \<subseteq> inv_image (less_than <*lex*> mult less_than) (work_left d)"
    using work_step_progress by (auto simp: inv_image_def)
qed

lemma work_can_end: "\<exists>c'. (work_step e tstr d)\<^sup>*\<^sup>* c c' \<and> (\<nexists>c''. work_step e tstr d c' c'')"
proof (induction c rule: wf_induct_rule [OF wf_work_step [of e tstr d]])
  case (1 c)
  show ?case
  proof (cases "\<exists>c1. work_step e tstr d c c1")
    case True
    then obtain c1 where "work_step e tstr d c c1" ..
    with 1 [of c1] show ?thesis by (auto intro: converse_rtranclp_into_rtranclp)
  qed blast
qed

section \<open>A policy whose calls return\<close>

definition prompt :: "'c ShardedClient \<Rightarrow> bool" where
  "prompt sc \<longleftrightarrow> (\<nexists>c. sc = SAvailability c)"

definition prompt_inv :: "nat \<Rightarrow> int list \<Rightarrow> nat \<Rightarrow> cid multiset \<Rightarrow> 'z dotproxy_scheme \<Rightarrow> bool" where
  "prompt_inv n K b X s \<longleftrightarrow> dot_inv n K b X s \<and> prompt (d_shard s)"

lemma ShardedClient_Conn_prompt:
  "run_state (ShardedClient_Conn e conn stats fuel sc) s = ((r, sc'), s') \<Longrightarrow> prompt sc' = prompt sc"
  by (cases sc) (auto simp: prompt_def split: prod.splits)

lemma upstream_Conn_prompt:
  assumes "run_state (upstream_Conn e fuel) s = (r, s')"
  shows "prompt (d_shard s') = prompt (d_shard s)"
  using assms ShardedClient_Conn_prompt by (fastforce simp: upstream_Conn_def split: prod.splits)

lemma upstream_Conn_returns:
  assumes "env_ok e" "prompt_inv n K b X s" "run_state (upstream_Conn e fuel) s = (r, s')"
  shows "r \<noteq> Hang"
proof -
  obtain sc' s1 where "run_state (ShardedClient_Conn e (TLSClient_Conn e) TLSClient_Stats fuel (d_shard s)) s = ((r, sc'), s1)"
    using assms(3) by (auto simp: upstream_Conn_def split: prod.splits)
  from tls_client.ShardedClient_post [OF _ assms(1) _ this, of n "(K, b, X)"] assms(2) show ?thesis
    by (auto simp: prompt_inv_def dot_inv_def prompt_def clients_post_def conn_post_def)
qed

interpretation prompt_sharded: prompt_upstream e "upstream_Conn e fuel" "prompt_inv n" for e fuel n
proof
  show "says (upstream_Conn e fuel :: ('a dotproxy_scheme, _) state) (\<lambda>r tr ts. handed ts = [])"
    by (rule sharded.conn_hands_nothing)
next
  fix K b X and s s' :: "'a dotproxy_scheme" and r
  assume "env_ok e" "prompt_inv n K b X s" and run: "run_state (upstream_Conn e fuel) s = (r, s')"
  then show "(\<exists>pc. r = Ret pc \<and> pc_pool pc < length K \<and> \<not> pc_destroyed pc \<and>
        prompt_inv n K b (add_mset (tc_sock (pc_conn pc)) X) s') \<or> (\<exists>er. r = Fail er) \<and> prompt_inv n K b X s' \<or> r = Hang"
    using sharded.conn_owns [of e n K b X s, OF _ _ run] upstream_Conn_prompt [OF run] by (auto simp: prompt_inv_def)
next
  fix K b X and s s' :: "'a dotproxy_scheme"
  assume inv: "prompt_inv n K b X s" and q: "quiet s s'"
  then have "d_shard s' = d_shard s" by (auto simp: quiet_def)
  with inv sharded.J_quiet [OF _ q] show "prompt_inv n K b X s'" by (simp add: prompt_inv_def)
next
  fix K b t X and s :: "'a dotproxy_scheme"
  assume "prompt_inv n K b (task_socks t + X) s" "task_ok (length K) t" "task_fills t = 0"
  then show "prompt_inv n K b X (s\<lparr>p_tasks := p_tasks s @ [t]\<rparr>)" using sharded.J_spawn by (auto simp: prompt_inv_def)
next
  fix K b X and s s' :: "'a dotproxy_scheme" and r
  assume "env_ok e" "prompt_inv n K b X s" "run_state (upstream_Conn e fuel) s = (r, s')"
  then show "r \<noteq> Hang" by (rule upstream_Conn_returns)
qed

section \<open>Nothing gets stuck\<close>

lemma quiet_shard: "quiet s s' \<Longrightarrow> d_shard s' = d_shard s"
  by (auto simp: quiet_def)

lemma sock_close_shard:
  assumes "run_state (sock_close e c) s = (r, s')"
  shows "d_shard s' = d_shard s"
proof -
  obtain n ks where "s' = s\<lparr>w_tick := n, w_socks := ks, w_trace := w_trace s @ [EvClose c]\<rparr>"
    using sock_close_effect [OF assms] by blast
  then show ?thesis by simp
qed

lemma tcp_finish_shard:
  assumes "run_state (tcp_finish e tstr h srv c r) s = (r', s')"
  shows "d_shard s' = d_shard s"
proof -
  obtain r1 s1 where m: "run_state (consume tstr h TCP r) s = (r1, s1)" by (rule prod.exhaust)
  have s1: "d_shard s1 = d_shard s" by (rule quiet_shard [OF hushedD [OF hushed_consume m]])
  show ?thesis
  proof (rule tcp_finish_cases [OF assms m])
    assume "r' = Hang" "r1 = Hang"
    with assms m s1 show ?thesis by (simp add: tcp_finish_def)
  next
    fix a x
    assume "run_state (sock_close e (tc_sock c))
      (s1\<lparr>w_trace := w_trace s1 @ [EvLifecycle (ts_cxHook srv) (CxClose a)]\<rparr>) = (x, s')"
    with s1 show ?thesis using sock_close_shard by fastforce
  qed
qed

lemma prompt_advance:
  assumes "env_ok e" "live_inv n K B Ls (Live s js)" "prompt (d_shard s)" "k < length js"
    and "run_state (phase_step (upstream_Conn e fuel) e h transport (j_phase (js ! k))) s = (ph, s')"
  shows "ph \<noteq> Finished Hang \<and> prompt (d_shard s')"
proof -
  obtain L b where "dot_inv n K b (jobs_held js + (Ls + L)) s" using assms(2) by (auto simp: live_inv_def)
  then have "prompt_inv n K b (phase_socks (j_phase (js ! k)) + (clients_held js + upstreams_held (remove_nth k js) + (Ls + L))) s"
    using assms(3) by (simp add: prompt_inv_def held_nth(2) [OF assms(4)] ac_simps)
  moreover have "phase_ok (length K) (j_phase (js ! k))" using assms(2,4) by (simp add: live_inv_def)
  ultimately show ?thesis
    using prompt_sharded.phase_step_returns [OF assms(1) _ _ assms(5)] by (auto simp: prompt_inv_def)
qed

lemma work_step_prompt:
  assumes "env_ok e" "work_step e tstr d (Live s js) (Live s' js')" "live_inv n K B Ls (Live s js)" "prompt (d_shard s)"
  shows "prompt (d_shard s')"
  using assms(2)
proof cases
  case (advance k fuel ph)
  then show ?thesis using prompt_advance [OF assms(1,3,4)] by blast
next
  case (udp_end k r)
  then show ?thesis using assms(4) quiet_shard [OF hushedD [OF hushed_consume]] by metis
next
  case (tcp_end srv lis k c r)
  then show ?thesis using assms(4) tcp_finish_shard by metis
next
  case (goroutine k r)
  then show ?thesis using assms(4) goroutine_shard by metis
qed

lemma tcp_jobs_deployed:
  assumes "live_reach e tstr d s0 c"
  shows "case c of Live s js \<Rightarrow> \<forall>j \<in> set js. \<forall>c. j_origin j = FromTCP c \<longrightarrow> dp_tcp d \<noteq> None | Crashed q \<Rightarrow> True"
  using assms
proof (induction rule: live_reach.induct)
  case (step c c')
  from step(2,3) show ?case
  proof (induction rule: live_step.induct)
    case (work c c')
    then show ?case
    proof (induction rule: work_step.induct)
      case (advance k js fuel s ph s')
      then show ?case using set_update_subset_insert [of js k "(js ! k)\<lparr>j_phase := ph\<rparr>"] by fastforce
    qed (use set_remove_nth in \<open>fastforce+\<close>)
  qed auto
qed simp

lemma job_can_work:
  assumes "env_ok e" "live_reach e tstr d s0 (Live s js)" "live_inv n K B Ls (Live s js)" "prompt (d_shard s)" "k < length js"
  shows "\<exists>c'. work_step e tstr d (Live s js) c'"
proof (cases "\<exists>r. j_phase (js ! k) = Finished r")
  case False
  obtain ph s' where run: "run_state (phase_step (upstream_Conn e 0) e (dp_handler d) (transport_of (j_origin (js ! k)))
      (j_phase (js ! k))) s = (ph, s')" by (rule prod.exhaust)
  with False prompt_advance [OF assms(1,3,4,5) run] work_step.advance [OF assms(5) _ run] show ?thesis by blast
next
  case True
  then obtain r where fin: "j_phase (js ! k) = Finished r" ..
  have "phase_ok (length K) (j_phase (js ! k))" using assms(3,5) by (simp add: live_inv_def)
  then have ret: "r = Ret () \<or> (\<exists>er. r = Fail er)" using fin by (cases r) auto
  obtain r1 s1 where m: "run_state (consume tstr (dp_handler d) (transport_of (j_origin (js ! k))) r) s = (r1, s1)"
    by (rule prod.exhaust)
  with ret have r1: "r1 = Ret ()" by (auto simp: consume_def split: prod.splits)
  show ?thesis
  proof (cases "j_origin (js ! k)")
    case FromUDP
    with m r1 have "run_state (consume tstr (dp_handler d) UDP r) s = (Ret (), s1)" by simp
    from work_step.udp_end [OF assms(5) FromUDP fin this] show ?thesis by blast
  next
    case (FromTCP c)
    then obtain srv lis where tcp: "dp_tcp d = Some (srv, lis)"
      using tcp_jobs_deployed [OF assms(2)] assms(5) nth_mem by fastforce
    obtain r2 s2 where f: "run_state (tcp_finish e tstr (dp_handler d) srv c r) s = (r2, s2)" by (rule prod.exhaust)
    have "run_state (consume tstr (dp_handler d) TCP r) s = (Ret (), s1)" using m r1 FromTCP by simp
    then have "r2 = Ret ()" by (rule tcp_finish_cases [OF f]) simp_all
    with work_step.tcp_end [OF tcp assms(5) FromTCP fin] f show ?thesis by blast
  qed
qed

lemma stuck_is_idle:
  assumes "env_ok e" "live_reach e tstr d s0 (Live s js)" "live_inv n K B Ls (Live s js)" "prompt (d_shard s)"
    and "\<nexists>c'. work_step e tstr d (Live s js) c'"
  shows "js = [] \<and> p_tasks s = []"
proof
  show "js = []" using job_can_work [OF assms(1-4), of 0] assms(5) by auto
  show "p_tasks s = []"
  proof (rule ccontr)
    assume "p_tasks s \<noteq> []"
    then have "0 < length (p_tasks s)" by simp
    moreover obtain r s' where "run_state (run_task e (p_tasks s ! 0)) (take_task 0 s) = (r, s')" by (rule prod.exhaust)
    ultimately show False using work_step.goroutine assms(5) by blast
  qed
qed

text \<open>Working on keeps a state reachable, live and prompt.\<close>

lemma work_steps_live:
  assumes "env_ok e" "dot_inv n K B Ls s0" "live_reach e tstr d s0 (Live s js)" "prompt (d_shard s)"
    and "(work_step e tstr d)\<^sup>*\<^sup>* (Live s js) c"
  shows "\<exists>s' js'. c = Live s' js' \<and> live_reach e tstr d s0 c \<and> live_inv n K B Ls c \<and> prompt (d_shard s')"
  using assms(5)
proof (induction rule: rtranclp_induct)
  case base
  show ?case using assms(3,4) live_reach_inv [OF assms(1,2)] by blast
next
  case (step c c')
  then obtain s1 js1 where c: "c = Live s1 js1" "live_reach e tstr d s0 c" "live_inv n K B Ls c" "prompt (d_shard s1)" by blast
  have reach: "live_reach e tstr d s0 c'" by (rule live_reach.step [OF c(2) live_step.work [OF step(2)]])
  have inv: "live_inv n K B Ls c'" by (rule work_step_inv [OF assms(1) step(2) c(3)])
  then obtain s2 js2 where c': "c' = Live s2 js2" by (cases c') (auto simp: live_inv_def)
  have "prompt (d_shard s2)" using work_step_prompt [OF assms(1)] step(2) c(1,3,4) c' by blast
  with reach inv c' show ?case by blast
qed

section \<open>Properties\<close>


end
