(* ===== verification/Healthy.thy ===== *)
theory Healthy
  imports Drain Timeouts
begin

text \<open>
  When the network and the upstream servers do their part, requests are answered. \<open>responsive\<close>
  says what that means: connections can be opened, every operation completes within its
  timeout, writes are complete, and a read from an upstream server fills the buffer, as
  \<open>upstreamTransact\<close> of \<^verbatim>\<open>src/internal/protocol/dns_proxy.go\<close> needs it. The sockets \<open>C\<close>
  are those of clients, whose reads may be short.
\<close>

section \<open>A responsive environment\<close>

definition responsive :: "duration \<Rightarrow> cid set \<Rightarrow> env \<Rightarrow> bool" where
  "responsive T C e \<longleftrightarrow> 0 < T \<and> (\<forall>i. e_now e (i + 2) < e_now e i + T) \<and>
     (\<forall>i a. \<exists>l r. e_dial e i a = Inr (l, r)) \<and> (\<forall>i c sn. e_handshake e i c sn = None) \<and>
     (\<forall>i c. e_setdeadline e i c = None) \<and>
     (\<forall>i c n. \<exists>b. e_read e i c n = (b, None) \<and> (c \<notin> C \<longrightarrow> length b = n)) \<and>
     (\<forall>i c b. e_write e i c b = (length b, None)) \<and>
     (\<forall>i c n. \<exists>b a. e_readfrom e i c n = (b, Some a, None)) \<and>
     (\<forall>i c b a. e_writeto e i c b a = (length b, None))"

lemma responsiveD:
  assumes "responsive T C e"
  shows "0 < T" "e_now e (Suc (Suc i)) < e_now e i + T" "\<exists>l r. e_dial e i a = Inr (l, r)" "e_handshake e i c sn = None"
    "e_setdeadline e i c = None" "\<exists>b. e_read e i c n = (b, None) \<and> (c \<notin> C \<longrightarrow> length b = n)"
    "e_write e i c b = (length b, None)" "\<exists>b to. e_readfrom e i c n = (b, Some to, None)"
    "e_writeto e i c b to = (length b, None)"
  using assms by (auto simp: responsive_def)

lemma in_time:
  assumes "responsive T C e" "T \<le> t"
  shows "0 < t" "\<not> e_now e i + t \<le> e_now e (Suc (Suc i))"
  using assms(2) responsiveD(1) [OF assms(1)] responsiveD(2) [OF assms(1), of i] by simp_all

lemmas responsive_simps = responsiveD(4,5,7,9)

lemma get_sock_open: "c \<in> open_set s \<longleftrightarrow> (\<exists>k. get_sock s c = Some k \<and> s_open k)"
  by (auto simp: get_sock_def open_ids_def)

lemmas io_defs = SetReadDeadline_def SetWriteDeadline_def sock_set_deadline_def io_ready_def expired_def get_sock_def open_ids_def

lemma TCPConn_Write_ok:
  assumes "responsive T C e" "T \<le> tc_writeTimeout c" "tc_sock c \<in> open_set s"
  shows "fst (run_state (TCPConn_Write e c b) s) = (length b, None)"
  using assms(3) by (simp add: TCPConn_Write_def sock_write_def io_defs responsive_simps [OF assms(1)] in_time [OF assms(1,2)])

lemma TCPConn_Read_ok:
  assumes "responsive T C e" "T \<le> tc_readTimeout c" "tc_sock c \<in> open_set s"
  shows "\<exists>b. fst (run_state (TCPConn_Read e c n) s) = (b, None) \<and> (tc_sock c \<notin> C \<longrightarrow> length b = n)"
  using assms(3) responsiveD(6) [OF assms(1)]
  by (simp add: TCPConn_Read_def sock_read_def io_defs responsive_simps [OF assms(1)] in_time [OF assms(1,2)])

fun client_ready :: "duration \<Rightarrow> NetConn \<Rightarrow> bool" where
  "client_ready T (NetTCP c) \<longleftrightarrow> T \<le> tc_readTimeout c \<and> T \<le> tc_writeTimeout c"
| "client_ready T (NetUDP u) \<longleftrightarrow> T \<le> uc_readTimeout u \<and> T \<le> uc_writeTimeout u"

fun client_sock :: "NetConn \<Rightarrow> cid" where
  "client_sock (NetTCP c) = tc_sock c"
| "client_sock (NetUDP u) = uc_conn u"

fun fresh :: "NetConn \<Rightarrow> bool" where
  "fresh (NetTCP c) \<longleftrightarrow> True"
| "fresh (NetUDP u) \<longleftrightarrow> uc_remote u = None"

fun answerable :: "NetConn \<Rightarrow> bool" where
  "answerable (NetTCP c) \<longleftrightarrow> True"
| "answerable (NetUDP u) \<longleftrightarrow> uc_remote u \<noteq> None"

lemma UDPConn_Read_ok:
  assumes "responsive T C e" "T \<le> uc_readTimeout u" "uc_conn u \<in> open_set s" "uc_remote u = None"
  shows "\<exists>b a. fst (run_state (UDPConn_Read e u n) s) = ((b, None), u\<lparr>uc_remote := Some a\<rparr>)"
  using assms(3,4) responsiveD(8) [OF assms(1), of "Suc (Suc (w_tick s))" "uc_conn u" n]
  by (auto simp: UDPConn_Read_def sock_readfrom_def io_defs responsive_simps [OF assms(1)] in_time [OF assms(1,2)])

lemma UDPConn_Write_ok:
  assumes "responsive T C e" "T \<le> uc_writeTimeout u" "uc_conn u \<in> open_set s" "uc_remote u \<noteq> None"
  shows "fst (run_state (UDPConn_Write e u b) s) = (length b, None)"
  using assms(3,4)
  by (auto simp: UDPConn_Write_def sock_writeto_def io_defs responsive_simps [OF assms(1)] in_time [OF assms(1,2)])

lemma hushed_open: "hushed m \<Longrightarrow> open_set (snd (run_state m s)) = open_set s"
  using hushedD [of m s "fst (run_state m s)" "snd (run_state m s)"] by (auto simp: quiet_def)

lemma RemoteAddr_keeps [simp]: "snd (run_state (conn_RemoteAddr client) s) = s"
  by (cases client) (simp_all add: TCPConn_RemoteAddr_def)

section \<open>The handler's parts succeed\<close>

lemma conn_Read_ok:
  assumes "responsive T C e" "client_ready T client" "client_sock client \<in> open_set s" "fresh client"
  shows "\<exists>b client'. fst (run_state (conn_Read e client n) s) = ((b, None), client') \<and> client_ready T client' \<and>
    client_sock client' = client_sock client \<and> answerable client'"
proof (cases client)
  case (NetTCP c)
  with assms(2,3) TCPConn_Read_ok [OF assms(1), of c s n] show ?thesis by (auto simp: split_beta)
next
  case (NetUDP u)
  with assms(2-4) UDPConn_Read_ok [OF assms(1), of u s n] show ?thesis by (auto simp: split_beta)
qed

lemma clientRead_ok:
  assumes "responsive T C e" "client_ready T client" "client_sock client \<in> open_set s" "fresh client"
  shows "\<exists>b client'. fst (run_state (clientRead e h client) s) = (Ret b, client') \<and> client_ready T client' \<and>
    client_sock client' = client_sock client \<and> answerable client'"
  using conn_Read_ok [OF assms, of 1024] by (auto simp: clientRead_def split_beta)

lemma conn_Write_ok:
  assumes "responsive T C e" "client_ready T client" "client_sock client \<in> open_set s" "answerable client"
  shows "fst (run_state (conn_Write e client b) s) = (length b, None)"
proof (cases client)
  case (NetTCP c)
  with assms(2,3) TCPConn_Write_ok [OF assms(1), of c s b] show ?thesis by simp
next
  case (NetUDP u)
  with assms(2-4) UDPConn_Write_ok [OF assms(1), of u s b] show ?thesis by simp
qed

lemma clientWrite_ok:
  assumes "responsive T C e" "client_ready T client" "client_sock client \<in> open_set s" "answerable client"
  shows "fst (run_state (clientWrite e h client b) s) = Ret ()"
  using conn_Write_ok [OF assms, of b] by (simp add: clientWrite_def split_beta)

lemma transact_ok:
  assumes "responsive T C e" "T \<le> tc_readTimeout (pc_conn pc)" "T \<le> tc_writeTimeout (pc_conn pc)"
    and "tc_sock (pc_conn pc) \<in> open_set s" "tc_sock (pc_conn pc) \<notin> C"
  shows "\<exists>resp. fst (run_state (upstreamTransact e h client pc req) s) = Ret resp \<and> 2 \<le> length resp"
proof -
  let ?c = "pc_conn pc"
  have read: "snd (fst (run_state (TCPConn_Read e ?c n) t)) = None" "length (fst (fst (run_state (TCPConn_Read e ?c n) t))) = n"
    if "tc_sock ?c \<in> open_set t" for n and t :: "'a world_scheme"
    using TCPConn_Read_ok [OF assms(1,2) that, of n] assms(5) by auto
  note wrote = TCPConn_Write_ok [OF assms(1,3)]
  show ?thesis
    using assms(4)
    by (simp add: upstreamTransact_def Let_def split_beta wrote read hushed_open hushed_TCPConn TCPConn_RemoteAddr_def)
qed

section \<open>Acquiring a connection succeeds\<close>

lemma tlsDialer_ok:
  assumes "responsive T C e" "dialer_timely T d"
  shows "\<exists>c. fst (run_state (tlsDialer e d) s) = Ret c \<and> timely T c"
proof -
  obtain l r where "e_dial e (w_tick s) (d_addr d) = Inr (l, r)" using responsiveD(3) [OF assms(1)] by blast
  with assms(2) show ?thesis
    by (auto simp: tlsDialer_def sock_dial_def tls_handshake_def SetDeadline_def io_defs timely_def dialer_timely_def
        NewTCPConn_def responsive_simps [OF assms(1)] in_time [OF assms(1)])
qed

lemma pool_dial_ok:
  assumes "responsive T C e" "fits T s" "p < length (p_pools s)"
  shows "\<exists>pc. fst (run_state (pool_dial (tls_dial e) e p) s) = Ret pc \<and> timely T (pc_conn pc)"
  using tlsDialer_ok [OF assms(1) fits_pool(1) [OF assms(2,3)], of s]
  by (auto simp: pool_dial_def tls_dial_def split_beta TCPConn_RemoteAddr_def NewPersistentConn_def)

lemma PersistentConnPool_Conn_ok:
  assumes "responsive T C e" "fits T s" "p < length (p_pools s)"
  shows "\<exists>pc. fst (run_state (PersistentConnPool_Conn (tls_dial e) e p) s) = Ret pc \<and> timely T (pc_conn pc)"
proof -
  note queue = fits_pool(2) [OF assms(2,3)]
  then have "mru_inv (conns (p_pools s ! p))" by (simp add: queue_timely_def)
  then show ?thesis
  proof (cases rule: mru.pop_cases)
    case none
    have "fits T (set_conns p (conns (p_pools s ! p)) s)" by (rule fits_set_conns [OF assms(2) queue])
    from pool_dial_ok [OF assms(1) this, of p] none assms(3) show ?thesis
      by (simp add: PersistentConnPool_Conn_def conns_Pop_def set_conns_def)
  next
    case (some c sec q)
    let ?s = "set_conns p q s"
    have timely: "timely T c" "queue_timely T q" using queue some by (auto simp: queue_timely_def)
    have "fits T ?s" by (rule fits_set_conns [OF assms(2) timely(2)])
    then have "\<exists>pc. fst (run_state (pool_dial (tls_dial e) e p)
        (?s\<lparr>w_tick := k, w_trace := tr, p_tasks := p_tasks ?s @ [TSockClose i]\<rparr>)) = Ret pc \<and> timely T (pc_conn pc)" for k tr i
      by (intro pool_dial_ok [OF assms(1)]) (use assms(3) in \<open>auto simp: fits_def set_conns_def\<close>)
    with timely(1) some(1) show ?thesis
      by (auto simp: PersistentConnPool_Conn_def conns_Pop_def NewPersistentConn_def TCPConn_RemoteAddr_def spawn_def)
  qed
qed

lemma TLSClient_Conn_ok:
  assumes "responsive T C e" "fits T s" "clients_ok s" "i < length (sys_clients s)"
  shows "\<exists>pc. fst (run_state (TLSClient_Conn e i) s) = Ret pc \<and> timely T (pc_conn pc)"
proof -
  have "c_pool (sys_clients s ! i) < length (p_pools s)" using assms(3,4) by (simp add: clients_ok_def)
  from PersistentConnPool_Conn_ok [OF assms(1,2) this] show ?thesis by (auto simp: TLSClient_Conn_def split_beta)
qed

lemma ShardedClient_Conn_ok:
  assumes "responsive T C e" "env_ok e" "fits T s" "clients_ok s" "shard_ok {..<length (sys_clients s)} sc" "prompt sc"
  shows "\<exists>pc. fst (fst (run_state (ShardedClient_Conn e (TLSClient_Conn e) TLSClient_Stats fuel sc) s)) = Ret pc \<and>
    timely T (pc_conn pc)"
proof -
  have conn: "\<exists>pc. fst (run_state (TLSClient_Conn e i) s) = Ret pc \<and> timely T (pc_conn pc)" if "i \<in> set (shard_clients sc)" for i
    using assms(5) that by (intro TLSClient_Conn_ok [OF assms(1,3,4)]) (auto simp: shard_ok_def)
  show ?thesis
  proof (cases sc)
    case (SRoundRobin c)
    then have "rrIdx c < length (rr_clients c)" using assms(5) by (simp add: shard_ok_def)
    with conn [of "rr_clients c ! rrIdx c"] SRoundRobin show ?thesis by (auto simp: RoundRobin_Conn_def split_beta)
  next
    case (SRandom c)
    let ?k = "e_intn e (w_tick s) (length (rnd_clients c))" and ?s = "s\<lparr>w_tick := Suc (w_tick s)\<rparr>"
    have k: "?k < length (rnd_clients c)" using assms(2,5) SRandom by (simp add: env_ok_def shard_ok_def)
    then have "rnd_clients c ! ?k < length (sys_clients ?s)" using assms(5) SRandom nth_mem by (fastforce simp: shard_ok_def)
    moreover have "fits T ?s" "clients_ok ?s" using assms(3,4) by (simp_all add: fits_def clients_ok_def)
    ultimately show ?thesis using TLSClient_Conn_ok [OF assms(1), of ?s] k SRandom
      by (auto simp: Random_Conn_def pick_def rand_Intn_def split_beta)
  next
    case (SHistorical c)
    then have "hist_clients c \<noteq> []" using assms(5) by (simp add: shard_ok_def)
    from tls_client.run_fewest [OF this] obtain cl where "cl \<in> set (hist_clients c)"
      "run_state (fewest TLSClient_Stats (hist_clients c) None) s = (Some cl, s)" by blast
    with conn [of cl] SHistorical show ?thesis by (auto simp: Historical_Conn_def split_beta)
  next
    case (SFailover c)
    then obtain cl rest where "fo_clients c = cl # rest" using assms(5) by (cases "fo_clients c") (auto simp: shard_ok_def)
    with conn [of cl] SFailover show ?thesis by (auto simp: Failover_Conn_def split_beta)
  qed (use assms(6) in \<open>simp add: prompt_def\<close>)
qed

lemma upstream_Conn_ok:
  assumes "responsive T C e" "env_ok e" "prompt_inv n K b X s" "fits T s" "run_state (upstream_Conn e fuel) s = (r, s')"
  shows "\<exists>pc. r = Ret pc \<and> timely T (pc_conn pc)"
proof -
  have "clients_ok s" "shard_ok {..<length (sys_clients s)} (d_shard s)" "prompt (d_shard s)"
    using assms(3) by (auto simp: prompt_inv_def dot_inv_def clients_inv_def)
  from ShardedClient_Conn_ok [OF assms(1,2,4) this, of fuel] assms(5) show ?thesis
    by (auto simp: upstream_Conn_def split_beta)
qed

lemma upstream_Conn_fits:
  assumes "env_ok e" "prompt_inv n K b X s" "fits T s" "run_state (upstream_Conn e fuel) s = (r, s')"
  shows "fits T s'"
proof -
  obtain sc' s1 where "run_state (ShardedClient_Conn e (TLSClient_Conn e) TLSClient_Stats fuel (d_shard s)) s = ((r, sc'), s1)"
      "s' = s1\<lparr>d_shard := sc'\<rparr>"
    using assms(4) by (auto simp: upstream_Conn_def split: prod.splits)
  with timed_client.ShardedClient_post [OF _ assms(1) _ this(1), of n "(K, b, X)" T] assms(2,3) show ?thesis
    by (auto simp: prompt_inv_def dot_inv_def prompt_def elim: fits_cong)
qed

section \<open>A request stays on track\<close>

lemma owned_open: "prompt_inv n K b X s \<Longrightarrow> c \<in># X \<Longrightarrow> c \<in> open_set s"
  by (auto simp: prompt_inv_def dot_inv_def clients_inv_def good_def accounts_def)
    (metis elem_mset_set mset_set.infinite empty_not_add_mset union_iff multi_member_split)

text \<open>\<open>on_track T Y ph\<close>: nothing has gone wrong so far, and the client is reached through a socket of \<open>Y\<close>.\<close>

fun on_track :: "duration \<Rightarrow> cid set \<Rightarrow> phase \<Rightarrow> bool" where
  "on_track T Y (Reading client) \<longleftrightarrow> client_ready T client \<and> client_sock client \<in> Y \<and> fresh client"
| "on_track T Y (Acquiring client req retries) \<longleftrightarrow> client_ready T client \<and> client_sock client \<in> Y \<and> answerable client"
| "on_track T Y (Exchanging client req retries pc) \<longleftrightarrow>
     client_ready T client \<and> client_sock client \<in> Y \<and> answerable client \<and> timely T (pc_conn pc)"
| "on_track T Y (Answering client req pc resp) \<longleftrightarrow>
     client_ready T client \<and> client_sock client \<in> Y \<and> answerable client \<and> 2 \<le> length resp"
| "on_track T Y (Finished r) \<longleftrightarrow> r = Ret ()"

text \<open>The phases that are left when nothing goes wrong.\<close>

fun phases_left :: "phase \<Rightarrow> nat" where
  "phases_left (Reading client) = 4"
| "phases_left (Acquiring client req retries) = 3"
| "phases_left (Exchanging client req retries pc) = 2"
| "phases_left (Answering client req pc resp) = 1"
| "phases_left (Finished r) = 0"

lemma phases_left_0: "phases_left ph = 0 \<longleftrightarrow> (\<exists>r. ph = Finished r)"
  by (cases ph) simp_all

lemma reading_on_track:
  assumes "responsive T C e" "fits T s" "on_track T Y (Reading client)" "Y \<subseteq> open_set s"
    and "run_state (phase_step conn e h transport (Reading client)) s = (ph', s')"
  shows "on_track T Y ph' \<and> fits T s' \<and> phases_left ph' = phases_left (Reading client) - 1"
proof -
  obtain b' client' s1 where read: "run_state (clientRead e h client) s = ((Ret b', client'), s1)" and
    client': "client_ready T client'" "client_sock client' = client_sock client" "answerable client'"
    using clientRead_ok [OF assms(1), of client s h] assms(3,4) by (metis on_track.simps(1) prod.collapse subsetD)
  have "fits T s1" by (rule keepsD [OF fits_hushed [OF hushed_handler(1)] assms(2) read])
  with assms(3,5) read client' show ?thesis by (auto simp: elim: fits_cong)
qed

lemma exchanging_on_track:
  assumes "responsive T C e" "fits T s" "on_track T Y (Exchanging client req retries pc)"
    and "tc_sock (pc_conn pc) \<in> open_set s" "tc_sock (pc_conn pc) \<notin> C"
    and "run_state (phase_step conn e h transport (Exchanging client req retries pc)) s = (ph', s')"
  shows "on_track T Y ph' \<and> fits T s' \<and> phases_left ph' = phases_left (Exchanging client req retries pc) - 1"
proof -
  obtain resp s1 where run: "run_state (upstreamTransact e h client pc req) s = (Ret resp, s1)" "2 \<le> length resp"
    using transact_ok [OF assms(1), of pc s h client req] assms(3-5) by (auto simp: timely_def) (metis prod.collapse)
  have "fits T s1" by (rule keepsD [OF fits_hushed [OF hushed_handler(2)] assms(2) run(1)])
  with assms(3,6) run show ?thesis by (auto simp: fits_def)
qed

lemma answering_on_track:
  assumes "responsive T C e" "fits T s" "on_track T Y (Answering client req pc resp)" "Y \<subseteq> open_set s"
    and "run_state (phase_step conn e h transport (Answering client req pc resp)) s = (ph', s')"
  shows "on_track T Y ph' \<and> fits T s' \<and> phases_left ph' = phases_left (Answering client req pc resp) - 1"
proof -
  have "\<exists>y. unframe transport resp = Ret y" using assms(3) by (simp add: unframe_def)
  then obtain y where y: "unframe transport resp = Ret y" ..
  obtain s1 where wrote: "run_state (clientWrite e h client y) s = (Ret (), s1)"
    using clientWrite_ok [OF assms(1), of client s h y] assms(3,4) by (metis on_track.simps(4) prod.collapse subsetD)
  have "fits T s1" by (rule keepsD [OF fits_hushed [OF hushed_handler(3)] assms(2) wrote])
  moreover obtain s2 where report: "run_state (report e h client pc req y) s1 = ((), s2)" by (metis prod.exhaust old.unit.exhaust)
  ultimately have "fits T s2" using keepsD [OF fits_hushed [OF hushed_handler(4)]] by blast
  with assms(5) y wrote report show ?thesis by auto
qed

lemma phase_on_track:
  assumes "responsive T C e" "env_ok e" "prompt_inv n K b (phase_socks ph + X) s" "fits T s" "on_track T Y ph" "Y \<subseteq> set_mset X"
    and "set_mset (phase_socks ph) \<inter> C = {}"
    and "run_state (phase_step (upstream_Conn e fuel) e h transport ph) s = (ph', s')"
  shows "on_track T Y ph' \<and> fits T s' \<and> phases_left ph' = phases_left ph - 1"
proof -
  have Y: "Y \<subseteq> open_set s" using owned_open [OF assms(3)] assms(6) by auto
  show ?thesis
  proof (cases ph)
    case (Reading client)
    with reading_on_track [OF assms(1,4) _ Y] assms(5,8) show ?thesis by blast
  next
    case (Acquiring client req retries)
    obtain r s1 where conn: "run_state (upstream_Conn e fuel) s = (r, s1)" by (rule prod.exhaust)
    have inv: "prompt_inv n K b X s" using assms(3) Acquiring by simp
    obtain pc where "r = Ret pc" "timely T (pc_conn pc)" using upstream_Conn_ok [OF assms(1,2) inv assms(4) conn] by blast
    with upstream_Conn_fits [OF assms(2) inv assms(4) conn] conn assms(5,8) Acquiring show ?thesis
      by (auto elim: fits_cong)
  next
    case (Exchanging client req retries pc)
    have "tc_sock (pc_conn pc) \<in> open_set s" "tc_sock (pc_conn pc) \<notin> C"
      using owned_open [OF assms(3)] assms(7) Exchanging by auto
    with exchanging_on_track [OF assms(1,4)] assms(5,8) Exchanging show ?thesis by blast
  next
    case (Answering client req pc resp)
    with answering_on_track [OF assms(1,4) _ Y] assms(5,8) show ?thesis by blast
  qed (use assms(4,5,8) in auto)
qed

section \<open>Every request in flight stays on track\<close>

definition servers_timely :: "duration \<Rightarrow> cid multiset \<Rightarrow> deployment \<Rightarrow> bool" where
  "servers_timely T Ls d \<longleftrightarrow>
     (\<forall>srv sock. dp_udp d = Some (srv, sock) \<longrightarrow>
        sock \<in># Ls \<and> T \<le> udp_ReadTimeout (us_opts srv) \<and> T \<le> udp_WriteTimeout (us_opts srv)) \<and>
     (\<forall>srv lis. dp_tcp d = Some (srv, lis) \<longrightarrow> T \<le> tcp_ReadTimeout (ts_opts srv) \<and> T \<le> tcp_WriteTimeout (ts_opts srv))"

abbreviation job_on_track :: "duration \<Rightarrow> cid multiset \<Rightarrow> job \<Rightarrow> bool" where
  "job_on_track T Ls j \<equiv> on_track T (set_mset (origin_socks (j_origin j) + Ls)) (j_phase j)"

definition healthy :: "duration \<Rightarrow> cid multiset \<Rightarrow> live_state \<Rightarrow> bool" where
  "healthy T Ls c \<longleftrightarrow> (case c of
     Live s js \<Rightarrow> fits T s \<and> prompt (d_shard s) \<and> (\<forall>j \<in> set js. job_on_track T Ls j)
   | Crashed q \<Rightarrow> False)"

lemma healthy_job: "healthy T Ls (Live s js) \<Longrightarrow> k < length js \<Longrightarrow> job_on_track T Ls (js ! k)"
  by (simp add: healthy_def)

text \<open>No request holds an upstream connection whose socket is in \<open>C\<close>.\<close>

fun apart :: "cid set \<Rightarrow> live_state \<Rightarrow> bool" where
  "apart C (Live s js) \<longleftrightarrow> (\<forall>j \<in> set js. set_mset (phase_socks (j_phase j)) \<inter> C = {})"
| "apart C (Crashed q) \<longleftrightarrow> True"

lemma advance_healthy:
  assumes "responsive T C e" "env_ok e" "live_inv n K B Ls (Live s js)" "healthy T Ls (Live s js)" "k < length js"
    and "set_mset (phase_socks (j_phase (js ! k))) \<inter> C = {}"
    and "run_state (phase_step (upstream_Conn e fuel) e h transport (j_phase (js ! k))) s = (ph, s')"
  shows "healthy T Ls (Live s' (js[k := (js ! k)\<lparr>j_phase := ph\<rparr>])) \<and> phases_left ph = phases_left (j_phase (js ! k)) - 1"
proof -
  let ?j = "js ! k" and ?Y = "set_mset (origin_socks (j_origin (js ! k)) + Ls)"
  obtain L b where "dot_inv n K b (jobs_held js + (Ls + L)) s" using assms(3) by (auto simp: live_inv_def)
  then have inv: "prompt_inv n K b (phase_socks (j_phase ?j) + (clients_held js + upstreams_held (remove_nth k js) + (Ls + L))) s"
    using assms(4) by (simp add: prompt_inv_def healthy_def held_nth(2) [OF assms(5)] ac_simps)
  have j: "fits T s" "job_on_track T Ls ?j" using assms(4) healthy_job [OF assms(4,5)] by (simp_all add: healthy_def)
  have "on_track T ?Y ph \<and> fits T s' \<and> phases_left ph = phases_left (j_phase ?j) - 1"
    by (rule phase_on_track [OF assms(1,2) inv j _ assms(6,7)]) (auto simp: held_nth(1) [OF assms(5)])
  moreover have "prompt (d_shard s')" using prompt_advance [OF assms(2,3) _ assms(5,7)] assms(4) by (simp add: healthy_def)
  ultimately show ?thesis
    using assms(4) set_update_subset_insert [of js k "?j\<lparr>j_phase := ph\<rparr>"] by (auto simp: healthy_def)
qed

lemma healthy_remove: "fits T s \<Longrightarrow> prompt (d_shard s) \<Longrightarrow> healthy T Ls (Live s0 js) \<Longrightarrow> healthy T Ls (Live s (remove_nth k js))"
  using set_remove_nth [of k js] by (auto simp: healthy_def)

lemma work_step_healthy:
  assumes "responsive T C e" "env_ok e" "work_step e tstr d c c'" "live_inv n K B Ls c" "healthy T Ls c" "apart C c"
  shows "healthy T Ls c'"
  using assms(3-6)
proof (induction rule: work_step.induct)
  case (advance k js fuel s ph s')
  then have "set_mset (phase_socks (j_phase (js ! k))) \<inter> C = {}" by simp
  with advance_healthy [OF assms(1,2) advance(5,6,1) this advance(3)] show ?case by blast
next
  case (udp_end k js r s s')
  then have s: "fits T s" "prompt (d_shard s)" by (simp_all add: healthy_def)
  show ?case
    by (rule healthy_remove [OF _ _ udp_end(6)])
      (use s keepsD [OF fits_hushed [OF hushed_consume] _ udp_end(4)] quiet_shard [OF hushedD [OF hushed_consume udp_end(4)]] in simp_all)
next
  case (tcp_end srv lis k js c r s s')
  then have s: "fits T s" "prompt (d_shard s)" by (simp_all add: healthy_def)
  have fin: "keeps (fits T) (tcp_finish e tstr (dp_handler d) srv c r)"
    unfolding tcp_finish_def TCPConn_Close_def by (intro keeps_rules; simp)
  show ?case
    by (rule healthy_remove [OF _ _ tcp_end(7)]) (use s tcp_finish_shard [OF tcp_end(5)] keepsD [OF fin _ tcp_end(5)] in simp_all)
next
  case (panic k js q s)
  with healthy_job [OF panic(4,1)] show ?case by simp
next
  case (goroutine k s r s' js)
  then show ?case using fits_goroutine [OF _ goroutine(1,2)] goroutine_shard [OF goroutine(2)] by (simp add: healthy_def)
qed

lemma tcp_accept_healthy:
  assumes "run_state (tcp_accept e tstr h srv lis) s = (r, s')" "fits T s" "prompt (d_shard s)"
  shows "fits T s' \<and> prompt (d_shard s')"
    and "r = Some c \<Longrightarrow> tc_readTimeout c = tcp_ReadTimeout (ts_opts srv) \<and> tc_writeTimeout c = tcp_WriteTimeout (ts_opts srv)"
  using assms by (auto simp: tcp_accept_def ConsumeError_def TCPConn_RemoteAddr_def Let_def NewTCPConn_def fits_def split: sum.splits prod.splits)

lemma live_step_healthy:
  assumes "responsive T C e" "env_ok e" "servers_timely T Ls d"
    and "live_step e tstr d c c'" "live_inv n K B Ls c" "healthy T Ls c" "apart C c"
  shows "healthy T Ls c'"
  using assms(4-7)
proof (induction rule: live_step.induct)
  case (udp_begin srv sock js client s)
  then show ?case using assms(3) by (auto simp: healthy_def servers_timely_def NewUDPConn_def)
next
  case (accept srv lis s c s' js)
  then show ?case using tcp_accept_healthy [OF accept(2)] assms(3) by (auto simp: healthy_def servers_timely_def)
next
  case (accept_error srv lis s s' js)
  then show ?case using tcp_accept_healthy(1) [OF accept_error(2), of T] by (simp add: healthy_def)
next
  case (disturb s sc js)
  then show ?case
    by (cases "(d_shard s, sc)" rule: disturbed.cases) (auto simp: healthy_def prompt_def fits_def)
next
  case (work c c')
  then show ?case using work_step_healthy [OF assms(1,2)] by blast
qed

text \<open>A run on which no request is given a socket of \<open>C\<close> as its upstream connection.\<close>

definition run_apart :: "env \<Rightarrow> (Transport \<Rightarrow> string) \<Rightarrow> deployment \<Rightarrow> cid set \<Rightarrow> dotproxy \<Rightarrow> live_state \<Rightarrow> bool" where
  "run_apart e tstr d C s0 = (\<lambda>c c'. live_step e tstr d c c' \<and> apart C c)\<^sup>*\<^sup>* (Live s0 [])"

lemma run_apart_reach:
  assumes "run_apart e tstr d C s0 c"
  shows "live_reach e tstr d s0 c"
  using assms unfolding run_apart_def by (induction rule: rtranclp_induct) (auto intro: live_reach.intros)

lemma run_apart_healthy:
  assumes "responsive T C e" "env_ok e" "servers_timely T Ls d" "dot_inv n K B Ls s0" "prompt (d_shard s0)" "fits T s0"
    and "run_apart e tstr d C s0 c"
  shows "healthy T Ls c"
  using assms(7) unfolding run_apart_def
proof (induction rule: rtranclp_induct)
  case base
  show ?case using assms(5,6) by (simp add: healthy_def)
next
  case (step c c')
  then have "live_inv n K B Ls c" using live_reach_inv [OF assms(2,4) run_apart_reach] by (simp add: run_apart_def)
  with step show ?case using live_step_healthy [OF assms(1-3)] by blast
qed

section \<open>Every request in flight can be answered\<close>

text \<open>The sockets of clients in flight are no upstream connections.\<close>

lemma clients_apart:
  assumes "live_inv n K B Ls (Live s js)" "k < length js"
  shows "set_mset (phase_socks (j_phase (js ! k))) \<inter> set_mset (clients_held js) = {}"
proof -
  obtain L b where "dot_inv n K b (jobs_held js + (Ls + L)) s" using assms(1) by (auto simp: live_inv_def)
  then have all: "mset_set (open_set s) = upstreams_held js + (clients_held js + (owned s + (Ls + L)))"
    by (simp add: dot_inv_def clients_inv_def good_def accounts_def ac_simps)
  have once: "count (upstreams_held js) c + count (clients_held js) c \<le> 1" for c
    using arg_cong [OF all, of "\<lambda>M. count M c"] by (simp add: count_mset_set' split: if_splits)
  have False if "c \<in># phase_socks (j_phase (js ! k))" "c \<in># clients_held js" for c
  proof -
    have "0 < count (upstreams_held js) c" "0 < count (clients_held js) c" using held_nth(2) [OF assms(2)] that by simp_all
    with once [of c] show False by linarith
  qed
  then show ?thesis by blast
qed

lemma job_completes:
  assumes "responsive T C e" "env_ok e" "live_inv n K B Ls (Live s js)" "healthy T Ls (Live s js)" "k < length js"
    and "C \<subseteq> set_mset (clients_held js)"
  shows "\<exists>s'. (work_step e tstr d)\<^sup>*\<^sup>* (Live s js) (Live s' (js[k := (js ! k)\<lparr>j_phase := Finished (Ret ())\<rparr>]))"
  using assms(3-6)
proof (induction "phases_left (j_phase (js ! k))" arbitrary: s js)
  case 0
  then obtain r where r: "j_phase (js ! k) = Finished r" using phases_left_0 by metis
  with healthy_job [OF 0(3,4)] have "r = Ret ()" by simp
  with r have "js[k := (js ! k)\<lparr>j_phase := Finished (Ret ())\<rparr>] = js" by (simp add: list_update_same_conv 0(4))
  then show ?case by auto
next
  case (Suc m)
  let ?j = "js ! k"
  have open_phase: "\<nexists>r. j_phase ?j = Finished r" using Suc(2) phases_left_0 [of "j_phase ?j"] by auto
  obtain ph s1 where run: "run_state (phase_step (upstream_Conn e 0) e (dp_handler d) (transport_of (j_origin ?j)) (j_phase ?j)) s
      = (ph, s1)" by (rule prod.exhaust)
  let ?js = "js[k := ?j\<lparr>j_phase := ph\<rparr>]"
  have "set_mset (phase_socks (j_phase ?j)) \<inter> C = {}" using clients_apart [OF Suc(3,5)] Suc(6) by blast
  from advance_healthy [OF assms(1,2) Suc(3-5) this run]
  have healthy: "healthy T Ls (Live s1 ?js)" and m: "m = phases_left (j_phase (?js ! k))" using Suc(2,5) by simp_all
  have "ph \<noteq> Finished Hang" using healthy_job [OF healthy, of k] Suc(5) by auto
  from work_step.advance [OF Suc(5) open_phase run this] have step: "work_step e tstr d (Live s js) (Live s1 ?js)" .
  from Suc(1) [OF m work_step_inv [OF assms(2) step Suc(3)] healthy] Suc(5,6) held_update(1) [OF Suc(5)]
  obtain s' where "(work_step e tstr d)\<^sup>*\<^sup>* (Live s1 ?js) (Live s' (js[k := ?j\<lparr>j_phase := Finished (Ret ())\<rparr>]))" by auto
  with step show ?case by (blast intro: converse_rtranclp_into_rtranclp)
qed

end
