(* ===== verification/Client_Gauge.thy ===== *)
theory Client_Gauge
  imports Live_System
begin

text \<open>
  The lifecycle metrics of client connections. The TCP server of \<^verbatim>\<open>src/internal/network/server.go\<close>
  reports every accepted connection as opened and, from the deferred function of its
  goroutine, as closed. Proved here, for every interleaving: the reports of opened
  connections exceed those of closed ones by the number of connections being served. The
  upstream pools report to a hook of their own, so nothing else touches the client's hook.
\<close>

section \<open>Reports to a hook\<close>

fun concerns :: "lifecycle_hook \<Rightarrow> event \<Rightarrow> bool" where
  "concerns h (EvLifecycle h' ev) \<longleftrightarrow> h' = h"
| "concerns h _ \<longleftrightarrow> False"

fun tells_open :: "lifecycle_hook \<Rightarrow> event \<Rightarrow> bool" where
  "tells_open h (EvLifecycle h' (CxOpen latency a)) \<longleftrightarrow> h' = h"
| "tells_open h _ \<longleftrightarrow> False"

fun tells_close :: "lifecycle_hook \<Rightarrow> event \<Rightarrow> bool" where
  "tells_close h (EvLifecycle h' (CxClose a)) \<longleftrightarrow> h' = h"
| "tells_close h _ \<longleftrightarrow> False"

definition cx_opened :: "lifecycle_hook \<Rightarrow> event list \<Rightarrow> nat" where
  "cx_opened h tr = length (filter (tells_open h) tr)"

definition cx_closed :: "lifecycle_hook \<Rightarrow> event list \<Rightarrow> nat" where
  "cx_closed h tr = length (filter (tells_close h) tr)"

lemma concerns_mono: "tells_open h ev \<Longrightarrow> concerns h ev" "tells_close h ev \<Longrightarrow> concerns h ev"
  by (auto elim: tells_open.elims tells_close.elims)

lemma cx_filter: "cx_opened h tr = cx_opened h (filter (concerns h) tr)" "cx_closed h tr = cx_closed h (filter (concerns h) tr)"
  by (auto simp: cx_opened_def cx_closed_def concerns_mono intro!: arg_cong [where f = length] filter_cong)

section \<open>Programs that leave a hook alone\<close>

text \<open>
  \<open>gauge h L N s\<close>: the events for hook \<open>h\<close> so far are \<open>L\<close>, no pool reports to \<open>h\<close>, and the number of
  pools is in \<open>N\<close>.
\<close>

definition gauge :: "lifecycle_hook \<Rightarrow> event list \<Rightarrow> nat set \<Rightarrow> 'z pools_scheme \<Rightarrow> bool" where
  "gauge h L N s \<longleftrightarrow> filter (concerns h) (w_trace s) = L \<and> (\<forall>pool \<in> set (p_pools s). cxHook pool \<noteq> h) \<and> length (p_pools s) \<in> N"

lemma gauge_cong:
  "gauge h L N s \<Longrightarrow> p_pools s' = p_pools s \<Longrightarrow> filter (concerns h) (w_trace s') = filter (concerns h) (w_trace s) \<Longrightarrow> gauge h L N s'"
  by (simp add: gauge_def)

lemma gauge_set_conns: "gauge h L N s \<Longrightarrow> gauge h L N (set_conns p q s)"
  by (cases "p < length (p_pools s)")
    (auto simp: gauge_def set_conns_def list_update_beyond dest!: set_update_subset_insert [THEN subsetD])

lemma gauge_basic [keeps_rules]:
  "\<not> concerns h ev \<Longrightarrow> keeps (gauge h L N) (emit ev)" "keeps (gauge h L N) stamp" "keeps (gauge h L N) (spawn t)"
  "keeps (gauge h L N) (modify_sock c f)" "keeps (gauge h L N) (new_sock l r)" "keeps (gauge h L N) (record_stats i ok)"
  by (auto intro!: keepsI elim!: gauge_cong simp: modify_sock_def record_stats_def)

lemma gauge_queue [keeps_rules]: "keeps (gauge h L N) (conns_Pop p)" "keeps (gauge h L N) (conns_Push e p c)"
proof -
  have push: "keeps (gauge h L N) (State (\<lambda>s. case MRUQueue_Push now c (conns (p_pools s ! p)) of (ok, q) \<Rightarrow> (ok, set_conns p q s)))" for now
    by (auto intro!: keepsI gauge_set_conns split: prod.splits)
  show "keeps (gauge h L N) (conns_Pop p)" by (auto intro!: keepsI gauge_set_conns simp: conns_Pop_def split: prod.splits)
  show "keeps (gauge h L N) (conns_Push e p c)"
    unfolding conns_Push_def time_now_def by (intro keeps_rules push)
qed

lemma gauge_clock [keeps_rules]: "keeps (gauge h L N) (time_now e)" "keeps (gauge h L N) (elapsed e)"
  unfolding time_now_def elapsed_def by (intro keeps_rules)+

lemma gauge_deadlines [keeps_rules]:
  "keeps (gauge h L N) (SetDeadline e c t)" "keeps (gauge h L N) (SetReadDeadline e c t)" "keeps (gauge h L N) (SetWriteDeadline e c t)"
  unfolding SetDeadline_def SetReadDeadline_def SetWriteDeadline_def sock_set_deadline_def by (intro keeps_rules)+

lemma gauge_io [keeps_rules]:
  "keeps (gauge h L N) (sock_read e c n)" "keeps (gauge h L N) (sock_write e c b)" "keeps (gauge h L N) (sock_readfrom e c n)"
  "keeps (gauge h L N) (sock_writeto e c b a)" "keeps (gauge h L N) (tls_handshake e c sn)" "keeps (gauge h L N) (sock_close e c)"
  unfolding sock_read_def sock_write_def sock_readfrom_def sock_writeto_def tls_handshake_def sock_close_def
  by (intro keeps_rules; simp)+

lemma gauge_TCPConn [keeps_rules]:
  "keeps (gauge h L N) (TCPConn_Read e c n)" "keeps (gauge h L N) (TCPConn_Write e c b)"
  "keeps (gauge h L N) (TCPConn_RemoteAddr c)" "keeps (gauge h L N) (TCPConn_Close e c)"
  unfolding TCPConn_Read_def TCPConn_Write_def TCPConn_RemoteAddr_def TCPConn_Close_def sock_remote_def
  by (intro keeps_rules)+

lemma gauge_conn [keeps_rules]:
  "keeps (gauge h L N) (conn_Read e client n)" "keeps (gauge h L N) (conn_Write e client b)" "keeps (gauge h L N) (conn_RemoteAddr client)"
  by (cases client; auto simp: UDPConn_Read_def UDPConn_Write_def intro!: keeps_rules)+

lemma keeps_prod2 [keeps_rules]:
  "(\<And>a b. keeps I (f a b y)) \<Longrightarrow> keeps I ((case x of (a, b) \<Rightarrow> f a b) y)"
  by (cases x) simp

lemma gauge_handler [keeps_rules]:
  "keeps (gauge h L N) (clientRead e g client)" "keeps (gauge h L N) (upstreamTransact e g client pc req)"
  "keeps (gauge h L N) (clientWrite e g client b)" "keeps (gauge h L N) (report e g client pc req b)"
  "keeps (gauge h L N) (ConsumeError tstr g transport er)" "keeps (gauge h L N) (consume tstr g transport r)"
  unfolding clientRead_def upstreamTransact_def clientWrite_def report_def ConsumeError_def consume_def Let_def
  by (intro keeps_rules; simp)+

section \<open>The pools report to their own hook\<close>

lemma gauge_hook:
  assumes "\<forall>n \<in> N. p < n" "\<And>hook. hook \<noteq> h \<Longrightarrow> keeps (gauge h L N) (f hook)"
  shows "keeps (gauge h L N) (State_Monad.bind (reads (\<lambda>s. cxHook (p_pools s ! p))) f)"
proof (rule keepsI)
  fix s a s' assume inv: "gauge h L N s" and "run_state (State_Monad.bind (reads (\<lambda>s. cxHook (p_pools s ! p))) f) s = (a, s')"
  then have "run_state (f (cxHook (p_pools s ! p))) s = (a, s')" by simp
  moreover have "cxHook (p_pools s ! p) \<noteq> h" using inv assms(1) by (simp add: gauge_def)
  ultimately show "gauge h L N s'" using keepsD [OF assms(2) inv] by blast
qed

lemma gauge_dial [keeps_rules]: "keeps (gauge h L N) (tls_dial e p)"
  unfolding tls_dial_def tlsDialer_def sock_dial_def by (intro keeps_rules)

lemma gauge_pool:
  assumes "\<forall>n \<in> N. p < n"
  shows "keeps (gauge h L N) (populate_step (tls_dial e) e p n)" "keeps (gauge h L N) (PersistentConnPool_Conn (tls_dial e) e p)"
    "keeps (gauge h L N) (closer e p c destroyed)"
proof -
  have dial: "keeps (gauge h L N) (pool_dial (tls_dial e) e p)"
    unfolding pool_dial_def by (rule gauge_hook [OF assms]) (intro keeps_rules; simp)
  show "keeps (gauge h L N) (PersistentConnPool_Conn (tls_dial e) e p)"
    unfolding PersistentConnPool_Conn_def by (rule gauge_hook [OF assms]) (intro keeps_rules dial; simp)
  show "keeps (gauge h L N) (populate_step (tls_dial e) e p n)"
    unfolding populate_step_def by (intro keeps_if keeps_return gauge_hook [OF assms]) (intro keeps_rules; simp)
  show "keeps (gauge h L N) (closer e p c destroyed)"
    unfolding closer_def pool_put_def by (intro keeps_if gauge_hook [OF assms]) (intro keeps_rules; simp)+
qed

lemma gauge_run_task: "task_ok n t \<Longrightarrow> keeps (gauge h L {n}) (run_task e t)"
  by (cases t) (simp_all add: keeps_rules gauge_pool PersistentConn_Close_def PersistentConn_Destroy_def)

text \<open>TLS clients keep their contract and leave the hook alone.\<close>

lemma TLSClient_Conn_gauge:
  assumes "gauge h L N s" "clients_ok s" "i < length (sys_clients s)" "run_state (TLSClient_Conn e i) s = (r, s')"
  shows "gauge h L N s'"
proof -
  let ?N = "{length (p_pools s)}" and ?p = "c_pool (sys_clients s ! i)"
  obtain r1 s1 where run: "run_state (PersistentConnPool_Conn (tls_dial e) e ?p) s = (r1, s1)" by (rule prod.exhaust)
  have "gauge h L ?N s" "?p < length (p_pools s)" using assms(1-3) by (simp_all add: gauge_def clients_ok_def)
  then have "gauge h L ?N s1" using keepsD [OF gauge_pool(2) _ run, of ?N] by simp
  moreover have "p_pools s' = p_pools s1 \<and> w_trace s' = w_trace s1"
    using assms(4) run by (cases r1) (auto simp: TLSClient_Conn_def)
  ultimately show ?thesis using assms(1) by (simp add: gauge_def)
qed

interpretation hooked_client: client_contract "TLSClient_Conn e" TLSClient_Stats "\<lambda>c s. c_stats (sys_clients s ! c)" "{..<n}"
    "\<lambda>x s. clients_inv n x s \<and> gauge h L N s" "\<lambda>x r s. clients_post n x r s \<and> gauge h L N s" for e n h L N
proof
  show "run_state (TLSClient_Stats c) s = (c_stats (sys_clients s ! c), s)" for c and s :: "'a sys_scheme"
    by (rule tls_client.stats_view)
  show "(clients_post n x (Fail er) s \<and> gauge h L N s) = (clients_inv n x s \<and> gauge h L N s)" for x er and s :: "'a sys_scheme"
    by (simp add: tls_client.post_Fail)
  show "clients_post n x r s \<and> gauge h L N s \<Longrightarrow> returns r" for x r and s :: "'a sys_scheme"
    using tls_client.post_returns by blast
  show "clock_free (\<lambda>s :: 'a sys_scheme. clients_inv n x s \<and> gauge h L N s)" for x
    using tls_client.I_clock [of n x] by (auto simp: clock_free_def elim: gauge_cong)
  show "c \<in> {..<n} \<Longrightarrow> yields (\<lambda>s. clients_inv n x s \<and> gauge h L N s) (TLSClient_Conn e c :: ('a sys_scheme, _) state)
      (\<lambda>r s. clients_post n x r s \<and> gauge h L N s)" for c x
    using yieldsD [OF tls_client.conn_ok] TLSClient_Conn_gauge
    by (intro yieldsI) (fastforce simp: clients_inv_def split: prod.splits)
qed

lemma upstream_Conn_gauge:
  assumes "env_ok e" "dot_inv n K b X s" "gauge h L N s" "run_state (upstream_Conn e fuel) s = (r, s')" "r \<noteq> Hang"
  shows "gauge h L N s'"
proof -
  obtain sc' s1 where "run_state (ShardedClient_Conn e (TLSClient_Conn e) TLSClient_Stats fuel (d_shard s)) s = ((r, sc'), s1)"
      "s' = s1\<lparr>d_shard := sc'\<rparr>"
    using assms(4) by (auto simp: upstream_Conn_def split: prod.splits)
  with hooked_client.ShardedClient_post [OF _ assms(1) _ this(1), of n "(K, b, X)" h L N] assms(2,3,5) show ?thesis
    by (auto simp: dot_inv_def elim: gauge_cong)
qed

lemma phase_step_gauge:
  assumes "env_ok e" "dot_inv n K b X s" "gauge h L N s"
    and "run_state (phase_step (upstream_Conn e fuel) e g transport ph) s = (ph', s')" "ph' \<noteq> Finished Hang"
  shows "gauge h L N s'"
proof (cases "\<exists>client req retries. ph = Acquiring client req retries")
  case True
  then obtain client req retries where ph: "ph = Acquiring client req retries" by blast
  obtain r s1 where conn: "run_state (upstream_Conn e fuel) s = (r, s1)" by (rule prod.exhaust)
  with assms(4,5) ph have "r \<noteq> Hang" by auto
  from upstream_Conn_gauge [OF assms(1-3) conn this] assms(4) ph conn show ?thesis
    by (cases r) (auto elim: gauge_cong)
next
  case False
  have "keeps (gauge h L N) (phase_step (upstream_Conn e fuel) e g transport ph)"
    using False by (cases ph) (auto intro!: keeps_rules)
  from keepsD [OF this assms(3,4)] show ?thesis .
qed

section \<open>Opened less closed is being served\<close>

definition tcp_jobs :: "job list \<Rightarrow> job list" where
  "tcp_jobs js = filter (\<lambda>j. j_origin j \<noteq> FromUDP) js"

lemma tcp_jobs_Cons: "length (tcp_jobs (j # js)) = (if j_origin j = FromUDP then 0 else 1) + length (tcp_jobs js)"
  by (simp add: tcp_jobs_def)

lemma tcp_jobs_update:
  "k < length js \<Longrightarrow> length (tcp_jobs (js[k := (js ! k)\<lparr>j_phase := ph\<rparr>])) = length (tcp_jobs js)"
  by (induction js arbitrary: k) (auto simp: tcp_jobs_Cons split: nat.split)

lemma tcp_jobs_remove:
  "k < length js \<Longrightarrow> length (tcp_jobs js) = (if j_origin (js ! k) = FromUDP then 0 else 1) + length (tcp_jobs (remove_nth k js))"
  using id_take_nth_drop [of k js] by (metis (no_types, lifting) add.left_commute length_append remove_nth_def tcp_jobs_Cons tcp_jobs_def filter_append)

definition balanced :: "lifecycle_hook \<Rightarrow> live_state \<Rightarrow> bool" where
  "balanced h c \<longleftrightarrow> (case c of
     Live s js \<Rightarrow> (\<forall>pool \<in> set (p_pools s). cxHook pool \<noteq> h) \<and>
       cx_opened h (w_trace s) = cx_closed h (w_trace s) + length (tcp_jobs js)
   | Crashed q \<Rightarrow> True)"

lemma gauge_now: "balanced h (Live s js) \<Longrightarrow> gauge h (filter (concerns h) (w_trace s)) {length (p_pools s)} s"
  by (simp add: balanced_def gauge_def)

lemma balanced_gauge:
  assumes "balanced h (Live s js)" "gauge h (filter (concerns h) (w_trace s)) N s'" "length (tcp_jobs js') = length (tcp_jobs js)"
  shows "balanced h (Live s' js')"
proof -
  have "filter (concerns h) (w_trace s') = filter (concerns h) (w_trace s)" using assms(2) by (simp add: gauge_def)
  then have "cx_opened h (w_trace s') = cx_opened h (w_trace s)" "cx_closed h (w_trace s') = cx_closed h (w_trace s)"
    by (metis cx_filter)+
  with assms show ?thesis by (simp add: balanced_def gauge_def)
qed

lemma gauge_emit: "gauge h L N s \<Longrightarrow> gauge h (L @ [EvLifecycle h ev]) N (s\<lparr>w_trace := w_trace s @ [EvLifecycle h ev]\<rparr>)"
  by (simp add: gauge_def)

lemma tcp_finish_gauge:
  assumes "run_state (tcp_finish e tstr g srv c r) s = (r', s')" "r' \<noteq> Hang" "gauge (ts_cxHook srv) L N s"
  shows "\<exists>a. gauge (ts_cxHook srv) (L @ [EvLifecycle (ts_cxHook srv) (CxClose a)]) N s'"
proof -
  obtain r1 s1 where m: "run_state (consume tstr g TCP r) s = (r1, s1)" by (rule prod.exhaust)
  have s1: "gauge (ts_cxHook srv) L N s1" by (rule keepsD [OF gauge_handler(6) assms(3) m])
  show ?thesis
    by (rule tcp_finish_cases [OF assms(1) m]) (use assms(2) keepsD [OF gauge_io(6) gauge_emit [OF s1]] in blast)+
qed

lemma tcp_accept_gauge:
  assumes "run_state (tcp_accept e tstr g srv lis) s = (r, s')" "gauge (ts_cxHook srv) L N s"
  shows "\<exists>ev. gauge (ts_cxHook srv) (L @ [EvLifecycle (ts_cxHook srv) ev]) N s' \<and> (if r = None then ev = CxError else \<exists>a. ev = CxOpen 0 a)"
  using assms
  by (auto simp: tcp_accept_def ConsumeError_def TCPConn_RemoteAddr_def Let_def gauge_def split: sum.splits prod.splits)

lemma balanced_event:
  assumes "balanced h (Live s js)" "gauge h (filter (concerns h) (w_trace s) @ [EvLifecycle h ev]) N s'"
    and "length (tcp_jobs js') + (if tells_close h (EvLifecycle h ev) then 1 else 0) =
      length (tcp_jobs js) + (if tells_open h (EvLifecycle h ev) then 1 else 0)"
  shows "balanced h (Live s' js')"
proof -
  have f: "filter (concerns h) (w_trace s') = filter (concerns h) (w_trace s) @ [EvLifecycle h ev]" using assms(2) by (simp add: gauge_def)
  have "cx_opened h (w_trace s') = cx_opened h (w_trace s) + (if tells_open h (EvLifecycle h ev) then 1 else 0)"
    "cx_closed h (w_trace s') = cx_closed h (w_trace s) + (if tells_close h (EvLifecycle h ev) then 1 else 0)"
    unfolding cx_filter [of h "w_trace s'"] cx_filter [of h "w_trace s"] f by (simp_all add: cx_opened_def cx_closed_def)
  with assms show ?thesis by (simp add: balanced_def gauge_def)
qed

lemma work_step_balanced:
  assumes "env_ok e" "\<forall>srv lis. dp_tcp d = Some (srv, lis) \<longrightarrow> ts_cxHook srv = h"
    and "work_step e tstr d c c'" "live_inv n K B Ls c" "balanced h c"
  shows "balanced h c'"
  using assms(3-5)
proof (induction rule: work_step.induct)
  case (advance k js fuel s ph s')
  obtain X b where "dot_inv n K b X s" using advance(5) by (auto simp: live_inv_def)
  from phase_step_gauge [OF assms(1) this gauge_now [OF advance(6)] advance(3,4)] show ?case
    by (rule balanced_gauge [OF advance(6)]) (rule tcp_jobs_update [OF advance(1)])
next
  case (udp_end k js r s s')
  from keepsD [OF gauge_handler(6) gauge_now [OF udp_end(6)] udp_end(4)] show ?case
    by (rule balanced_gauge [OF udp_end(6)]) (use tcp_jobs_remove [OF udp_end(1)] udp_end(2) in simp)
next
  case (tcp_end srv lis k js c r s s')
  have h: "ts_cxHook srv = h" by (rule assms(2) [rule_format, OF tcp_end(1)])
  obtain a where "gauge h (filter (concerns h) (w_trace s) @ [EvLifecycle h (CxClose a)]) {length (p_pools s)} s'"
    using tcp_finish_gauge [OF tcp_end(5), of _ "{length (p_pools s)}"] gauge_now [OF tcp_end(7)] by (auto simp: h)
  then show ?case by (rule balanced_event [OF tcp_end(7)]) (use tcp_jobs_remove [OF tcp_end(2)] tcp_end(3) in simp)
next
  case (goroutine k s r s' js)
  then obtain X b where "dot_inv n K b X s" by (auto simp: live_inv_def)
  then have "task_ok (length (p_pools s)) (p_tasks s ! k)"
    using goroutine(1) by (simp add: dot_inv_def clients_inv_def good_def pools_ok_def)
  moreover have "gauge h (filter (concerns h) (w_trace s)) {length (p_pools s)} (take_task k s)"
    by (rule gauge_cong [OF gauge_now [OF goroutine(4)]]) (simp_all add: take_task_def)
  ultimately have "gauge h (filter (concerns h) (w_trace s)) {length (p_pools s)} s'"
    using keepsD [OF gauge_run_task _ goroutine(2)] by blast
  then show ?case by (rule balanced_gauge [OF goroutine(4)]) simp
qed (simp add: balanced_def)

lemma live_step_balanced:
  assumes "env_ok e" "\<forall>srv lis. dp_tcp d = Some (srv, lis) \<longrightarrow> ts_cxHook srv = h"
    and "live_step e tstr d c c'" "live_inv n K B Ls c" "balanced h c"
  shows "balanced h c'"
  using assms(3-5)
proof (induction rule: live_step.induct)
  case (udp_begin srv sock js client s)
  then show ?case by (simp add: balanced_def tcp_jobs_Cons)
next
  case (accept srv lis s c s' js)
  have h: "ts_cxHook srv = h" by (rule assms(2) [rule_format, OF accept(1)])
  obtain a where "gauge h (filter (concerns h) (w_trace s) @ [EvLifecycle h (CxOpen 0 a)]) {length (p_pools s)} s'"
    using tcp_accept_gauge [OF accept(2), of _ "{length (p_pools s)}"] gauge_now [OF accept(4)] by (auto simp: h)
  then show ?case by (rule balanced_event [OF accept(4)]) (simp add: tcp_jobs_Cons)
next
  case (accept_error srv lis s s' js)
  have h: "ts_cxHook srv = h" by (rule assms(2) [rule_format, OF accept_error(1)])
  have "gauge h (filter (concerns h) (w_trace s) @ [EvLifecycle h CxError]) {length (p_pools s)} s'"
    using tcp_accept_gauge [OF accept_error(2), of _ "{length (p_pools s)}"] gauge_now [OF accept_error(4)] by (auto simp: h)
  then show ?case by (rule balanced_event [OF accept_error(4)]) simp
next
  case (disturb s sc js)
  then show ?case by (simp add: balanced_def)
next
  case (work c c')
  then show ?case using work_step_balanced [OF assms(1,2)] by blast
qed

lemma live_reach_balanced:
  assumes "env_ok e" "\<forall>srv lis. dp_tcp d = Some (srv, lis) \<longrightarrow> ts_cxHook srv = h" "dot_inv n K b Ls s0" "gauge h [] N s0"
    and "live_reach e tstr d s0 c"
  shows "balanced h c"
  using assms(5)
proof (induction rule: live_reach.induct)
  case start
  have "filter (concerns h) (w_trace s0) = []" using assms(4) by (simp add: gauge_def)
  then show ?case
    using assms(4) by (simp add: balanced_def gauge_def cx_filter [of h "w_trace s0"]) (simp add: cx_opened_def cx_closed_def tcp_jobs_def)
next
  case (step c c')
  with live_reach_inv [OF assms(1,3) step(1)] show ?case using live_step_balanced [OF assms(1,2)] by blast
qed

end
