(* ===== verification/Config.thy ===== *)
theory Config
  imports Sharding
begin

text \<open>
  \<^verbatim>\<open>src/internal/meta/config.go\<close>: the configuration and its validation. A pointer is an
  option. Reading the file and decoding YAML are code outside the sources: they are the
  arguments \<open>readFile\<close> and \<open>unmarshal\<close> of \<open>ParseConfig\<close>. Decoding goes into a nil pointer,
  so an empty document leaves the pointer nil.
\<close>

section \<open>The configuration\<close>

record ApplicationConfig =
  SentryDSN :: string

record StatsdConfig =
  sd_Address :: string
  sd_SampleRate :: float64

record MetricsConfig =
  mc_Statsd :: "StatsdConfig option"

record TCPListenerConfig =
  tl_Address :: string
  tl_ReadTimeout :: duration
  tl_WriteTimeout :: duration

record UDPListenerConfig =
  ul_Address :: string
  ul_MaxConcurrentConnections :: int
  ul_ReadTimeout :: duration
  ul_WriteTimeout :: duration

record ListenerConfig =
  lc_TCP :: "TCPListenerConfig option"
  lc_UDP :: "UDPListenerConfig option"

record UpstreamServer =
  up_Address :: string
  up_ServerName :: string
  up_ConnectionPoolSize :: int
  up_ConnectTimeout :: duration
  up_HandshakeTimeout :: duration
  up_ReadTimeout :: duration
  up_WriteTimeout :: duration
  up_StaleTimeout :: duration

record UpstreamConfig =
  uc_LoadBalancingPolicy :: string
  uc_MaxConnectionRetries :: int
  uc_Servers :: "UpstreamServer list"

record Config =
  cfg_Application :: "ApplicationConfig option"
  cfg_Metrics :: "MetricsConfig option"
  cfg_Listener :: "ListenerConfig option"
  cfg_Upstream :: "UpstreamConfig option"

section \<open>Validation\<close>

fun decimal :: "nat \<Rightarrow> string" where
  "decimal n = (if n < 10 then [char_of (48 + n)] else decimal (n div 10) @ [char_of (48 + n mod 10)])"

declare decimal.simps [simp del]

definition cfg_error :: "string \<Rightarrow> go_err" where
  "cfg_error msg = Errorf (''config: '' @ msg) None"

fun validate_servers :: "nat \<Rightarrow> UpstreamServer list \<Rightarrow> unit gores" where
  "validate_servers idx [] = Ret ()"
| "validate_servers idx (server # rest) =
     (if up_Address server = [] then Fail (cfg_error (''missing server address: idx='' @ decimal idx))
      else if up_ServerName server = [] then Fail (cfg_error (''missing server TLS hostname: idx='' @ decimal idx))
      else validate_servers (Suc idx) rest)"

definition validate_metrics :: "MetricsConfig option \<Rightarrow> go_err option" where
  "validate_metrics m = (case m of
     None \<Rightarrow> None
   | Some mc \<Rightarrow> (case mc_Statsd mc of
       None \<Rightarrow> None
     | Some sd \<Rightarrow>
         if sd_Address sd = [] then Some (cfg_error ''missing metrics statsd address'')
         else if flt (sd_SampleRate sd) (Fin 0) \<or> flt (Fin 1) (sd_SampleRate sd)
           then Some (cfg_error ''statsd sample rate must be in range [0.0, 1.0]'')
         else None))"

definition validate_listener :: "ListenerConfig option \<Rightarrow> go_err option" where
  "validate_listener l = (case l of
     None \<Rightarrow> Some (cfg_error ''missing top-level listener config key'')
   | Some lc \<Rightarrow>
       if lc_TCP lc = None \<and> lc_UDP lc = None
         then Some (cfg_error ''at least one TCP or UDP listener must be specified'')
       else if (case lc_TCP lc of None \<Rightarrow> False | Some t \<Rightarrow> tl_Address t = [])
         then Some (cfg_error ''missing TCP server listening address'')
       else if (case lc_UDP lc of None \<Rightarrow> False | Some u \<Rightarrow> ul_Address u = [])
         then Some (cfg_error ''missing UDP server listening address'')
       else None)"

definition validate_upstream :: "(LoadBalancingPolicy \<Rightarrow> string) \<Rightarrow> UpstreamConfig option \<Rightarrow> unit gores" where
  "validate_upstream str u = (case u of
     None \<Rightarrow> Fail (cfg_error ''missing top-level upstream config key'')
   | Some uc \<Rightarrow>
       if uc_LoadBalancingPolicy uc \<noteq> [] \<and> \<not> snd (ParseLoadBalancingPolicy str (uc_LoadBalancingPolicy uc))
         then Fail (cfg_error (''unknown load balancing policy: policy='' @ uc_LoadBalancingPolicy uc))
       else if uc_Servers uc = [] then Fail (cfg_error ''no upstream servers specified'')
       else validate_servers 0 (uc_Servers uc))"

definition validate :: "(LoadBalancingPolicy \<Rightarrow> string) \<Rightarrow> Config option \<Rightarrow> unit gores" where
  "validate str c = (case c of
     None \<Rightarrow> Panic NilDereference
   | Some c \<Rightarrow>
       (case validate_metrics (cfg_Metrics c) of
          Some er \<Rightarrow> Fail er
        | None \<Rightarrow>
            (case validate_listener (cfg_Listener c) of
               Some er \<Rightarrow> Fail er
             | None \<Rightarrow> validate_upstream str (cfg_Upstream c))))"

definition ParseConfig ::
    "(string \<Rightarrow> go_err + string) \<Rightarrow> (string \<Rightarrow> go_err + Config option) \<Rightarrow> (LoadBalancingPolicy \<Rightarrow> string) \<Rightarrow>
     string \<Rightarrow> Config option gores" where
  "ParseConfig readFile unmarshal str path = (case readFile path of
     Inl er \<Rightarrow> Fail (Errorf ''config: error reading config: err=%v'' (Some er))
   | Inr data \<Rightarrow> (case unmarshal data of
       Inl er \<Rightarrow> Fail (Errorf ''config: error parsing config: err=%v'' (Some er))
     | Inr cfg \<Rightarrow> (case validate str cfg of
         Ret _ \<Rightarrow> Ret cfg
       | Fail er \<Rightarrow> Fail er
       | Panic q \<Rightarrow> Panic q
       | Hang \<Rightarrow> Hang)))"

section \<open>What a valid configuration is\<close>

definition server_ok :: "UpstreamServer \<Rightarrow> bool" where
  "server_ok s \<longleftrightarrow> up_Address s \<noteq> [] \<and> up_ServerName s \<noteq> []"

definition listener_ok :: "ListenerConfig \<Rightarrow> bool" where
  "listener_ok l \<longleftrightarrow> (lc_TCP l \<noteq> None \<or> lc_UDP l \<noteq> None) \<and>
     (\<forall>t. lc_TCP l = Some t \<longrightarrow> tl_Address t \<noteq> []) \<and> (\<forall>u. lc_UDP l = Some u \<longrightarrow> ul_Address u \<noteq> [])"

text \<open>
  The rates that pass are those between 0 and 1, and the value NaN, of which no
  comparison holds.
\<close>

definition rate_ok :: "float64 \<Rightarrow> bool" where
  "rate_ok x \<longleftrightarrow> x = NaN \<or> (\<exists>q. x = Fin q \<and> 0 \<le> q \<and> q \<le> 1)"

definition metrics_ok :: "MetricsConfig \<Rightarrow> bool" where
  "metrics_ok m \<longleftrightarrow> (\<forall>sd. mc_Statsd m = Some sd \<longrightarrow> sd_Address sd \<noteq> [] \<and> rate_ok (sd_SampleRate sd))"

definition upstream_ok :: "UpstreamConfig \<Rightarrow> bool" where
  "upstream_ok u \<longleftrightarrow> uc_Servers u \<noteq> [] \<and> (\<forall>s \<in> set (uc_Servers u). server_ok s) \<and>
     ToLower (uc_LoadBalancingPolicy u) \<in>
       {[], ''roundrobin'', ''random'', ''historicalconnections'', ''availability'', ''failover''}"

definition config_ok :: "Config \<Rightarrow> bool" where
  "config_ok c \<longleftrightarrow> (\<forall>m. cfg_Metrics c = Some m \<longrightarrow> metrics_ok m) \<and>
     (\<exists>l. cfg_Listener c = Some l \<and> listener_ok l) \<and> (\<exists>u. cfg_Upstream c = Some u \<and> upstream_ok u)"

lemma ToLower_Nil_iff [simp]: "ToLower s = [] \<longleftrightarrow> s = []"
  by (cases s) (auto simp: ToLower.simps(2))

lemma rate_ok_iff: "\<not> flt x (Fin 0) \<and> \<not> flt (Fin 1) x \<longleftrightarrow> rate_ok x"
  by (cases x) (auto simp: rate_ok_def not_less)

lemma validate_metrics_ok: "validate_metrics m = None \<longleftrightarrow> (\<forall>mc. m = Some mc \<longrightarrow> metrics_ok mc)"
  by (auto simp: validate_metrics_def metrics_ok_def rate_ok_iff [symmetric] split: option.splits)

lemma validate_listener_ok: "validate_listener l = None \<longleftrightarrow> (\<exists>lc. l = Some lc \<and> listener_ok lc)"
  by (auto simp: validate_listener_def listener_ok_def split: option.splits)

lemma validate_servers_ok: "validate_servers i ss = Ret () \<longleftrightarrow> (\<forall>s \<in> set ss. server_ok s)"
  by (induction ss arbitrary: i) (auto simp: server_ok_def)

lemma validate_servers_returns: "returns (validate_servers i ss)"
  by (induction ss arbitrary: i) auto

lemma ParsePolicy_known:
  assumes "policy_stringer str"
  shows "snd (ParseLoadBalancingPolicy str s) \<longleftrightarrow>
    ToLower s \<in> {''roundrobin'', ''random'', ''historicalconnections'', ''availability'', ''failover''}"
  using assms by (auto simp: ParseLoadBalancingPolicy_def policy_stringer_def ToLower_policy_names)

lemma validate_upstream_ok:
  "policy_stringer str \<Longrightarrow> validate_upstream str u = Ret () \<longleftrightarrow> (\<exists>uc. u = Some uc \<and> upstream_ok uc)"
  by (auto simp: validate_upstream_def upstream_ok_def ParsePolicy_known validate_servers_ok split: option.splits)

lemma validate_ok: "policy_stringer str \<Longrightarrow> validate str (Some c) = Ret () \<longleftrightarrow> config_ok c"
  using validate_metrics_ok [of "cfg_Metrics c"] validate_listener_ok [of "cfg_Listener c"]
    validate_upstream_ok [of str "cfg_Upstream c"]
  by (auto simp: validate_def config_ok_def split: option.splits)

lemma validate_returns: "returns (validate str (Some c))"
  by (auto simp: validate_def validate_upstream_def validate_servers_returns split: option.splits)

lemma validate_cases: "(\<exists>er. validate str (Some c) = Fail er) \<or> validate str (Some c) = Ret ()"
  using validate_returns [of str c] by (cases "validate str (Some c)") auto

lemma validate_None [simp]: "validate str None = Panic NilDereference"
  by (simp add: validate_def)

lemma ParseConfig_cases:
  assumes "policy_stringer str"
  obtains (rejected) er where "ParseConfig readFile unmarshal str path = Fail er"
      "\<nexists>data. readFile path = Inr data \<and> unmarshal data = Inr None"
      "\<nexists>data c. readFile path = Inr data \<and> unmarshal data = Inr (Some c) \<and> config_ok c"
  | (empty) data where "readFile path = Inr data" "unmarshal data = Inr None"
      "ParseConfig readFile unmarshal str path = Panic NilDereference"
  | (valid) data c where "readFile path = Inr data" "unmarshal data = Inr (Some c)" "config_ok c"
      "ParseConfig readFile unmarshal str path = Ret (Some c)"
proof (cases "readFile path")
  case (Inl er)
  then show thesis by (intro rejected) (simp_all add: ParseConfig_def)
next
  case read: (Inr data)
  show thesis
  proof (cases "unmarshal data")
    case (Inl er)
    with read show thesis by (intro rejected) (simp_all add: ParseConfig_def)
  next
    case dec: (Inr x)
    show thesis
    proof (cases x)
      case None
      with read dec show thesis by (intro empty) (simp_all add: ParseConfig_def)
    next
      case (Some c)
      with read dec validate_ok [OF assms, of c] validate_cases [of str c] show thesis
        by (cases "config_ok c") (fastforce simp: ParseConfig_def intro: valid rejected)+
    qed
  qed
qed

section \<open>Properties\<close>

text \<open>
  C19. Validation is exact: a configuration file is accepted precisely when it decodes to a
  configuration that has a listener with an address, at least one upstream server, an
  address and a TLS name for each, a known policy or none, and an address and a sample
  rate that is not out of range for statsd if metrics are on. A rejected file gives an
  error and never a panic, unless it decodes to no configuration at all.
\<close>

theorem ParseConfig_exact:
  assumes "policy_stringer str"
  shows "(ParseConfig readFile unmarshal str path = Ret cfg \<longleftrightarrow>
      (\<exists>data c. readFile path = Inr data \<and> unmarshal data = Inr (Some c) \<and> cfg = Some c \<and> config_ok c)) \<and>
    (ParseConfig readFile unmarshal str path = Panic q \<longleftrightarrow>
      (\<exists>data. readFile path = Inr data \<and> unmarshal data = Inr None) \<and> q = NilDereference) \<and>
    ParseConfig readFile unmarshal str path \<noteq> Hang"
  by (cases rule: ParseConfig_cases [OF assms, of readFile unmarshal path]) auto

definition demo_server :: UpstreamServer where
  "demo_server = \<lparr>up_Address = ''1.1.1.1:853'', up_ServerName = ''cloudflare-dns.com'', up_ConnectionPoolSize = 1,
     up_ConnectTimeout = 0, up_HandshakeTimeout = 0, up_ReadTimeout = second, up_WriteTimeout = second, up_StaleTimeout = 0\<rparr>"

definition demo_config :: "float64 \<Rightarrow> Config" where
  "demo_config rate = \<lparr>cfg_Application = None,
     cfg_Metrics = Some \<lparr>mc_Statsd = Some \<lparr>sd_Address = ''localhost:8125'', sd_SampleRate = rate\<rparr>\<rparr>,
     cfg_Listener = Some \<lparr>lc_TCP = Some \<lparr>tl_Address = '':53'', tl_ReadTimeout = second, tl_WriteTimeout = second\<rparr>,
       lc_UDP = Some \<lparr>ul_Address = '':53'', ul_MaxConcurrentConnections = 0, ul_ReadTimeout = second, ul_WriteTimeout = second\<rparr>\<rparr>,
     cfg_Upstream = Some \<lparr>uc_LoadBalancingPolicy = [], uc_MaxConnectionRetries = 0, uc_Servers = [demo_server]\<rparr>\<rparr>"

lemma demo_config_ok: "config_ok (demo_config rate) \<longleftrightarrow> rate_ok rate"
  by (simp add: demo_config_def config_ok_def metrics_ok_def listener_ok_def upstream_ok_def server_ok_def demo_server_def)

lemma policy_names_stringer: "policy_stringer policy_names"
  by (simp add: policy_stringer_def policy_names_def policy_defs)

theorem ParseConfig_exact_witness:
  "policy_stringer policy_names \<and>
   ParseConfig Inr (\<lambda>d. Inr (if d = [] then None else Some (demo_config (Fin 1)))) policy_names ''file'' =
     Ret (Some (demo_config (Fin 1))) \<and>
   ParseConfig Inr (\<lambda>d. Inr (if d = [] then None else Some (demo_config (Fin 1)))) policy_names [] = Panic NilDereference"
proof -
  let ?u = "\<lambda>d. Inr (if d = [] then None else Some (demo_config (Fin 1)))"
  note exact = ParseConfig_exact [OF policy_names_stringer, of Inr ?u]
  have "config_ok (demo_config (Fin 1))" by (simp add: demo_config_ok rate_ok_def)
  with exact [of "''file''" "Some (demo_config (Fin 1))"] exact [of "[]" _ NilDereference] policy_names_stringer
  show ?thesis by simp
qed

text \<open>
  A sample rate that is not a number passes the range check, although the error message
  of the check demands a number between 0 and 1: both comparisons with NaN are false.
\<close>

lemma nan_sample_rate_accepted: "validate policy_names (Some (demo_config NaN)) = Ret ()"
  by (simp add: validate_ok [OF policy_names_stringer] demo_config_ok rate_ok_def)

end
