(* ===== verification/Console.thy ===== *)
theory Console
  imports World "HOL-Library.Sublist"
begin

text \<open>
  What a program prints. The calls of the logger that a program makes are the events \<open>EvLog\<close> of
  its trace; \<open>console\<close> is what a logger of the interface of \<^verbatim>\<open>src/internal/log/logger.go\<close> prints
  for them, a list of lines. The locale \<open>leveled_logger\<close> is the contract of the interface: a
  logger of level \<open>l\<close> prints the line of a message of level \<open>l\<close> or above, and nothing for
  others. The console logger keeps it.
\<close>

text \<open>\<open>clock i\<close> is the formatted time at the \<open>i\<close>-th event.\<close>

fun printed :: "Logger \<Rightarrow> string \<Rightarrow> event \<Rightarrow> string list" where
  "printed lg now (EvLog level msg) = (case Logger_call lg level now msg of [] \<Rightarrow> [] | line \<Rightarrow> [line])"
| "printed lg now _ = []"

definition console :: "Logger \<Rightarrow> (nat \<Rightarrow> string) \<Rightarrow> event list \<Rightarrow> string list" where
  "console lg clock tr = concat (map (\<lambda>(i, ev). printed lg (clock i) ev) (enumerate 0 tr))"

fun wanted :: "Level \<Rightarrow> (Level \<Rightarrow> string \<Rightarrow> string \<Rightarrow> string) \<Rightarrow> string \<Rightarrow> event \<Rightarrow> string list" where
  "wanted l line now (EvLog level msg) = (if l \<le> level then [line level now msg] else [])"
| "wanted l line now _ = []"

lemma subseq_concat_map: "(\<And>x. x \<in> set xs \<Longrightarrow> subseq (f x) (g x)) \<Longrightarrow> subseq (concat (map f xs)) (concat (map g xs))"
  by (induction xs) (auto intro: list_emb_append_mono)

locale leveled_logger =
  fixes logger :: "Level \<Rightarrow> Logger"
    and line :: "Level \<Rightarrow> string \<Rightarrow> string \<Rightarrow> string"
  assumes level: "lg_Level (logger l) = l"
    and prints: "Logger_call (logger l) level now msg = (if l \<le> level then line level now msg else [])"
    and visible: "line level now msg \<noteq> []"
begin

lemma printed_wanted: "printed (logger l) now ev = wanted l line now ev"
  by (cases ev) (simp_all add: prints visible split: list.split)

lemma console_wanted: "console (logger l) clock tr = concat (map (\<lambda>(i, ev). wanted l line (clock i) ev) (enumerate 0 tr))"
  by (simp add: console_def printed_wanted)

lemma wanted_mono: "l \<le> l' \<Longrightarrow> subseq (wanted l' line now ev) (wanted l line now ev)"
  by (cases ev) auto

lemma console_mono: "l \<le> l' \<Longrightarrow> subseq (console (logger l') clock tr) (console (logger l) clock tr)"
  unfolding console_wanted by (rule subseq_concat_map) (auto intro: wanted_mono)

end

interpretation console_logger: leveled_logger "\<lambda>l. as_Logger str (NewConsoleLogger l)" "log_line str" for str
proof
  show "lg_Level (as_Logger str (NewConsoleLogger l)) = l" for l
    by (simp add: NewConsoleLogger_def as_Logger_def ConsoleLogger_Level_def)
  show "Logger_call (as_Logger str (NewConsoleLogger l)) level now msg = (if l \<le> level then log_line str level now msg else [])"
    for l level now msg by (simp add: Logger_call_console NewConsoleLogger_def)
qed (simp add: log_line_def)

end
