(* ===== verification/Dotproxy_Main.thy ===== *)
theory Dotproxy_Main
  imports Healthy Config Console
begin

text \<open>
  \<^verbatim>\<open>src/cmd/dotproxy/main.go\<close>: start-up. The parts outside the sources are arguments: the
  generated \<open>String\<close> methods (\<open>lstr\<close>, \<open>pstr\<close>), the file system and the YAML decoder
  (\<open>readFile\<close>, \<open>unmarshal\<close>), the statsd client (\<open>newClient\<close>), the version string.
  The two goroutines that start the listeners run here in the order of the source; a
  listener that cannot bind panics, as in the source.

  Proved here: a valid configuration starts up unless the environment refuses, and
  the program that results keeps the invariant of theory \<open>Live_System\<close> for ever.
\<close>

section \<open>Metrics hooks\<close>

record hooks =
  hk_clientCx :: lifecycle_hook
  hk_upstreamCx :: lifecycle_hook
  hk_clientIO :: io_hook
  hk_upstreamIO :: io_hook
  hk_proxy :: proxy_hook

fun or_panic :: "go_err + 'a \<Rightarrow> 'a gores" where
  "or_panic (Inl er) = Panic (PanicErr er)"
| "or_panic (Inr x) = Ret x"

fun gores_bind :: "'a gores \<Rightarrow> ('a \<Rightarrow> 'b gores) \<Rightarrow> 'b gores" where
  "gores_bind (Ret x) f = f x"
| "gores_bind (Fail er) f = Fail er"
| "gores_bind (Panic q) f = Panic q"
| "gores_bind Hang f = Hang"

definition no_hooks :: hooks where
  "no_hooks = \<lparr>hk_clientCx = NoopLifecycle, hk_upstreamCx = NoopLifecycle, hk_clientIO = NoopIO,
     hk_upstreamIO = NoopIO, hk_proxy = NoopProxy\<rparr>"

definition statsd_hooks ::
    "(statsd_config \<Rightarrow> go_err option) \<Rightarrow> string \<Rightarrow> StatsdConfig \<Rightarrow> hooks gores" where
  "statsd_hooks newClient version sd =
     (let a = sd_Address sd; rate = sd_SampleRate sd in
      gores_bind (or_panic (NewAsyncStatsdConnectionLifecycleHook newClient ''client'' a rate version)) (\<lambda>clientCx.
      gores_bind (or_panic (NewAsyncStatsdConnectionLifecycleHook newClient ''upstream'' a rate version)) (\<lambda>upstreamCx.
      gores_bind (or_panic (NewAsyncStatsdConnectionIOHook newClient ''client'' a rate version)) (\<lambda>clientIO.
      gores_bind (or_panic (NewAsyncStatsdConnectionIOHook newClient ''upstream'' a rate version)) (\<lambda>upstreamIO.
      gores_bind (or_panic (NewAsyncStatsdProxyHook newClient a rate version)) (\<lambda>proxy.
      Ret \<lparr>hk_clientCx = clientCx, hk_upstreamCx = upstreamCx, hk_clientIO = clientIO,
           hk_upstreamIO = upstreamIO, hk_proxy = proxy\<rparr>))))))"

definition configure_metrics ::
    "(statsd_config \<Rightarrow> go_err option) \<Rightarrow> string \<Rightarrow> MetricsConfig option \<Rightarrow> ('z world_scheme, hooks gores) state" where
  "configure_metrics newClient version m =
     (case Option.bind m mc_Statsd of
        Some sd \<Rightarrow> do {
          emit (EvLog Info ''main: configuring statsd metrics reporting: addr=%s sample_rate=%f'');
          pass (statsd_hooks newClient version sd) }
      | None \<Rightarrow> do {
          emit (EvLog Warn ''main: no metrics output engine specified; disabling metrics'');
          pass (Ret no_hooks) })"

section \<open>Upstream clients\<close>

definition client_opts :: "UpstreamServer \<Rightarrow> TLSClientOpts" where
  "client_opts server = \<lparr>PoolOpts = \<lparr>Capacity = up_ConnectionPoolSize server, StaleTimeout = up_StaleTimeout server\<rparr>,
     ConnectTimeout = up_ConnectTimeout server, HandshakeTimeout = up_HandshakeTimeout server,
     ReadTimeout = up_ReadTimeout server, WriteTimeout = up_WriteTimeout server\<rparr>"

fun start_clients :: "lifecycle_hook \<Rightarrow> UpstreamServer list \<Rightarrow> ('z sys_scheme, nat list gores) state" where
  "start_clients hook [] = pass (Ret [])"
| "start_clients hook (server # rest) = do {
     emit (EvLog Info ''main: starting TLS client for upstream server: addr=%s name=%s conns=%d'');
     r \<leftarrow> NewTLSClient (up_Address server) (up_ServerName server) hook (client_opts server);
     case r of
       Ret i \<Rightarrow> do { rs \<leftarrow> start_clients hook rest; pass (gores_bind rs (\<lambda>is. Ret (i # is))) }
     | Fail er \<Rightarrow> pass (Panic (PanicErr er))
     | Panic q \<Rightarrow> pass (Panic q)
     | Hang \<Rightarrow> pass Hang
   }"

section \<open>Listeners\<close>

definition udp_server :: "UDPListenerConfig \<Rightarrow> UDPServer" where
  "udp_server u = NewUDPServer (ul_Address u) \<lparr>MaxConcurrentConnections = ul_MaxConcurrentConnections u,
     udp_ReadTimeout = ul_ReadTimeout u, udp_WriteTimeout = ul_WriteTimeout u\<rparr>"

definition tcp_server :: "lifecycle_hook \<Rightarrow> TCPListenerConfig \<Rightarrow> TCPServer" where
  "tcp_server hook t = NewTCPServer (tl_Address t) hook
     \<lparr>tcp_ReadTimeout = tl_ReadTimeout t, tcp_WriteTimeout = tl_WriteTimeout t\<rparr>"

definition start_udp ::
    "env \<Rightarrow> UDPListenerConfig option \<Rightarrow> ('z world_scheme, (UDPServer \<times> cid) option gores) state" where
  "start_udp e l = (case l of
     None \<Rightarrow> pass (Ret None)
   | Some u \<Rightarrow> do {
       emit (EvLog Info ''main: configuring UDP server listener: addr=%s max_concurrent_conns=%d'');
       let srv = udp_server u;
       r \<leftarrow> UDPServer_ListenAndServe e srv;
       pass (case r of
         Ret (c, workers) \<Rightarrow> Ret (Some (srv, c)) | Fail er \<Rightarrow> Panic (PanicErr er) | Panic q \<Rightarrow> Panic q | Hang \<Rightarrow> Hang) })"

definition start_tcp ::
    "env \<Rightarrow> lifecycle_hook \<Rightarrow> TCPListenerConfig option \<Rightarrow> ('z world_scheme, (TCPServer \<times> cid) option gores) state" where
  "start_tcp e hook l = (case l of
     None \<Rightarrow> pass (Ret None)
   | Some t \<Rightarrow> do {
       emit (EvLog Info ''main: configuring TCP server listener: addr=%s'');
       let srv = tcp_server hook t;
       r \<leftarrow> TCPServer_Listen e srv;
       pass (case r of
         Ret c \<Rightarrow> Ret (Some (srv, c)) | Fail er \<Rightarrow> Panic (PanicErr er) | Panic q \<Rightarrow> Panic q | Hang \<Rightarrow> Hang) })"

section \<open>Start-up\<close>

text \<open>
  The error of \<open>NewShardedClient\<close> is dropped in the source, which would leave a nil client;
  a policy that comes from the parser never makes it fail.
\<close>

definition select_policy ::
    "(LoadBalancingPolicy \<Rightarrow> string) \<Rightarrow> string \<Rightarrow> nat list \<Rightarrow> ('z dotproxy_scheme, unit gores) state" where
  "select_policy pstr name servers = do {
     let (lbPolicy, ok) = ParseLoadBalancingPolicy pstr name;
     (if ok then pass ()
      else emit (EvLog Warn ''main: unknown load balancing policy; use default: supplied=%s default=%s''));
     emit (EvLog Debug ''main: using load balancing policy for request sharding: policy=%s'');
     case NewShardedClient pstr servers lbPolicy of
       Ret client \<Rightarrow> do { update_st (\<lambda>s. s\<lparr>d_shard := client\<rparr>); pass (Ret ()) }
     | _ \<Rightarrow> pass (Panic NilDereference)
   }"

definition serve ::
    "env \<Rightarrow> hooks \<Rightarrow> UpstreamConfig \<Rightarrow> ListenerConfig \<Rightarrow> ('z world_scheme, deployment gores) state" where
  "serve e hk u l = do {
     let h = \<lparr>ClientCxIOHook = hk_clientIO hk, UpstreamCxIOHook = hk_upstreamIO hk, ProxyHook = hk_proxy hk,
              MaxUpstreamRetries = uc_MaxConnectionRetries u\<rparr>;
     udp \<leftarrow> start_udp e (lc_UDP l);
     tcp \<leftarrow> start_tcp e (hk_clientCx hk) (lc_TCP l);
     emit (EvLog Info ''main: serving indefinitely'');
     pass (gores_bind udp (\<lambda>udp. gores_bind tcp (\<lambda>tcp. Ret \<lparr>dp_handler = h, dp_udp = udp, dp_tcp = tcp\<rparr>)))
   }"

definition boot ::
    "env \<Rightarrow> (LoadBalancingPolicy \<Rightarrow> string) \<Rightarrow> (statsd_config \<Rightarrow> go_err option) \<Rightarrow> string \<Rightarrow> Config \<Rightarrow>
     ('z dotproxy_scheme, deployment gores) state" where
  "boot e pstr newClient version config = do {
     (case cfg_Application config of
        Some app \<Rightarrow> if SentryDSN app \<noteq> [] then emit (EvSentryConf (SentryDSN app) version) else pass ()
      | None \<Rightarrow> pass ());
     hk \<leftarrow> configure_metrics newClient version (cfg_Metrics config);
     case hk of
       Fail er \<Rightarrow> pass (Fail er) | Panic q \<Rightarrow> pass (Panic q) | Hang \<Rightarrow> pass Hang
     | Ret hk \<Rightarrow>
         (case (cfg_Upstream config, cfg_Listener config) of
            (Some u, Some l) \<Rightarrow> do {
              servers \<leftarrow> start_clients (hk_upstreamCx hk) (uc_Servers u);
              case servers of
                Fail er \<Rightarrow> pass (Fail er) | Panic q \<Rightarrow> pass (Panic q) | Hang \<Rightarrow> pass Hang
              | Ret servers \<Rightarrow> do {
                  r \<leftarrow> select_policy pstr (uc_LoadBalancingPolicy u) servers;
                  case r of
                    Fail er \<Rightarrow> pass (Fail er) | Panic q \<Rightarrow> pass (Panic q) | Hang \<Rightarrow> pass Hang
                  | Ret _ \<Rightarrow> serve e hk u l } }
          | _ \<Rightarrow> pass (Panic NilDereference))
   }"

record flags =
  f_config :: string
  f_version :: bool
  f_verbosity :: string

datatype main_result = Version string | Serving ConsoleLogger deployment

definition main ::
    "env \<Rightarrow> (Level \<Rightarrow> string) \<Rightarrow> (LoadBalancingPolicy \<Rightarrow> string) \<Rightarrow> (string \<Rightarrow> go_err + string) \<Rightarrow>
     (string \<Rightarrow> go_err + Config option) \<Rightarrow> (statsd_config \<Rightarrow> go_err option) \<Rightarrow> string \<Rightarrow> flags \<Rightarrow>
     ('z dotproxy_scheme, main_result gores) state" where
  "main e lstr pstr readFile unmarshal newClient version f =
     (if f_version f then pass (Ret (Version (''dotproxy/'' @ version)))
      else do {
        let level = fst (ParseLevel lstr (f_verbosity f));
        emit (EvLog Debug ''main: initialized logger: level=%v'');
        emit (EvLog Debug ''main: reading and parsing config: path=%s'');
        case ParseConfig readFile unmarshal pstr (f_config f) of
          Fail er \<Rightarrow> pass (Panic (PanicErr er))
        | Panic q \<Rightarrow> pass (Panic q)
        | Hang \<Rightarrow> pass Hang
        | Ret None \<Rightarrow> pass (Panic NilDereference)
        | Ret (Some config) \<Rightarrow> do {
            r \<leftarrow> boot e pstr newClient version config;
            pass (gores_bind r (\<lambda>d. Ret (Serving (NewConsoleLogger level) d))) }
      })"

section \<open>Starting up keeps the invariant\<close>

definition listeners :: "deployment \<Rightarrow> cid multiset" where
  "listeners d = mset (map snd (case_option [] (\<lambda>x. [x]) (dp_udp d))) +
     mset (map snd (case_option [] (\<lambda>x. [x]) (dp_tcp d)))"

definition pool_sizes :: "UpstreamConfig \<Rightarrow> int list" where
  "pool_sizes u = map up_ConnectionPoolSize (uc_Servers u)"

definition prefills :: "int list \<Rightarrow> nat" where
  "prefills ks = (\<Sum>k \<leftarrow> ks. nat k)"

lemma clients_inv_hushed: "hushed m \<Longrightarrow> clients_inv n x s \<Longrightarrow> run_state m s = (r, s') \<Longrightarrow> clients_inv n x s'"
  by (rule clients_inv_quiet [OF _ hushedD])

lemma start_clients_inv:
  assumes "clients_inv n (K, b, X) s" "run_state (start_clients hook ss) s = (r, s')"
  shows "r = Ret [n..<n + length ss] \<and>
    clients_inv (n + length ss) (K @ map up_ConnectionPoolSize ss, b + prefills (map up_ConnectionPoolSize ss), X) s'"
  using assms
proof (induction ss arbitrary: n K b s r s')
  case (Cons server ss)
  let ?s = "s\<lparr>w_trace := w_trace s @ [EvLog Info ''main: starting TLS client for upstream server: addr=%s name=%s conns=%d'']\<rparr>"
  obtain r1 s1 where run1: "run_state (NewTLSClient (up_Address server) (up_ServerName server) hook (client_opts server)) ?s
      = (r1, s1)" by (rule prod.exhaust)
  have "clients_inv n (K, b, X) ?s"
    by (rule clients_inv_quiet [OF Cons.prems(1) quiet_trace]) simp
  then have r1: "r1 = Ret n" and inv1: "clients_inv (Suc n) (K @ [up_ConnectionPoolSize server],
      b + nat (up_ConnectionPoolSize server), X) s1"
    using NewTLSClient_good [OF _ _ run1, of K b X] by (auto simp: clients_inv_def client_opts_def)
  obtain r2 s2 where run2: "run_state (start_clients hook ss) s1 = (r2, s2)" by (rule prod.exhaust)
  have rest: "r = gores_bind r2 (\<lambda>is. Ret (n # is))" "s' = s2"
    using Cons.prems(2) run1 run2 r1 by (auto simp del: bind_assoc)
  from Cons.IH [OF inv1 run2] rest show ?case by (simp add: upt_conv_Cons prefills_def add.assoc del: upt_Suc)
qed (simp add: prefills_def)

lemma run_select_policy:
  assumes "NewShardedClient pstr servers (fst (ParseLoadBalancingPolicy pstr name)) = Ret sc"
  shows "\<exists>tr. run_state (select_policy pstr name servers) s =
    (Ret (), s\<lparr>w_trace := w_trace s @ tr, d_shard := sc\<rparr>) \<and> (\<forall>c. EvClose c \<notin> set tr)"
  using assms by (cases "ParseLoadBalancingPolicy pstr name") (auto simp: select_policy_def)

lemma select_policy_inv:
  fixes s s' :: dotproxy
  assumes "clients_inv n (K, b, X) s" "run_state (select_policy pstr name servers) s = (r, s')"
    and "servers \<noteq> []" "set servers \<subseteq> {..<n}"
  shows "r = Ret () \<and> dot_inv n K b X s'"
proof -
  obtain sc where sc: "NewShardedClient pstr servers (fst (ParseLoadBalancingPolicy pstr name)) = Ret sc"
    using parsed_policy_builds by blast
  have "shard_ok {..<n} sc" by (rule NewShardedClient_ok [OF sc assms(3,4)])
  with run_select_policy [OF sc, of s] assms(1,2) show ?thesis
    by (auto simp: dot_inv_def clients_inv_def clients_ok_def good_def pools_ok_def accounts_def owned_def fills_def)
qed

lemma net_listen_inv:
  assumes "dot_inv n K b X s" "run_state (net_listen e a) s = (r, s')"
  shows "(\<exists>er i. r = Inl er \<and> e_listen e i a = Inl er \<and> dot_inv n K b X s') \<or>
    (\<exists>c. r = Inr c \<and> dot_inv n K b (add_mset c X) s')"
proof -
  let ?s = "s\<lparr>w_tick := Suc (w_tick s)\<rparr>"
  have inv: "dot_inv n K b X ?s" by (rule sharded.J_quiet [OF assms(1)]) simp
  with assms(2) new_sock_inv [OF inv run_new_sock] show ?thesis
    by (cases "e_listen e (w_tick s) a") (auto simp: net_listen_def)
qed

text \<open>The reasons for which start-up ends in a panic.\<close>

definition start_refused :: "env \<Rightarrow> (statsd_config \<Rightarrow> go_err option) \<Rightarrow> go_err \<Rightarrow> bool" where
  "start_refused e newClient er \<longleftrightarrow> (\<exists>cf. newClient cf = Some er) \<or>
     (\<exists>i a er'. e_listen e i a = Inl er' \<and>
        er \<in> {Errorf ''server: failed to listen on UDP socket: err=%v'' (Some er'),
              Errorf ''server: failed to listen on TCP socket: err=%v'' (Some er')})"

definition started :: "env \<Rightarrow> (statsd_config \<Rightarrow> go_err option) \<Rightarrow> 'v option \<Rightarrow> nat \<Rightarrow> int list \<Rightarrow> nat \<Rightarrow> cid multiset \<Rightarrow>
    ('v \<times> cid) option gores \<Rightarrow> dotproxy \<Rightarrow> bool" where
  "started e nc srv n K b X r s \<longleftrightarrow>
     (\<exists>v. r = Ret v \<and> map_option fst v = srv \<and> dot_inv n K b (mset (map snd (case_option [] (\<lambda>x. [x]) v)) + X) s) \<or>
     (\<exists>er. r = Panic (PanicErr er) \<and> start_refused e nc er \<and> dot_inv n K b X s)"

lemma start_udp_inv:
  assumes "dot_inv n K b X s" "run_state (start_udp e l) s = (r, s')"
  shows "started e nc (map_option udp_server l) n K b X r s'"
proof (cases l)
  case None
  with assms show ?thesis by (auto simp: start_udp_def started_def)
next
  case (Some u)
  let ?s = "s\<lparr>w_trace := w_trace s @ [EvLog Info ''main: configuring UDP server listener: addr=%s max_concurrent_conns=%d'']\<rparr>"
  obtain x s1 where run: "run_state (net_listen e (ul_Address u)) ?s = (x, s1)" by (rule prod.exhaust)
  have inv: "dot_inv n K b X ?s" by (rule sharded.J_quiet [OF assms(1) quiet_trace]) simp
  from net_listen_inv [OF inv run] run assms(2) Some show ?thesis
    by (auto simp: start_udp_def started_def start_refused_def UDPServer_ListenAndServe_def udp_server_def NewUDPServer_def Let_def)
qed

lemma start_tcp_inv:
  assumes "dot_inv n K b X s" "run_state (start_tcp e hook l) s = (r, s')"
  shows "started e nc (map_option (tcp_server hook) l) n K b X r s'"
proof (cases l)
  case None
  with assms show ?thesis by (auto simp: start_tcp_def started_def)
next
  case (Some t)
  let ?s = "s\<lparr>w_trace := w_trace s @ [EvLog Info ''main: configuring TCP server listener: addr=%s'']\<rparr>"
  obtain x s1 where run: "run_state (net_listen e (tl_Address t)) ?s = (x, s1)" by (rule prod.exhaust)
  have inv: "dot_inv n K b X ?s" by (rule sharded.J_quiet [OF assms(1) quiet_trace]) simp
  from net_listen_inv [OF inv run] run assms(2) Some show ?thesis
    by (auto simp: start_tcp_def started_def start_refused_def TCPServer_Listen_def tcp_server_def NewTCPServer_def Let_def)
qed

definition handler_of :: "hooks \<Rightarrow> UpstreamConfig \<Rightarrow> DNSProxyHandler" where
  "handler_of hk u = \<lparr>ClientCxIOHook = hk_clientIO hk, UpstreamCxIOHook = hk_upstreamIO hk, ProxyHook = hk_proxy hk,
     MaxUpstreamRetries = uc_MaxConnectionRetries u\<rparr>"

definition serves :: "hooks \<Rightarrow> UpstreamConfig \<Rightarrow> ListenerConfig \<Rightarrow> deployment \<Rightarrow> bool" where
  "serves hk u l d \<longleftrightarrow> dp_handler d = handler_of hk u \<and> map_option fst (dp_udp d) = map_option udp_server (lc_UDP l) \<and>
     map_option fst (dp_tcp d) = map_option (tcp_server (hk_clientCx hk)) (lc_TCP l)"

lemma serve_inv:
  fixes s s' :: dotproxy
  assumes "dot_inv n K b X s" "run_state (serve e hk u l) s = (r, s')"
  shows "(\<exists>d. r = Ret d \<and> serves hk u l d \<and> dot_inv n K b (listeners d + X) s') \<or>
    (\<exists>er. r = Panic (PanicErr er) \<and> start_refused e nc er)"
proof -
  obtain r1 s1 where run1: "run_state (start_udp e (lc_UDP l)) s = (r1, s1)" by (rule prod.exhaust)
  obtain r2 s2 where run2: "run_state (start_tcp e (hk_clientCx hk) (lc_TCP l)) s1 = (r2, s2)" by (rule prod.exhaust)
  have s': "s' = s2\<lparr>w_trace := w_trace s2 @ [EvLog Info ''main: serving indefinitely'']\<rparr>"
    and r: "r = gores_bind r1 (\<lambda>udp. gores_bind r2 (\<lambda>tcp. Ret \<lparr>dp_handler = handler_of hk u, dp_udp = udp, dp_tcp = tcp\<rparr>))"
    using assms(2) run1 run2 by (auto simp: serve_def handler_of_def)
  from start_udp_inv [OF assms(1) run1, of nc]
  consider v where "r1 = Ret v" "map_option fst v = map_option udp_server (lc_UDP l)"
      "dot_inv n K b (mset (map snd (case_option [] (\<lambda>x. [x]) v)) + X) s1"
    | "\<exists>er. r1 = Panic (PanicErr er) \<and> start_refused e nc er" by (auto simp: started_def)
  then show ?thesis
  proof cases
    case (1 v)
    let ?X = "mset (map snd (case_option [] (\<lambda>x. [x]) v)) + X"
    from start_tcp_inv [OF 1(3) run2, of nc]
    consider w where "r2 = Ret w" "map_option fst w = map_option (tcp_server (hk_clientCx hk)) (lc_TCP l)"
        "dot_inv n K b (mset (map snd (case_option [] (\<lambda>x. [x]) w)) + ?X) s2"
      | "\<exists>er. r2 = Panic (PanicErr er) \<and> start_refused e nc er" by (auto simp: started_def)
    then show ?thesis
    proof cases
      case w: (1 w)
      let ?d = "\<lparr>dp_handler = handler_of hk u, dp_udp = v, dp_tcp = w\<rparr>"
      have "dot_inv n K b (mset (map snd (case_option [] (\<lambda>x. [x]) w)) + ?X) s'"
        unfolding s' by (rule sharded.J_quiet [OF w(3) quiet_trace]) simp
      then have "dot_inv n K b (listeners ?d + X) s'" by (simp add: listeners_def ac_simps)
      moreover have "serves hk u l ?d" using 1(2) w(2) by (simp add: serves_def)
      ultimately show ?thesis using r 1(1) w(1) by auto
    qed (auto simp: r 1(1))
  qed (auto simp: r)
qed

lemma statsd_hooks_refused:
  "(\<exists>hk. statsd_hooks nc version sd = Ret hk) \<or>
   (\<exists>er. statsd_hooks nc version sd = Panic (PanicErr er) \<and> start_refused e nc er)"
  by (auto simp: statsd_hooks_def NewAsyncStatsdConnectionLifecycleHook_def NewAsyncStatsdConnectionIOHook_def
      NewAsyncStatsdProxyHook_def statsdClientFactory_def start_refused_def Let_def split: sum.splits option.splits)

definition hooks_of :: "(statsd_config \<Rightarrow> go_err option) \<Rightarrow> string \<Rightarrow> Config \<Rightarrow> hooks gores" where
  "hooks_of nc version cfg = (case Option.bind (cfg_Metrics cfg) mc_Statsd of
     None \<Rightarrow> Ret no_hooks | Some sd \<Rightarrow> statsd_hooks nc version sd)"

lemma run_configure_metrics:
  "\<exists>lv msg. run_state (configure_metrics nc version (cfg_Metrics cfg)) s =
     (hooks_of nc version cfg, s\<lparr>w_trace := w_trace s @ [EvLog lv msg]\<rparr>)"
  by (auto simp: configure_metrics_def hooks_of_def split: option.split)

lemma hooks_of_cases:
  obtains k where "hooks_of nc version cfg = Ret k"
  | er where "hooks_of nc version cfg = Panic (PanicErr er)" "start_refused e nc er"
proof (cases "Option.bind (cfg_Metrics cfg) mc_Statsd")
  case (Some sd)
  with statsd_hooks_refused [of nc version sd e] that show thesis by (auto simp: hooks_of_def)
qed (use that in \<open>simp add: hooks_of_def\<close>)

definition program_start :: dotproxy where
  "program_start = \<lparr>w_tick = 0, w_socks = [], w_trace = [], p_pools = [], p_tasks = [], sys_clients = [],
     d_shard = NewFailoverShardedClient []\<rparr>"

lemma program_start_inv: "clients_inv 0 ([], 0, {#}) program_start"
  by (simp add: clients_inv_def program_start_def clients_ok_def good_def pools_ok_def accounts_def owned_def fills_def
      cached_socks_def open_ids_def)

lemma boot_inv:
  fixes s s' :: dotproxy
  assumes inv: "clients_inv 0 ([], 0, {#}) s" and run: "run_state (boot e pstr nc version cfg) s = (r, s')"
    and cfg: "cfg_Upstream cfg = Some u" "cfg_Listener cfg = Some l" "uc_Servers u \<noteq> []"
  shows "(\<exists>d hk. r = Ret d \<and> hooks_of nc version cfg = Ret hk \<and> serves hk u l d \<and>
      dot_inv (length (uc_Servers u)) (pool_sizes u) (prefills (pool_sizes u)) (listeners d) s') \<or>
    (\<exists>er. r = Panic (PanicErr er) \<and> start_refused e nc er)"
proof -
  let ?sentry = "(case cfg_Application cfg of
        Some app \<Rightarrow> if SentryDSN app \<noteq> [] then emit (EvSentryConf (SentryDSN app) version) else pass ()
      | None \<Rightarrow> pass ()) :: (dotproxy, unit) state"
  have "hushed ?sentry" by (intro hushed_rules) simp_all
  obtain x s1 where run1: "run_state ?sentry s = (x, s1)" by (rule prod.exhaust)
  obtain hk s2 where run2: "run_state (configure_metrics nc version (cfg_Metrics cfg)) s1 = (hk, s2)" by (rule prod.exhaust)
  have inv2: "clients_inv 0 ([], 0, {#}) s2"
    using run_configure_metrics [of nc version cfg s1] run2
    by (auto intro: clients_inv_quiet [OF clients_inv_hushed [OF \<open>hushed ?sentry\<close> inv run1] quiet_trace])
  have rest: "run_state (case hk of Fail er \<Rightarrow> pass (Fail er) | Panic q \<Rightarrow> pass (Panic q) | Hang \<Rightarrow> pass Hang
     | Ret hk \<Rightarrow> do {
              servers \<leftarrow> start_clients (hk_upstreamCx hk) (uc_Servers u);
              case servers of
                Fail er \<Rightarrow> pass (Fail er) | Panic q \<Rightarrow> pass (Panic q) | Hang \<Rightarrow> pass Hang
              | Ret servers \<Rightarrow> do {
                  r \<leftarrow> select_policy pstr (uc_LoadBalancingPolicy u) servers;
                  case r of
                    Fail er \<Rightarrow> pass (Fail er) | Panic q \<Rightarrow> pass (Panic q) | Hang \<Rightarrow> pass Hang
                  | Ret _ \<Rightarrow> serve e hk u l } }) s2 = (r, s')"
    using run run1 run2 cfg by (simp add: boot_def)
  have hk: "hooks_of nc version cfg = hk" using run_configure_metrics [of nc version cfg s1] run2 by auto
  show ?thesis
  proof (cases rule: hooks_of_cases [of nc version cfg _ e])
    case (1 k)
    obtain r3 s3 where run3: "run_state (start_clients (hk_upstreamCx k) (uc_Servers u)) s2 = (r3, s3)" by (rule prod.exhaust)
    let ?is = "[0..<length (uc_Servers u)]"
    have r3: "r3 = Ret ?is" and inv3: "clients_inv (length (uc_Servers u)) (pool_sizes u, prefills (pool_sizes u), {#}) s3"
      using start_clients_inv [OF inv2 run3] by (simp_all add: pool_sizes_def)
    obtain r4 s4 where run4: "run_state (select_policy pstr (uc_LoadBalancingPolicy u) ?is) s3 = (r4, s4)" by (rule prod.exhaust)
    have r4: "r4 = Ret ()" and inv4: "dot_inv (length (uc_Servers u)) (pool_sizes u) (prefills (pool_sizes u)) {#} s4"
      using select_policy_inv [OF inv3 run4] cfg(3) by (simp_all add: atLeast0LessThan)
    have "run_state (serve e k u l) s4 = (r, s')" using rest 1 hk run3 r3 run4 r4 by simp
    from serve_inv [OF inv4 this, of nc] 1 show ?thesis by auto
  next
    case (2 er)
    with rest hk show ?thesis by auto
  qed
qed

lemma boot_outcome:
  fixes s s' :: dotproxy
  assumes "clients_inv 0 ([], 0, {#}) s" "config_ok cfg" "run_state (boot e pstr nc version cfg) s = (r, s')"
  obtains d hk u l where "r = Ret d" "hooks_of nc version cfg = Ret hk" "cfg_Upstream cfg = Some u"
      "cfg_Listener cfg = Some l" "serves hk u l d"
      "dot_inv (length (uc_Servers u)) (pool_sizes u) (prefills (pool_sizes u)) (listeners d) s'"
  | er where "r = Panic (PanicErr er)" "start_refused e nc er"
proof -
  obtain u l where ul: "cfg_Upstream cfg = Some u" "cfg_Listener cfg = Some l" "uc_Servers u \<noteq> []"
    using assms(2) by (auto simp: config_ok_def upstream_ok_def)
  from boot_inv [OF assms(1,3) ul] ul that show thesis by blast
qed

lemma never_refused:
  assumes "\<And>cf. newClient cf = None" "\<And>i a. \<exists>l. e_listen e i a = Inr l"
  shows "\<not> start_refused e newClient er"
  using assms(1) assms(2) [THEN exE] by (auto simp: start_refused_def) (metis Inl_Inr_False assms(2))+

lemma main_cases:
  assumes run: "run_state (main e lstr pstr readFile unmarshal newClient version f) program_start = (r, s')"
    and "policy_stringer pstr" and v: "\<not> f_version f"
  obtains (rejected) er where "r = Panic (PanicErr er)"
      "\<nexists>data. readFile (f_config f) = Inr data \<and> unmarshal data = Inr None"
      "\<nexists>data c. readFile (f_config f) = Inr data \<and> unmarshal data = Inr (Some c) \<and> config_ok c"
  | (empty) data where "readFile (f_config f) = Inr data" "unmarshal data = Inr None" "r = Panic NilDereference"
  | (booted) data cfg s1 r1 where "readFile (f_config f) = Inr data" "unmarshal data = Inr (Some cfg)" "config_ok cfg"
      "clients_inv 0 ([], 0, {#}) s1" "run_state (boot e pstr newClient version cfg) s1 = (r1, s')"
      "r = gores_bind r1 (\<lambda>d. Ret (Serving (NewConsoleLogger (fst (ParseLevel lstr (f_verbosity f)))) d))"
proof -
  let ?log = "do {
    emit (EvLog Debug ''main: initialized logger: level=%v'');
    emit (EvLog Debug ''main: reading and parsing config: path=%s'') } :: (dotproxy, unit) state"
  obtain x s1 where log: "run_state ?log program_start = (x, s1)" by (rule prod.exhaust)
  have "hushed ?log" by (intro hushed_rules) simp_all
  from clients_inv_hushed [OF this program_start_inv log] have inv: "clients_inv 0 ([], 0, {#}) s1" .
  have s1: "s1 = program_start\<lparr>w_trace := w_trace program_start @
      [EvLog Debug ''main: initialized logger: level=%v''] @ [EvLog Debug ''main: reading and parsing config: path=%s'']\<rparr>"
    using log by auto
  show thesis
  proof (cases rule: ParseConfig_cases [OF assms(2), of readFile unmarshal "f_config f"])
    case 1
    with run v rejected show thesis by (auto simp: main_def)
  next
    case (2 data)
    with run v empty show thesis by (auto simp: main_def)
  next
    case (3 data cfg)
    obtain r1 s2 where b: "run_state (boot e pstr newClient version cfg) s1 = (r1, s2)" by (rule prod.exhaust)
    with run v 3 have "s2 = s'" "r = gores_bind r1 (\<lambda>d. Ret (Serving (NewConsoleLogger (fst (ParseLevel lstr (f_verbosity f)))) d))"
      by (simp_all add: main_def s1)
    with booted 3(1-3) inv b show thesis by blast
  qed
qed

lemma main_logger:
  assumes "run_state (main e lstr pstr readFile unmarshal newClient version f) s = (Ret (Serving lg d), s')"
  shows "lg = NewConsoleLogger (fst (ParseLevel lstr (f_verbosity f)))"
    and "run_state (main e lstr pstr readFile unmarshal newClient version (f\<lparr>f_verbosity := v\<rparr>)) s =
      (Ret (Serving (NewConsoleLogger (fst (ParseLevel lstr v))) d), s')"
  using assms
  by (auto simp: main_def Let_def split: gores.splits option.splits prod.splits if_splits elim!: gores_bind.elims)

lemma main_deploys:
  assumes "policy_stringer pstr"
    and "run_state (main e lstr pstr readFile unmarshal newClient version f) program_start = (Ret (Serving lg d), s0)"
    and "readFile (f_config f) = Inr data" "unmarshal data = Inr (Some cfg)" "cfg_Upstream cfg = Some u"
  obtains hk l where "cfg_Listener cfg = Some l" "serves hk u l d"
    "dot_inv (length (uc_Servers u)) (pool_sizes u) (prefills (pool_sizes u)) (listeners d) s0" "hooks_of newClient version cfg = Ret hk"
proof -
  have v: "\<not> f_version f" using assms(2) by (auto simp: main_def)
  show thesis
  proof (cases rule: main_cases [OF assms(2,1) v])
    case (3 data' cfg' s1 r1)
    then have "cfg' = cfg" using assms(3,4) by simp
    show thesis
    proof (cases rule: boot_outcome [OF 3(4,3,5)])
      case (1 d' hk u' l)
      then have "u' = u" "d' = d" using 3(6) assms(5) \<open>cfg' = cfg\<close> by simp_all
      with 1 \<open>cfg' = cfg\<close> that show thesis by blast
    qed (use 3(6) in simp)
  qed simp_all
qed

lemma main_serving:
  assumes "policy_stringer pstr"
    and "run_state (main e lstr pstr readFile unmarshal newClient version f) program_start = (Ret (Serving lg d), s0)"
    and "readFile (f_config f) = Inr data" "unmarshal data = Inr (Some cfg)" "cfg_Upstream cfg = Some u"
  shows "dot_inv (length (uc_Servers u)) (pool_sizes u) (prefills (pool_sizes u)) (listeners d) s0"
  using main_deploys [OF assms] .

lemma main_running:
  assumes "env_ok e" "policy_stringer pstr"
    and "run_state (main e lstr pstr readFile unmarshal newClient version f) program_start = (Ret (Serving lg d), s0)"
    and "readFile (f_config f) = Inr data" "unmarshal data = Inr (Some cfg)" "cfg_Upstream cfg = Some u"
    and "live_reach e tstr d s0 c"
  shows "live_inv (length (uc_Servers u)) (pool_sizes u) (prefills (pool_sizes u)) (listeners d) c"
  by (rule live_reach_inv [OF assms(1) main_serving [OF assms(2-6)] assms(7)])

lemma main_starts:
  assumes "policy_stringer pstr" "\<not> f_version f" "readFile (f_config f) = Inr data" "unmarshal data = Inr (Some cfg)"
    and "config_ok cfg" "\<And>cf. newClient cf = None" "\<And>i a. \<exists>l. e_listen e i a = Inr l"
  obtains lg d s' hk u l where
    "run_state (main e lstr pstr readFile unmarshal newClient version f) program_start = (Ret (Serving lg d), s')"
    "hooks_of newClient version cfg = Ret hk" "cfg_Upstream cfg = Some u" "cfg_Listener cfg = Some l" "serves hk u l d"
proof -
  obtain r s' where run: "run_state (main e lstr pstr readFile unmarshal newClient version f) program_start = (r, s')"
    by (rule prod.exhaust)
  show thesis
  proof (cases rule: main_cases [OF run assms(1,2)])
    case (3 data' cfg' s1 r1)
    have "cfg' = cfg" using 3(1,2) assms(3,4) by simp
    then show thesis
      by (cases rule: boot_outcome [OF 3(4,3,5)]) (use 3(6) run never_refused [OF assms(6,7)] that in simp_all)
  qed (use assms(3-5) in simp_all)
qed

section \<open>The configured timeouts arrive\<close>

definition server_timely :: "duration \<Rightarrow> UpstreamServer \<Rightarrow> bool" where
  "server_timely T srv \<longleftrightarrow> T \<le> up_ReadTimeout srv \<and> T \<le> up_WriteTimeout srv \<and>
     (up_HandshakeTimeout srv \<le> 0 \<or> T \<le> up_HandshakeTimeout srv)"

definition config_timely :: "duration \<Rightarrow> UpstreamConfig \<Rightarrow> ListenerConfig \<Rightarrow> bool" where
  "config_timely T u l \<longleftrightarrow> (\<forall>srv \<in> set (uc_Servers u). server_timely T srv) \<and>
     pred_option (\<lambda>x. T \<le> ul_ReadTimeout x \<and> T \<le> ul_WriteTimeout x) (lc_UDP l) \<and>
     pred_option (\<lambda>x. T \<le> tl_ReadTimeout x \<and> T \<le> tl_WriteTimeout x) (lc_TCP l)"

lemma NewTLSClient_fits: "server_timely T srv \<Longrightarrow> keeps (fits T) (NewTLSClient a sn hook (client_opts srv))"
  by (rule keepsI) (auto simp: NewTLSClient_def NewPersistentConnPool_def client_opts_def fits_def server_timely_def
      dialer_timely_def queue_timely_def mru_inv_New)

lemma start_clients_fits: "\<forall>srv \<in> set ss. server_timely T srv \<Longrightarrow> keeps (fits T) (start_clients hook ss)"
  by (induction ss) (auto intro!: keeps_rules NewTLSClient_fits)

lemma select_policy_fits: "keeps (fits T) (select_policy pstr name servers)"
  unfolding select_policy_def Let_def
  by (intro keeps_rules keeps_update; auto simp: fits_def split: prod.split intro!: keeps_rules)

lemma serve_fits: "keeps (fits T) (serve e hk u l)"
  unfolding serve_def start_udp_def start_tcp_def UDPServer_ListenAndServe_def TCPServer_Listen_def net_listen_def Let_def
  by (intro keeps_rules; simp)

lemma boot_fits:
  assumes "cfg_Upstream cfg = Some u" "\<forall>srv \<in> set (uc_Servers u). server_timely T srv"
  shows "keeps (fits T) (boot e pstr nc version cfg)"
  unfolding boot_def configure_metrics_def
  by (intro keeps_rules start_clients_fits select_policy_fits serve_fits; use assms in simp)

lemma main_fits:
  assumes "run_state (main e lstr pstr readFile unmarshal newClient version f) program_start = (r, s0)"
    and "policy_stringer pstr" "readFile (f_config f) = Inr data" "unmarshal data = Inr (Some cfg)"
    and "cfg_Upstream cfg = Some u" "\<forall>srv \<in> set (uc_Servers u). server_timely T srv"
  shows "fits T s0"
proof -
  have parse: "c = cfg" if "ParseConfig readFile unmarshal pstr (f_config f) = Ret (Some c)" for c
    using that assms(3,4) by (cases rule: ParseConfig_cases [OF assms(2), of readFile unmarshal "f_config f"]) simp_all
  have "keeps (fits T) (main e lstr pstr readFile unmarshal newClient version f)"
    unfolding main_def Let_def by (intro keeps_rules boot_fits; use assms(5,6) parse in blast)
  moreover have "fits T program_start" by (simp add: fits_def program_start_def)
  ultimately show ?thesis using assms(1) by (rule keepsD)
qed

lemma main_servers_timely:
  assumes "serves hk u l d" "config_timely T u l"
  shows "servers_timely T (listeners d) d"
  using assms by (cases "lc_UDP l"; cases "lc_TCP l")
    (auto simp: serves_def config_timely_def servers_timely_def listeners_def udp_server_def tcp_server_def NewUDPServer_def
      NewTCPServer_def split: if_splits)

section \<open>A concrete program\<close>

definition level_names :: "Level \<Rightarrow> string" where
  "level_names l = (case l of Debug \<Rightarrow> ''DEBUG'' | Info \<Rightarrow> ''INFO'' | Warn \<Rightarrow> ''WARN'' | Error \<Rightarrow> ''ERROR'')"

definition demo_flags :: flags where
  "demo_flags = \<lparr>f_config = ''config.yaml'', f_version = False, f_verbosity = ''debug''\<rparr>"

definition demo_decode :: "string \<Rightarrow> go_err + Config option" where
  "demo_decode data = Inr (if data = [] then None else Some (demo_config (Fin 1)))"

definition demo_main :: "(dotproxy, main_result gores) state" where
  "demo_main = main calm_env level_names policy_names Inr demo_decode (\<lambda>_. None) ''abc'' demo_flags"

lemma demo_facts:
  "\<not> f_version demo_flags" "demo_decode (f_config demo_flags) = Inr (Some (demo_config (Fin 1)))"
  "config_ok (demo_config (Fin 1))"
  by (simp_all add: demo_flags_def demo_decode_def demo_config_ok rate_ok_def)

lemma demo_ParseConfig:
  "ParseConfig Inr demo_decode policy_names (f_config demo_flags) = Ret (Some (demo_config (Fin 1)))"
  by (rule ParseConfig_cases [OF policy_names_stringer, of Inr demo_decode "f_config demo_flags"]) (use demo_facts in auto)

lemma demo_policy:
  "ParseLoadBalancingPolicy policy_names [] = (RoundRobin, False)"
  "NewShardedClient policy_names [0] RoundRobin = Ret (SRoundRobin \<lparr>rr_clients = [0], rrIdx = 0\<rparr>)"
  by (simp_all add: ParseLoadBalancingPolicy_def policy_names_def policy_defs eq_iff_swap [OF ToLower_Nil_iff]
      NewShardedClient_def factories_def NewRoundRobinShardedClient_def)

lemmas demo_main_defs = demo_main_def main_def boot_def configure_metrics_def statsd_hooks_def
  NewAsyncStatsdConnectionLifecycleHook_def NewAsyncStatsdConnectionIOHook_def NewAsyncStatsdProxyHook_def
  statsdClientFactory_def NewTLSClient_def NewPersistentConnPool_def select_policy_def serve_def start_udp_def
  start_tcp_def UDPServer_ListenAndServe_def TCPServer_Listen_def net_listen_def program_start_def demo_server_def
  client_opts_def udp_server_def tcp_server_def NewUDPServer_def NewTCPServer_def tcp_accept_def RoundRobin_Conn_def

text \<open>The demonstration starts, accepts a client, reads its request and acquires a connection.\<close>

lemma demo_main_run:
  "\<exists>lg d s0 srv lis c s cl b r s1 pc s2. run_state demo_main program_start = (Ret (Serving lg d), s0) \<and>
    dp_tcp d = Some (srv, lis) \<and> (\<nexists>c. d_shard s0 = SAvailability c) \<and>
    run_state (tcp_accept calm_env (\<lambda>_. ''TCP'') (dp_handler d) srv lis) s0 = (Some c, s) \<and>
    d_shard s = SRoundRobin \<lparr>rr_clients = [0], rrIdx = 0\<rparr> \<and>
    run_state (phase_step (upstream_Conn calm_env 1) calm_env (dp_handler d) TCP (Reading (NetTCP c))) s =
      (Acquiring cl b r, s1) \<and>
    run_state (phase_step (upstream_Conn calm_env 1) calm_env (dp_handler d) TCP (Acquiring cl b r)) s1 =
      (Exchanging cl b r pc, s2)"
  by (simp add: demo_main_defs demo_ParseConfig demo_facts demo_config_def demo_policy demo_handle_defs SetReadDeadline_def
      sock_set_deadline_def second_def millisecond_def)

lemma demo_main_live:
  obtains lg d s0 c s cl b r pc s2 j where "run_state demo_main program_start = (Ret (Serving lg d), s0)"
    "\<nexists>c. d_shard s0 = SAvailability c"
    "live_step calm_env (\<lambda>_. ''TCP'') d (Live s0 []) (Live s [new_job (FromTCP c) (NetTCP c) s])"
    "d_shard s = SRoundRobin \<lparr>rr_clients = [0], rrIdx = 0\<rparr>"
    "live_reach calm_env (\<lambda>_. ''TCP'') d s0 (Live s [new_job (FromTCP c) (NetTCP c) s])"
    "live_reach calm_env (\<lambda>_. ''TCP'') d s0 (Live s2 [j\<lparr>j_phase := Exchanging cl b r pc\<rparr>])"
proof -
  obtain lg d s0 srv lis c s cl b r s1 pc s2 where
      run: "run_state demo_main program_start = (Ret (Serving lg d), s0)" and tcp: "dp_tcp d = Some (srv, lis)"
      and nav: "\<nexists>c. d_shard s0 = SAvailability c"
      and acc: "run_state (tcp_accept calm_env (\<lambda>_. ''TCP'') (dp_handler d) srv lis) s0 = (Some c, s)"
      and rr: "d_shard s = SRoundRobin \<lparr>rr_clients = [0], rrIdx = 0\<rparr>"
      and p1: "run_state (phase_step (upstream_Conn calm_env 1) calm_env (dp_handler d) TCP (Reading (NetTCP c))) s =
        (Acquiring cl b r, s1)"
      and p2: "run_state (phase_step (upstream_Conn calm_env 1) calm_env (dp_handler d) TCP (Acquiring cl b r)) s1 =
        (Exchanging cl b r pc, s2)"
    using demo_main_run by (elim exE conjE) blast
  let ?j = "new_job (FromTCP c) (NetTCP c) s" and ?reach = "live_reach calm_env (\<lambda>_. ''TCP'') d s0"
  note step0 = live_step.accept [OF tcp acc, of "[]"]
  have r0: "?reach (Live s [?j])" by (rule live_reach.step [OF live_reach.start step0])
  have r1: "?reach (Live s1 [?j\<lparr>j_phase := Acquiring cl b r\<rparr>])"
    using live_reach.step [OF r0 live_step.work [OF work_step.advance [of 0 _ calm_env 1 d]]] p1 by simp
  have "?reach (Live s2 [?j\<lparr>j_phase := Exchanging cl b r pc\<rparr>])"
    using live_reach.step [OF r1 live_step.work [OF work_step.advance [of 0 _ calm_env 1 d]]] p2 by simp
  with that [OF run nav step0 rr r0] show thesis .
qed

section \<open>Properties\<close>

text \<open>
  C2. Once \<open>main\<close> serves, the program never panics: whatever requests come in,
  however the environment answers within the contract of Go's packages, and in
  whatever order requests and background goroutines run, every reachable state is a
  running one. In it there is one pool per upstream server, and a pool with a positive
  configured size caches at most that many connections.
\<close>

theorem program_never_panics:
  assumes "env_ok e" "policy_stringer pstr"
    and "run_state (main e lstr pstr readFile unmarshal newClient version f) program_start = (Ret (Serving lg d), s0)"
    and "readFile (f_config f) = Inr data" "unmarshal data = Inr (Some cfg)" "cfg_Upstream cfg = Some u"
    and "live_reach e tstr d s0 c"
  shows "\<exists>s js. c = Live s js \<and> length (p_pools s) = length (uc_Servers u) \<and>
    (\<forall>p < length (uc_Servers u). 0 < up_ConnectionPoolSize (uc_Servers u ! p) \<longrightarrow>
       int (fst (run_state (PersistentConnPool_Size p) s)) \<le> up_ConnectionPoolSize (uc_Servers u ! p))"
proof -
  obtain s js X b where c: "c = Live s js" and good: "good (pool_sizes u) b X s"
    using main_running [OF assms]
    by (auto simp: live_inv_def dot_inv_def clients_inv_def split: live_state.splits)
  have "length (p_pools s) = length (uc_Servers u)" using good_length [OF good] by (simp add: pool_sizes_def)
  with c good_pool_size [OF good] show ?thesis by (simp add: pool_sizes_def)
qed

theorem program_never_panics_witness:
  "\<exists>lg d s0 c s js. run_state demo_main program_start = (Ret (Serving lg d), s0) \<and>
    live_reach calm_env (\<lambda>_. ''TCP'') d s0 c \<and> c = Live s js \<and> js \<noteq> [] \<and> length (p_pools s) = 1 \<and>
    fst (run_state (PersistentConnPool_Size 0) s) \<le> 1"
proof -
  obtain lg d s0 c s where run: "run_state demo_main program_start = (Ret (Serving lg d), s0)"
      and reach: "live_reach calm_env (\<lambda>_. ''TCP'') d s0 (Live s [new_job (FromTCP c) (NetTCP c) s])" by (rule demo_main_live)
  obtain u where u: "cfg_Upstream (demo_config (Fin 1)) = Some u" "uc_Servers u = [demo_server]"
    by (simp add: demo_config_def)
  from program_never_panics [OF calm_env_ok policy_names_stringer run [unfolded demo_main_def] refl demo_facts(2) u(1) reach]
  have "length (p_pools s) = 1" "fst (run_state (PersistentConnPool_Size 0) s) \<le> 1"
    by (auto simp: u(2) demo_server_def)
  with run reach show ?thesis by blast
qed

text \<open>
  C3. The running program accounts for every socket: at every moment the open sockets are
  exactly the listeners, the client connections still being served, the upstream
  connections that requests in flight hold, those cached in a pool or held by a
  goroutine that will return or close them, and a rest of at most the sum of the positive pool sizes, which only the goroutines
  that pre-fill the pools can have left behind. Requests leak nothing.
\<close>

theorem program_accounts_for_sockets:
  assumes "env_ok e" "policy_stringer pstr"
    and "run_state (main e lstr pstr readFile unmarshal newClient version f) program_start = (Ret (Serving lg d), s0)"
    and "readFile (f_config f) = Inr data" "unmarshal data = Inr (Some cfg)" "cfg_Upstream cfg = Some u"
    and "live_reach e tstr d s0 (Live s js)"
  shows "\<exists>L. mset_set (open_set s) = listeners d + clients_held js + upstreams_held js + owned s + L \<and>
    size L \<le> (\<Sum>srv \<leftarrow> uc_Servers u. nat (up_ConnectionPoolSize srv))"
proof -
  obtain L b where "size L + b \<le> prefills (pool_sizes u)"
      "accounts (jobs_held js + (listeners d + L)) s"
    using main_running [OF assms] by (auto simp: live_inv_def dot_inv_def clients_inv_def good_def)
  then show ?thesis
    by (intro exI [of _ L]) (simp add: accounts_def prefills_def pool_sizes_def comp_def ac_simps)
qed

theorem program_accounts_for_sockets_witness:
  "\<exists>lg d s0 c s L. run_state demo_main program_start = (Ret (Serving lg d), s0) \<and>
    live_reach calm_env (\<lambda>_. ''TCP'') d s0 (Live s [new_job (FromTCP c) (NetTCP c) s]) \<and>
    mset_set (open_set s) = listeners d + {#tc_sock c#} + owned s + L \<and> size L \<le> 1"
proof -
  obtain lg d s0 c s where run: "run_state demo_main program_start = (Ret (Serving lg d), s0)"
      and reach: "live_reach calm_env (\<lambda>_. ''TCP'') d s0 (Live s [new_job (FromTCP c) (NetTCP c) s])" by (rule demo_main_live)
  obtain u where u: "cfg_Upstream (demo_config (Fin 1)) = Some u" "uc_Servers u = [demo_server]"
    by (simp add: demo_config_def)
  from program_accounts_for_sockets [OF calm_env_ok policy_names_stringer run [unfolded demo_main_def] refl demo_facts(2) u(1) reach]
  obtain L where "mset_set (open_set s) = listeners d + {#tc_sock c#} + owned s + L" "size L \<le> 1"
    by (auto simp: u(2) demo_server_def)
  with run reach show ?thesis by blast
qed

text \<open>
  C5. Requests never share an upstream connection: a connection that some request in flight
  holds is open, no other request holds it, it is in no pool, no goroutine will return
  or close it, and it is neither a client's nor a listener's socket.
\<close>

theorem requests_never_share:
  assumes "env_ok e" "policy_stringer pstr"
    and "run_state (main e lstr pstr readFile unmarshal newClient version f) program_start = (Ret (Serving lg d), s0)"
    and "readFile (f_config f) = Inr data" "unmarshal data = Inr (Some cfg)" "cfg_Upstream cfg = Some u"
    and "live_reach e tstr d s0 (Live s js)" "i < length js" "c \<in># phase_socks (j_phase (js ! i))"
  shows "c \<in> open_set s \<and> (\<forall>k < length js. c \<in># phase_socks (j_phase (js ! k)) \<longrightarrow> k = i) \<and>
    c \<notin># owned s \<and> c \<notin># clients_held js \<and> c \<notin># listeners d"
proof -
  obtain L b where "accounts (jobs_held js + (listeners d + L)) s"
    using main_running [OF assms(1-7)] by (auto simp: live_inv_def dot_inv_def clients_inv_def good_def)
  then have all: "mset_set (open_set s) = upstreams_held js + (owned s + clients_held js + listeners d + L)"
    by (simp add: accounts_def ac_simps)
  have in_js: "c \<in># upstreams_held js" using held_nth(2) [OF assms(8)] assms(9) by simp
  have once: "count (upstreams_held js) c + count (owned s + clients_held js + listeners d + L) c \<le> 1"
    unfolding count_union [symmetric] all [symmetric] by (simp add: count_mset_set')
  have "c \<in># mset_set (open_set s)" unfolding all using in_js by simp
  then have "c \<in> open_set s" by (cases "finite (open_set s)") simp_all
  moreover have "k = i" if "k < length js" "c \<in># phase_socks (j_phase (js ! k))" for k
    using held_twice [OF assms(8) that(1) _ assms(9) that(2)] once by fastforce
  ultimately show ?thesis using once in_js by (auto simp flip: count_greater_zero_iff)
qed

theorem requests_never_share_witness:
  "\<exists>lg d s0 s j (pc :: PersistentConn). run_state demo_main program_start = (Ret (Serving lg d), s0) \<and>
    live_reach calm_env (\<lambda>_. ''TCP'') d s0 (Live s [j]) \<and> tc_sock (pc_conn pc) \<in># phase_socks (j_phase j) \<and>
    tc_sock (pc_conn pc) \<in> open_set s \<and> tc_sock (pc_conn pc) \<notin># owned s \<and> tc_sock (pc_conn pc) \<notin># listeners d"
proof -
  obtain lg d s0 cl b r pc s j where run: "run_state demo_main program_start = (Ret (Serving lg d), s0)"
      and reach: "live_reach calm_env (\<lambda>_. ''TCP'') d s0 (Live s [j\<lparr>j_phase := Exchanging cl b r pc\<rparr>])"
    by (rule demo_main_live)
  obtain u where u: "cfg_Upstream (demo_config (Fin 1)) = Some u" by (simp add: demo_config_def)
  let ?c = "tc_sock (pc_conn pc)"
  have held: "?c \<in># phase_socks (j_phase ([j\<lparr>j_phase := Exchanging cl b r pc\<rparr>] ! 0))" by simp
  from requests_never_share [OF calm_env_ok policy_names_stringer run [unfolded demo_main_def] refl demo_facts(2) u reach _ held]
  have "?c \<in> open_set s \<and> ?c \<notin># owned s \<and> ?c \<notin># listeners d" by simp
  with run reach held show ?thesis unfolding nth_Cons_0 by blast
qed





text \<open>
  C17. What \<open>main\<close> does. With the version flag it prints the version and nothing else happens.
  Otherwise it serves only if the configuration file decodes to a valid configuration,
  with the logger at the parsed verbosity, the servers on the configured
  addresses, and the configured retry budget; it dereferences nil exactly when the file
  decodes to nothing; and it always gets somewhere.
\<close>

theorem main_outcome:
  assumes "policy_stringer pstr"
    and "run_state (main e lstr pstr readFile unmarshal newClient version f) program_start = (r, s')"
  shows "(f_version f \<longrightarrow> r = Ret (Version (''dotproxy/'' @ version)) \<and> s' = program_start) \<and>
    (\<forall>lg d. r = Ret (Serving lg d) \<longrightarrow> \<not> f_version f \<and>
       lg = NewConsoleLogger (fst (ParseLevel lstr (f_verbosity f))) \<and>
       (\<exists>data cfg u l hk. readFile (f_config f) = Inr data \<and> unmarshal data = Inr (Some cfg) \<and> config_ok cfg \<and>
          cfg_Upstream cfg = Some u \<and> cfg_Listener cfg = Some l \<and> hooks_of newClient version cfg = Ret hk \<and>
          serves hk u l d)) \<and>
    (r = Panic NilDereference \<longleftrightarrow>
       \<not> f_version f \<and> (\<exists>data. readFile (f_config f) = Inr data \<and> unmarshal data = Inr None)) \<and>
    r \<noteq> Hang"
proof (cases "f_version f")
  case True
  with assms(2) show ?thesis by (auto simp: main_def)
next
  case False
  show ?thesis
  proof (cases rule: main_cases [OF assms(2,1) False])
    case (3 data cfg s1 r1)
    show ?thesis
    proof (cases rule: boot_outcome [OF 3(4,3,5)])
      case (1 d hk u l)
      with 3 False show ?thesis by simp
    qed (use 3 False in simp)
  qed (use False in simp_all)
qed

theorem main_outcome_witness:
  "\<exists>r s'. run_state (main calm_env level_names policy_names Inr demo_decode (\<lambda>_. None) ''abc''
      (demo_flags\<lparr>f_config := []\<rparr>)) program_start = (r, s') \<and> r = Panic NilDereference"
proof -
  let ?f = "demo_flags\<lparr>f_config := []\<rparr>"
  obtain r s' where run: "run_state (main calm_env level_names policy_names Inr demo_decode (\<lambda>_. None) ''abc'' ?f)
      program_start = (r, s')" by (rule prod.exhaust)
  have "\<not> f_version ?f" "demo_decode (f_config ?f) = Inr None" by (simp_all add: demo_flags_def demo_decode_def)
  with main_outcome [OF policy_names_stringer run] run show ?thesis by auto
qed

text \<open>
  C34. The verbosity decides what is printed and nothing else. Started with another verbosity
  flag, \<open>main\<close> does the same and ends up in the same state, with a logger of the parsed
  level. Of the calls of the logger in any trace, the ones at the logger's level or above
  are printed, in their order; with a less verbose logger, a subsequence of these lines.
\<close>

theorem verbosity_only_filters:
  assumes "run_state (main e lstr pstr readFile unmarshal newClient version f) s = (Ret (Serving lg d), s')"
  shows "\<exists>lg'. run_state (main e lstr pstr readFile unmarshal newClient version (f\<lparr>f_verbosity := v\<rparr>)) s = (Ret (Serving lg' d), s') \<and>
    cl_level lg' = fst (ParseLevel lstr v) \<and>
    console (as_Logger lstr lg) clock tr = concat (map (\<lambda>(i, ev). wanted (cl_level lg) (log_line lstr) (clock i) ev) (enumerate 0 tr)) \<and>
    (cl_level lg \<le> cl_level lg' \<longrightarrow> subseq (console (as_Logger lstr lg') clock tr) (console (as_Logger lstr lg) clock tr))"
proof (intro exI conjI impI)
  let ?lg' = "NewConsoleLogger (fst (ParseLevel lstr v))"
  show "run_state (main e lstr pstr readFile unmarshal newClient version (f\<lparr>f_verbosity := v\<rparr>)) s = (Ret (Serving ?lg' d), s')"
    by (rule main_logger(2) [OF assms])
  show level: "cl_level ?lg' = fst (ParseLevel lstr v)" by (simp add: NewConsoleLogger_def)
  have lg: "NewConsoleLogger (cl_level l) = l" for l by (simp add: NewConsoleLogger_def)
  show "console (as_Logger lstr lg) clock tr = concat (map (\<lambda>(i, ev). wanted (cl_level lg) (log_line lstr) (clock i) ev) (enumerate 0 tr))"
    using console_logger.console_wanted [of lstr "cl_level lg"] by (simp add: lg)
  show "subseq (console (as_Logger lstr ?lg') clock tr) (console (as_Logger lstr lg) clock tr)" if "cl_level lg \<le> cl_level ?lg'"
    using console_logger.console_mono [OF that] by (simp add: lg)
qed

theorem verbosity_only_filters_witness:
  "\<exists>lg d s lg'. run_state demo_main program_start = (Ret (Serving lg d), s) \<and> cl_level lg' = Warn \<and>
    run_state (main calm_env level_names policy_names Inr demo_decode (\<lambda>_. None) ''abc'' (demo_flags\<lparr>f_verbosity := ''warn''\<rparr>)) program_start
      = (Ret (Serving lg' d), s) \<and>
    subseq (console (as_Logger level_names lg') (\<lambda>_. ''12:00'') [EvLog Info ''starting'', EvLog Warn ''no metrics''])
      (console (as_Logger level_names lg) (\<lambda>_. ''12:00'') [EvLog Info ''starting'', EvLog Warn ''no metrics''])"
proof -
  obtain lg d s where run: "run_state demo_main program_start = (Ret (Serving lg d), s)" by (rule demo_main_live)
  have names: "level_stringer level_names" by (simp add: level_stringer_def level_names_def)
  have "ParseLevel level_names ''debug'' = (Debug, True)" "ParseLevel level_names ''warn'' = (Warn, True)"
    using ParseLevel_case_insensitive [OF names] by (simp_all add: ToLower_level_names level_names_def) (code_simp)+
  moreover from this(1) have "cl_level lg = Debug"
    using main_logger(1) [OF run [unfolded demo_main_def]] by (simp add: demo_flags_def NewConsoleLogger_def)
  ultimately show ?thesis
    using run verbosity_only_filters [OF run [unfolded demo_main_def], of "''warn''" "\<lambda>_. ''12:00''"
        "[EvLog Info ''starting'', EvLog Warn ''no metrics'']"]
    by (auto simp: less_eq_Level_def)
qed



end
