(* ===== verification/Program.thy ===== *)
theory Program
  imports Dotproxy_Main Client_Gauge
begin

text \<open>
  More about the whole program, from \<open>main\<close> on: every reference in a reachable state is valid,
  and the metrics of client connections are exact.
\<close>

section \<open>Start-up reports nothing to the client's hook\<close>

lemma NewTLSClient_gauge: "hook \<noteq> h \<Longrightarrow> keeps (gauge h L UNIV) (NewTLSClient a sn hook opts)"
  by (rule keepsI) (auto simp: NewTLSClient_def NewPersistentConnPool_def gauge_def)

lemma start_clients_gauge: "hook \<noteq> h \<Longrightarrow> keeps (gauge h L UNIV) (start_clients hook ss)"
  by (induction ss) (auto intro!: keeps_rules NewTLSClient_gauge)

lemma select_policy_gauge: "keeps (gauge h L N) (select_policy pstr name servers)"
  unfolding select_policy_def Let_def
  by (intro keeps_rules keeps_update; auto simp: gauge_def split: prod.split intro!: keeps_rules)

lemma serve_gauge: "keeps (gauge h L N) (serve e hk u l)"
  unfolding serve_def start_udp_def start_tcp_def UDPServer_ListenAndServe_def TCPServer_Listen_def net_listen_def Let_def
  by (intro keeps_rules; simp)

lemma keeps_metrics:
  assumes "\<And>hk. hooks_of nc version cfg = Ret hk \<Longrightarrow> keeps (gauge h L N) (k (Ret hk))"
    and "\<And>r. (\<And>hk. r \<noteq> Ret hk) \<Longrightarrow> keeps (gauge h L N) (k r)"
  shows "keeps (gauge h L N) (State_Monad.bind (configure_metrics nc version (cfg_Metrics cfg)) k)"
proof (rule keepsI)
  fix s :: "'a pools_scheme" and a s'
  assume inv: "gauge h L N s" and run: "run_state (State_Monad.bind (configure_metrics nc version (cfg_Metrics cfg)) k) s = (a, s')"
  obtain lv msg where "run_state (configure_metrics nc version (cfg_Metrics cfg)) s =
      (hooks_of nc version cfg, s\<lparr>w_trace := w_trace s @ [EvLog lv msg]\<rparr>)"
    using run_configure_metrics by blast
  with run have "run_state (k (hooks_of nc version cfg)) (s\<lparr>w_trace := w_trace s @ [EvLog lv msg]\<rparr>) = (a, s')" by simp
  moreover have "keeps (gauge h L N) (k (hooks_of nc version cfg))"
    using assms by (cases "hooks_of nc version cfg") simp_all
  moreover have "gauge h L N (s\<lparr>w_trace := w_trace s @ [EvLog lv msg]\<rparr>)" using inv by (simp add: gauge_def)
  ultimately show "gauge h L N s'" by (rule keepsD [rotated 2])
qed

lemma boot_gauge:
  assumes "\<And>hk. hooks_of nc version cfg = Ret hk \<Longrightarrow> hk_upstreamCx hk \<noteq> h"
  shows "keeps (gauge h L UNIV) (boot e pstr nc version cfg)"
  unfolding boot_def
  by (intro keeps_rules keeps_metrics; auto split: gores.splits intro!: keeps_rules start_clients_gauge select_policy_gauge serve_gauge assms)

text \<open>The clients and the upstream servers are two sources of one statsd client.\<close>

lemma statsd_hooks_sources:
  assumes "statsd_hooks nc version sd = Ret hk"
  obtains cl where "hk_clientCx hk = StatsdLifecycle cl ''client''" "hk_upstreamCx hk = StatsdLifecycle cl ''upstream''"
proof (cases "statsdClientFactory nc (sd_Address sd) (sd_SampleRate sd) version")
  case (Inr cl)
  with assms that show thesis
    by (auto simp: statsd_hooks_def NewAsyncStatsdConnectionLifecycleHook_def NewAsyncStatsdConnectionIOHook_def
        NewAsyncStatsdProxyHook_def Let_def)
qed (use assms in \<open>auto simp: statsd_hooks_def NewAsyncStatsdConnectionLifecycleHook_def Let_def\<close>)

lemma main_gauge:
  assumes "run_state (main e lstr pstr readFile unmarshal newClient version f) program_start = (r, s0)"
    and "policy_stringer pstr" "readFile (f_config f) = Inr data" "unmarshal data = Inr (Some cfg)"
    and "hooks_of newClient version cfg = Ret hk" "hk_upstreamCx hk \<noteq> h"
  shows "gauge h [] UNIV s0"
proof -
  have parse: "c = cfg" if "ParseConfig readFile unmarshal pstr (f_config f) = Ret (Some c)" for c
    using that assms(3,4) by (cases rule: ParseConfig_cases [OF assms(2), of readFile unmarshal "f_config f"]) simp_all
  have "keeps (gauge h [] UNIV) (main e lstr pstr readFile unmarshal newClient version f)"
    unfolding main_def Let_def by (intro keeps_rules boot_gauge; use assms(5,6) parse in force)
  moreover have "gauge h [] UNIV program_start" by (simp add: gauge_def program_start_def)
  ultimately show ?thesis using assms(1) by (rule keepsD)
qed

section \<open>Properties\<close>



text \<open>
  C9. The metrics of client connections are exact. With statsd configured, in every reachable
  state the connections reported as opened to the client's hook are those reported as
  closed and one for each TCP connection being served; that hook is the
  one of the source \<open>client\<close>, and neither start-up nor the upstream pools report to it.
\<close>

theorem client_gauge_exact:
  assumes "env_ok e" "policy_stringer pstr"
    and "run_state (main e lstr pstr readFile unmarshal newClient version f) program_start = (Ret (Serving lg d), s0)"
    and "readFile (f_config f) = Inr data" "unmarshal data = Inr (Some cfg)" "cfg_Upstream cfg = Some u"
    and "Option.bind (cfg_Metrics cfg) mc_Statsd = Some sd" "dp_tcp d = Some (srv, lis)"
    and "live_reach e tstr d s0 (Live s js)"
  shows "(\<exists>cl. ts_cxHook srv = StatsdLifecycle cl ''client'') \<and>
    cx_opened (ts_cxHook srv) (w_trace s) = cx_closed (ts_cxHook srv) (w_trace s) + length (tcp_jobs js) \<and>
    (\<forall>pool \<in> set (p_pools s). cxHook pool \<noteq> ts_cxHook srv)"
proof -
  obtain hk l where l: "cfg_Listener cfg = Some l" "serves hk u l d" "hooks_of newClient version cfg = Ret hk"
      and inv: "dot_inv (length (uc_Servers u)) (pool_sizes u) (prefills (pool_sizes u)) (listeners d) s0"
    using main_deploys [OF assms(2-6)] by blast
  have hook: "ts_cxHook srv = hk_clientCx hk"
    using l(2) assms(8) by (cases "lc_TCP l") (auto simp: serves_def tcp_server_def NewTCPServer_def)
  have "statsd_hooks newClient version sd = Ret hk" using l(3) assms(7) by (simp add: hooks_of_def)
  then obtain cl where cl: "hk_clientCx hk = StatsdLifecycle cl ''client''" "hk_upstreamCx hk = StatsdLifecycle cl ''upstream''"
    by (rule statsd_hooks_sources)
  then have "gauge (ts_cxHook srv) [] UNIV s0" by (intro main_gauge [OF assms(3,2,4,5) l(3)]) (simp add: hook)
  from live_reach_balanced [OF assms(1) _ inv this assms(9)] assms(8) cl(1) hook show ?thesis
    by (simp add: balanced_def)
qed

theorem client_gauge_exact_witness:
  "\<exists>lg d s0 srv lis c s. run_state demo_main program_start = (Ret (Serving lg d), s0) \<and> dp_tcp d = Some (srv, lis) \<and>
    live_reach calm_env (\<lambda>_. ''TCP'') d s0 (Live s [new_job (FromTCP c) (NetTCP c) s]) \<and>
    cx_opened (ts_cxHook srv) (w_trace s) = cx_closed (ts_cxHook srv) (w_trace s) + 1"
proof -
  obtain lg d s0 c s where run: "run_state demo_main program_start = (Ret (Serving lg d), s0)"
      and step: "live_step calm_env (\<lambda>_. ''TCP'') d (Live s0 []) (Live s [new_job (FromTCP c) (NetTCP c) s])"
      and reach: "live_reach calm_env (\<lambda>_. ''TCP'') d s0 (Live s [new_job (FromTCP c) (NetTCP c) s])" by (rule demo_main_live)
  obtain u where u: "cfg_Upstream (demo_config (Fin 1)) = Some u" by (simp add: demo_config_def)
  obtain sd where sd: "Option.bind (cfg_Metrics (demo_config (Fin 1))) mc_Statsd = Some sd" by (simp add: demo_config_def)
  obtain hk l where l: "cfg_Listener (demo_config (Fin 1)) = Some l" "serves hk u l d"
    by (rule main_deploys [OF policy_names_stringer run [unfolded demo_main_def] refl demo_facts(2) u])
  then obtain srv lis where tcp: "dp_tcp d = Some (srv, lis)" by (auto simp: serves_def demo_config_def)
  from client_gauge_exact [OF calm_env_ok policy_names_stringer run [unfolded demo_main_def] refl demo_facts(2) u sd tcp reach]
  have "cx_opened (ts_cxHook srv) (w_trace s) = cx_closed (ts_cxHook srv) (w_trace s) + 1" by (simp add: tcp_jobs_def)
  with run tcp reach show ?thesis by blast
qed

end
