(* ===== verification/Spec2Isabelle.thy ===== *)
theory Spec2Isabelle
  imports Prelude Priority_Queue MRU_Queue Log_Level Metrics_Hook World Net_Conn Conn_Pool TLS_Client Display Pool_System
    Sharding Round_Robin_Race Availability_Policy DNS_Proxy Request_Phases Server Client_Stats Live_System Timeouts Drain Healthy
    Client_Gauge Config Console Dotproxy_Main Program
begin

text \<open>
  Verification of dotproxy, a proxy from plain DNS over UDP and TCP to DNS over TLS.

  \<^bold>\<open>The program.\<close> \<^verbatim>\<open>src/cmd/dotproxy/main.go\<close> reads a YAML configuration
  (\<^verbatim>\<open>internal/meta/config.go\<close>), makes one TLS client per upstream server
  (\<^verbatim>\<open>internal/network/client.go\<close>), each with a pool of persistent connections
  (\<^verbatim>\<open>persistent.go\<close>) cached in a most-recently-used queue on a binary heap
  (\<^verbatim>\<open>internal/data\<close>), puts a load-balancing client in front of them
  (\<^verbatim>\<open>sharding.go\<close>), and serves UDP and TCP clients (\<^verbatim>\<open>server.go\<close>, \<^verbatim>\<open>conn.go\<close>)
  with a handler that forwards each request to an upstream connection and the answer back
  (\<^verbatim>\<open>internal/protocol/dns_proxy.go\<close>). Logging (\<^verbatim>\<open>internal/log\<close>) and statsd metrics
  (\<^verbatim>\<open>internal/metrics/hook.go\<close>) are called along the way.

  \<^bold>\<open>How it is modelled.\<close> Every Go function is a HOL function of the same name, methods with
  their receiver's type in front (\<open>MRUQueue_Push\<close>). A function without effects is pure;
  one with effects is a program of the state monad over a record that grows with the
  layers: \<open>world\<close> (sockets, a clock tick and a trace of events), \<open>pools\<close> (with the connection
  pools and the pending goroutines), \<open>sys\<close> (with the TLS clients), \<open>dotproxy\<close> (with the
  sharded client). What Go's packages and the network answer is a record of functions
  \<open>env\<close>, indexed by the tick: the clock, dialing, reads and writes, random numbers. Theorems
  hold for every environment, or for those that keep the documented contract \<open>env_ok\<close>: a
  monotone clock, counts that fit the buffer, random numbers in range. Errors are
  values of \<open>go_err\<close>; a call ends in \<open>Ret\<close>, \<open>Fail\<close>, \<open>Panic\<close> or \<open>Hang\<close>, the last for a call that
  does not return. A \<open>go\<close> statement adds a \<open>task\<close> to the state.

  \<^bold>\<open>Concurrency.\<close> In \<open>live_step\<close> any number of requests are in flight, each in a phase of the
  handler: reading, acquiring an upstream connection, the exchange on it, answering. The
  phases of all requests, the accept loop and the pending goroutines interleave in any
  order; a step is one phase or one goroutine as a whole. The queue and the statistics
  are under mutexes in the source; the exchange and the answer work on connections that
  only this request holds, which is itself a theorem. The index of the round-robin policy
  is not protected, and the tables of the availability policy change between the
  critical sections of a call: the step \<open>disturb\<close> lets calls that overlap leave any index in
  range and any table. \<open>sys_step\<close> is the same idea for the TLS clients alone. Races
  within one call are modelled at their own granularity: \<open>rr_step\<close> for the round-robin
  index, \<open>av_reach\<close> for requests that select a client together and fail together,
  \<open>seq_step\<close> for the sequence number of the metrics.

  \<^bold>\<open>Theories, in the order of the layers.\<close>
  \<^item> \<open>Prelude\<close>: results, 64-bit wrap-around, Go's times and durations, the state monad's rules.
  \<^item> \<open>Priority_Queue\<close> (\<^verbatim>\<open>data/priority.go\<close>, and Go's \<^verbatim>\<open>container/heap\<close> which it is written for):
    the heap loops terminate and keep the heap; popping sorts; \<open>update\<close> reorders. The locale
    \<open>max_bag\<close> is the contract the next theory uses.
  \<^item> \<open>MRU_Queue\<close> (\<^verbatim>\<open>data/mru.go\<close>): refines a bag with capacity; its contract is the locale
    \<open>recency_cache\<close>.
  \<^item> \<open>Log_Level\<close> (\<^verbatim>\<open>log/level.go\<close>, \<^verbatim>\<open>log/console.go\<close>), \<open>Metrics_Hook\<close> (\<^verbatim>\<open>metrics/hook.go\<close>): parsing and
    filtering of levels; what each hook sends, and the race on the sequence number.
    \<open>Console\<close>: what a logger of the interface (\<^verbatim>\<open>log/logger.go\<close>, locale \<open>leveled_logger\<close>) prints for a trace.
  \<^item> \<open>World\<close>: the parts of Go's net, time and crypto/tls packages the program uses;
    \<open>Net_Conn\<close> (\<^verbatim>\<open>network/conn.go\<close>): connections with timeouts, UDP as a connection.
  \<^item> \<open>Conn_Pool\<close> (\<^verbatim>\<open>network/persistent.go\<close>) over any dialer (locale \<open>pool_dialer\<close>), \<open>TLS_Client\<close>
    (\<^verbatim>\<open>network/client.go\<close>) with the dialer of the program, \<open>Display\<close> (their
    \<open>String\<close> methods), \<open>Pool_System\<close>: any number of clients
    with requests and goroutines in any order. Ownership of sockets is a multiset
    equation, \<open>accounts\<close>: the open sockets are those cached, captured by a goroutine or held.
  \<^item> \<open>Sharding\<close> (\<^verbatim>\<open>network/sharding.go\<close>) over any clients (locale \<open>client_contract\<close>, interpreted on
    the TLS clients), \<open>Round_Robin_Race\<close>: the index under concurrent calls,
    \<open>Availability_Policy\<close>: back-off, and when a call returns.
  \<^item> \<open>DNS_Proxy\<close> (\<^verbatim>\<open>protocol/dns_proxy.go\<close>): the handler over any upstream, with a logic for
    what a program appends to the trace and to the goroutines. \<open>Request_Phases\<close>: the same
    handler cut into phases, equal to it when nothing intervenes, with the locale
    \<open>dns_upstream\<close>, the upstream client the handler relies on.
  \<^item> \<open>Server\<close> (\<^verbatim>\<open>network/server.go\<close>): the server loops and the interpretation of \<open>dns_upstream\<close> on
    the sharded client. \<open>Live_System\<close>: the running program \<open>live_step\<close>, its invariant \<open>live_inv\<close>,
    the story every request in flight has told so far, and that the server loops are runs
    of it. \<open>Drain\<close>: when nothing new comes in, the work ends, and leaves nothing behind.
    \<open>Timeouts\<close>: connections keep the timeouts of their dialer through pools and goroutines,
    with a second interpretation of \<open>client_contract\<close>. \<open>Healthy\<close>: in a responsive environment no
    request leaves the track from reading to its answer.
    \<open>Client_Stats\<close>: counters that goroutines update add up to the calls made. \<open>Client_Gauge\<close>: what
    is reported to the hook of client connections, with a third interpretation of \<open>client_contract\<close>.
  \<^item> \<open>Config\<close> (\<^verbatim>\<open>meta/config.go\<close>): validation against a declarative \<open>config_ok\<close>.
  \<^item> \<open>Dotproxy_Main\<close> (\<^verbatim>\<open>cmd/dotproxy/main.go\<close>): start-up establishes the invariant, so the whole
    program never panics, accounts for every socket, never lets two requests share an
    upstream connection, drains, and answers every request in a responsive
    environment; the verbosity flag changes only what is printed. \<open>Program\<close>: more about the
    whole program, from \<open>main\<close> on: every reference is valid, and the connections reported as
    opened less those reported as closed are the ones being served.

  \<^bold>\<open>Bounds and fuel.\<close> The recursion of the availability policy need not end, so it takes
  fuel and gives \<open>Hang\<close> when it runs out; it is shown that one more than the number of
  clients is enough for a call within 100 ms, and that in one outage no fuel is enough.
  Steps of the running program quantify over all fuel. All other loops are total
  functions, the retry loop of the handler by recursion on the retry budget. Statistics,
  expiries and the sequence number wrap at 64 bits, lengths on the wire at 16.

  \<^bold>\<open>A responsive environment.\<close> \<open>responsive T C e\<close> is what an answer needs: connections open, an
  operation ends less than \<open>T\<close> after its deadline was set, writes are complete, a read on
  a socket outside \<open>C\<close> fills its buffer. The last is more than TCP promises, and it is what
  \<open>upstreamTransact\<close> relies on; \<open>C\<close> are the clients' sockets, whose reads may be short.

  \<^bold>\<open>Parameters.\<close> The generated \<open>String\<close> methods (with \<open>level_stringer\<close>, \<open>policy_stringer\<close>: a
  constant prints as its name), the YAML decoder, the file system and the statsd client are
  arguments of the definitions that use them.

  \<^bold>\<open>Not modelled.\<close> The TLS protocol, the socket option for TCP Fast Open and the session
  cache (of a handshake only success or failure is visible); the text of log messages
  after formatting; the transport of metrics and error reports; the seeding of the random
  number generator (\<^verbatim>\<open>network/init.go\<close>): any answers in range are allowed; the value of the
  version string (\<^verbatim>\<open>meta/version.go\<close>), an argument; the parsing of the command line; the
  tool imports of \<^verbatim>\<open>tools.go\<close>. \<open>strings.ToLower\<close> is modelled for the code
  points whose lower case is in ASCII.
\<close>

end
